(* ===== verification/Prelude.thy ===== *)
theory Prelude
  imports Main "HOL-Library.Word"
begin

text \<open>
  What the theories of the development share: the machine's integer types, the result type of
  kernel code that may not return, a weakest-precondition calculus for it, and generic lemmas on
  lists, functions and words.
\<close>

unbundle bit_operations_syntax

section \<open>Machine integers and pointers\<close>

text \<open>
  The kernel is compiled for i386: \<open>char\<close> is 8 bits, \<open>short\<close> 16, \<open>int\<close> and \<open>long\<close> 32.
  A pointer to an element of one of the kernel's tables is the element's index counted from 1,
  and 0 is the null pointer.
\<close>

type_synonym u8 = "8 word"
type_synonym u16 = "16 word"
type_synonym u32 = "32 word"
type_synonym ptr = nat

abbreviation NULL :: ptr where
  "NULL \<equiv> 0"

section \<open>Results of kernel code\<close>

text \<open>
  Kernel code either returns a value or stops for good: it calls \<open>panic\<close> (which prints the message
  and spins), it spins in a loop whose condition can no longer change (\<open>Hang\<close>), it raises the
  processor's divide exception (whose handler halts the system), or it touches memory whose contents
  the model does not describe (\<open>Fault\<close>).
\<close>

datatype stop = Panic string | Hang | DivideError | Fault

type_synonym 'a kres = "stop + 'a"

definition bnd :: "'a kres \<Rightarrow> ('a \<Rightarrow> 'b kres) \<Rightarrow> 'b kres" where
  "bnd m f = (case m of Inl e \<Rightarrow> Inl e | Inr x \<Rightarrow> f x)"

lemma bnd_Inl [simp]: "bnd (Inl e) f = Inl e"
  by (simp add: bnd_def)

lemma bnd_Inr [simp]: "bnd (Inr x) f = f x"
  by (simp add: bnd_def)

lemma bnd_eq_Inr: "bnd m f = Inr y \<longleftrightarrow> (\<exists>x. m = Inr x \<and> f x = Inr y)"
  by (cases m) auto

lemma bnd_eq_Inl: "bnd m f = Inl e \<longleftrightarrow> m = Inl e \<or> (\<exists>x. m = Inr x \<and> f x = Inl e)"
  by (cases m) auto

lemma bnd_cong [fundef_cong]:
  "m = m' \<Longrightarrow> (\<And>x. m' = Inr x \<Longrightarrow> f x = f' x) \<Longrightarrow> bnd m f = bnd m' f'"
  by (cases m') auto

lemma bnd_assoc: "bnd (bnd m f) g = bnd m (\<lambda>x. bnd (f x) g)"
  by (cases m) auto

section \<open>Weakest preconditions\<close>

text \<open>
  \<open>wp m E Q\<close>: if \<open>m\<close> returns, its value satisfies \<open>Q\<close>, and if it stops, the way it stops satisfies
  \<open>E\<close>. With \<open>E\<close> nowhere true the code must return; with \<open>E = (\<lambda>e. e = Hang)\<close> it may only spin.
\<close>

definition wp :: "'a kres \<Rightarrow> (stop \<Rightarrow> bool) \<Rightarrow> ('a \<Rightarrow> bool) \<Rightarrow> bool" where
  "wp m E Q \<longleftrightarrow> (case m of Inl e \<Rightarrow> E e | Inr x \<Rightarrow> Q x)"

named_theorems wp_rules "weakest preconditions of the model's operations"

lemma wp_Inl [simp, wp_rules]: "wp (Inl e) E Q \<longleftrightarrow> E e"
  by (simp add: wp_def)

lemma wp_Inr [simp, wp_rules]: "wp (Inr x) E Q \<longleftrightarrow> Q x"
  by (simp add: wp_def)

lemma wp_bnd [simp, wp_rules]: "wp (bnd m f) E Q \<longleftrightarrow> wp m E (\<lambda>x. wp (f x) E Q)"
  by (cases m) (auto simp: wp_def)

lemma wp_mono:
  "wp m E Q \<Longrightarrow> (\<And>e. E e \<Longrightarrow> E' e) \<Longrightarrow> (\<And>x. Q x \<Longrightarrow> Q' x) \<Longrightarrow> wp m E' Q'"
  by (cases m) (auto simp: wp_def)

lemma wp_conj: "wp m E Q \<Longrightarrow> wp m E' Q' \<Longrightarrow> wp m (\<lambda>e. E e \<and> E' e) (\<lambda>x. Q x \<and> Q' x)"
  by (cases m) (auto simp: wp_def)

lemma wp_InrD: "wp m E Q \<Longrightarrow> m = Inr x \<Longrightarrow> Q x"
  by simp

lemma wp_InlD: "wp m E Q \<Longrightarrow> m = Inl e \<Longrightarrow> E e"
  by simp

lemma wp_total: "wp m (\<lambda>_. False) Q \<longleftrightarrow> (\<exists>x. m = Inr x \<and> Q x)"
  by (cases m) auto

section \<open>Lists\<close>

lemma butlast_snoc_id: "xs \<noteq> [] \<Longrightarrow> butlast xs @ [last xs] = xs"
  by simp

lemma last_notin_butlast: "distinct xs \<Longrightarrow> xs \<noteq> [] \<Longrightarrow> last xs \<notin> set (butlast xs)"
  by (cases xs rule: rev_cases) auto

lemma hd_notin_tl: "distinct xs \<Longrightarrow> xs \<noteq> [] \<Longrightarrow> hd xs \<notin> set (tl xs)"
  by (cases xs) auto

lemma remove1_split: "x \<notin> set as \<Longrightarrow> remove1 x (as @ x # bs) = as @ bs"
  by (induction as) auto

section \<open>Words\<close>

text \<open>A value that fits survives being stored in an \<open>unsigned short\<close> field.\<close>

lemma unat_u16_bound: "unat (a :: u16) < 65536"
  using unsigned_less [of a] by simp

lemma unat_u32_u16: "unat (ucast (w :: u32) :: u16) = unat w mod 65536"
  by (simp add: unsigned_ucast_eq take_bit_eq_mod)

lemma unat_u16_u32 [simp]: "unat (ucast (a :: u16) :: u32) = unat a"
  using unat_u16_bound [of a] by (simp add: unsigned_ucast_eq take_bit_eq_mod)

lemma ucast_u16_u32: "unat w < 65536 \<Longrightarrow> (ucast (ucast (w :: u32) :: u16) :: u32) = w"
  by (simp only: word_unat_eq_iff unat_u16_u32 unat_u32_u16 mod_less)

lemma ucast_u16_zero_iff: "unat w < 65536 \<Longrightarrow> (ucast (w :: u32) :: u16) = 0 \<longleftrightarrow> w = 0"
  by (simp add: word_unat_eq_iff unat_u32_u16)

lemma ucast_u32_inj: "(ucast (a :: u16) :: u32) = ucast b \<longleftrightarrow> a = b"
  by (simp add: word_unat_eq_iff)

lemma ucast_u32_zero_iff [simp]: "(ucast (a :: u16) :: u32) = 0 \<longleftrightarrow> a = 0"
  by (simp add: word_unat_eq_iff)

end
