(* ===== verification/DList.thy ===== *)
theory DList
  imports Prelude
begin

text \<open>
  Doubly linked structures over two link functions, \<open>N\<close> for the forward and \<open>P\<close> for the backward
  pointer: null-terminated lists (the buffer hash chains) and rings (the buffer free list). Both
  describe what a list of nodes looks like in the heap and how the pointer writes of the C code
  change it.
\<close>

section \<open>Linked segments\<close>

fun links :: "(ptr \<Rightarrow> ptr) \<Rightarrow> (ptr \<Rightarrow> ptr) \<Rightarrow> ptr list \<Rightarrow> bool" where
  "links N P [] = True"
| "links N P [x] = True"
| "links N P (x # y # zs) = (N x = y \<and> P y = x \<and> links N P (y # zs))"

lemma links_append:
  "links N P (xs @ y # ys) \<longleftrightarrow> links N P (xs @ [y]) \<and> links N P (y # ys)"
  by (induction N P xs rule: links.induct) (cases ys; auto)+

lemma links_cong:
  "(\<And>x. x \<in> set (butlast xs) \<Longrightarrow> N x = N' x) \<Longrightarrow> (\<And>x. x \<in> set (tl xs) \<Longrightarrow> P x = P' x)
    \<Longrightarrow> links N P xs = links N' P' xs"
proof (induction N P xs rule: links.induct)
  case (3 N P x y zs)
  have "links N P (y # zs) = links N' P' (y # zs)"
    by (rule "3.IH") (use "3.prems" in \<open>auto split: if_splits\<close>)
  moreover have "N x = N' x" "P y = P' y"
    using "3.prems"(1) [of x] "3.prems"(2) [of y] by auto
  ultimately show ?case by simp
qed auto

lemma links_upd_N: "u \<notin> set (butlast xs) \<Longrightarrow> links (N(u := v)) P xs = links N P xs"
  by (rule links_cong) auto

lemma links_upd_P: "u \<notin> set (tl xs) \<Longrightarrow> links N (P(u := v)) xs = links N P xs"
  by (rule links_cong) auto

lemma links_snoc2: "links N P (xs @ [x, y]) \<longleftrightarrow> links N P (xs @ [x]) \<and> N x = y \<and> P y = x"
  using links_append [of N P xs x "[y]"] by simp

lemma links_join:
  assumes "xs \<noteq> []" "ys \<noteq> []"
  shows "links N P (xs @ ys) \<longleftrightarrow>
    links N P xs \<and> N (last xs) = hd ys \<and> P (hd ys) = last xs \<and> links N P ys"
proof -
  obtain y zs where ys: "ys = y # zs" using assms(2) by (cases ys) auto
  obtain ws x where xs: "xs = ws @ [x]" using assms(1) by (cases xs rule: rev_cases) auto
  have "links N P (ws @ x # [y]) \<longleftrightarrow> links N P (ws @ [x]) \<and> links N P [x, y]"
    by (rule links_append)
  then show ?thesis
    using links_append [of N P xs y zs] by (auto simp: xs ys)
qed

section \<open>Rings\<close>

text \<open>A non-empty circular list, written from the node the list head points to.\<close>

definition ring :: "(ptr \<Rightarrow> ptr) \<Rightarrow> (ptr \<Rightarrow> ptr) \<Rightarrow> ptr list \<Rightarrow> bool" where
  "ring N P l \<longleftrightarrow> l \<noteq> [] \<and> distinct l \<and> links N P (l @ [hd l])"

lemma ring_iff:
  "ring N P l \<longleftrightarrow> l \<noteq> [] \<and> distinct l \<and> links N P l \<and> N (last l) = hd l \<and> P (hd l) = last l"
  unfolding ring_def by (cases "l = []") (auto simp: links_join)

lemma ring_prev_hd: "ring N P l \<Longrightarrow> P (hd l) = last l"
  by (simp add: ring_iff)

lemma ring_next_last: "ring N P l \<Longrightarrow> N (last l) = hd l"
  by (simp add: ring_iff)

lemma ring_cong:
  "(\<And>x. x \<in> set l \<Longrightarrow> N x = N' x) \<Longrightarrow> (\<And>x. x \<in> set l \<Longrightarrow> P x = P' x) \<Longrightarrow> ring N P l = ring N' P' l"
proof (cases "l = []")
  case False
  assume N: "\<And>x. x \<in> set l \<Longrightarrow> N x = N' x" and P: "\<And>x. x \<in> set l \<Longrightarrow> P x = P' x"
  have "links N P l = links N' P' l"
    by (rule links_cong) (use N P in \<open>auto dest: in_set_butlastD list.set_sel(2) [OF False]\<close>)
  then show ?thesis
    using False N [OF last_in_set] P [OF hd_in_set] by (auto simp: ring_iff)
qed (simp add: ring_def)

lemma ring_next_in: "ring N P l \<Longrightarrow> x \<in> set l \<Longrightarrow> N x \<in> set l \<and> P x \<in> set l"
proof -
  assume r: "ring N P l" and x: "x \<in> set l"
  then obtain as bs where l: "l = as @ x # bs" by (auto simp: in_set_conv_decomp)
  have k: "links N P (as @ x # (bs @ [hd l]))" using r by (simp add: ring_def l)
  have "links N P (x # (bs @ [hd l]))" using k links_append [of N P as x "bs @ [hd l]"] by blast
  then have n: "N x \<in> set l" by (cases bs) (auto simp: l hd_append)
  have "P x \<in> set l"
  proof (cases "as = []")
    case True
    then show ?thesis using r ring_prev_hd [OF r] by (simp add: l)
  next
    case False
    have "links N P (as @ [x])" using k links_append [of N P as x "bs @ [hd l]"] by blast
    then have "P x = last as" using False by (auto simp: links_join)
    then show ?thesis using False by (simp add: l)
  qed
  with n show ?thesis ..
qed

subsection \<open>Unlinking a node\<close>

text \<open>
  The two writes \<open>bh->prev->next = bh->next\<close> and \<open>bh->next->prev = bh->prev\<close> take the node out of
  the ring, provided it is not the only one.
\<close>

lemma ring_unlink:
  assumes r: "ring N P (as @ b # bs)" and ne: "as @ bs \<noteq> []"
  shows "ring (N(P b := N b)) (P(N b := P b)) (as @ bs)"
proof (cases "as = []")
  case True
  then have bs: "bs \<noteq> []" and d: "b \<notin> set bs" "distinct bs" using ne r by (auto simp: ring_def)
  have k: "links N P bs" "N b = hd bs" "P b = last bs" "N (last bs) = b"
    using r True bs links_join [of "[b]" bs N P] by (auto simp: ring_iff)
  have "links (N(P b := N b)) (P(N b := P b)) bs"
    using k d bs by (simp add: links_upd_N links_upd_P last_notin_butlast hd_notin_tl)
  then show ?thesis using True k d bs by (simp add: ring_iff)
next
  case False
  define rs where "rs = bs @ [hd as]"
  have rs: "rs \<noteq> []" "hd rs \<in> set bs \<union> {hd as}" by (auto simp: rs_def hd_append)
  have d: "distinct as" "distinct bs" "b \<notin> set as" "b \<notin> set bs" "set as \<inter> set bs = {}"
    using r by (auto simp: ring_def)
  have "links N P (as @ b # rs)" using r False by (simp add: ring_def rs_def)
  then have "links N P as \<and> P b = last as \<and> links N P (b # rs)"
    using False links_join [of as "b # rs" N P] by simp
  then have k: "links N P as" "P b = last as" "links N P rs" "N b = hd rs"
    using rs(1) links_join [of "[b]" rs N P] by auto
  let ?N = "N(P b := N b)" and ?P = "P(N b := P b)"
  have dr: "distinct rs" using d False by (cases as) (auto simp: rs_def)
  have hr: "hd rs \<notin> set (tl as)"
    using rs(2) d False by (cases as) auto
  have la: "last as \<notin> set (butlast rs)" using d(5) last_in_set [OF False] by (auto simp: rs_def)
  have "links ?N ?P as"
    using k hr by (simp add: links_upd_N links_upd_P last_notin_butlast d(1) False)
  moreover have "links ?N ?P rs"
    using k la by (simp add: links_upd_N links_upd_P hd_notin_tl dr rs(1))
  ultimately have "links ?N ?P (as @ rs)"
    using False rs(1) k by (simp add: links_join)
  then show ?thesis using False d by (simp add: ring_def rs_def)
qed

subsection \<open>Appending a node\<close>

text \<open>
  The four writes that put a node in front of the list head, that is, at the end of the ring.
\<close>

lemma ring_append:
  assumes r: "ring N P l" and b: "b \<notin> set l"
  shows "ring (N(b := hd l, last l := b)) (P(b := last l, hd l := b)) (l @ [b])"
proof -
  have l: "l \<noteq> []" and d: "distinct l" and k: "links N P l" using r by (auto simp: ring_iff)
  have hl: "hd l \<noteq> b" "last l \<noteq> b" using b l by auto
  let ?N = "N(b := hd l, last l := b)" and ?P = "P(b := last l, hd l := b)"
  have "b \<notin> set (butlast l)" "b \<notin> set (tl l)"
    using b by (auto dest: in_set_butlastD list.set_sel(2) [OF l])
  then have "links ?N ?P l"
    using k l d by (simp add: links_upd_N links_upd_P last_notin_butlast hd_notin_tl)
  then have "links ?N ?P (l @ [b])"
    using l hl by (simp add: links_join)
  then show ?thesis using l d b hl by (simp add: ring_iff)
qed

section \<open>Null-terminated doubly linked lists\<close>

text \<open>\<open>dlist N P q p xs\<close>: from \<open>p\<close> the nodes \<open>xs\<close> follow, the first one's back pointer being \<open>q\<close>.\<close>

fun dlist :: "(ptr \<Rightarrow> ptr) \<Rightarrow> (ptr \<Rightarrow> ptr) \<Rightarrow> ptr \<Rightarrow> ptr \<Rightarrow> ptr list \<Rightarrow> bool" where
  "dlist N P q p [] = (p = NULL)"
| "dlist N P q p (x # xs) = (p = x \<and> x \<noteq> NULL \<and> P x = q \<and> dlist N P x (N x) xs)"

lemma dlist_unique: "dlist N P q p xs \<Longrightarrow> dlist N P q' p ys \<Longrightarrow> xs = ys"
proof (induction xs arbitrary: q q' p ys)
  case Nil
  then show ?case by (cases ys) auto
next
  case (Cons x xs)
  then show ?case by (cases ys) auto
qed

lemma dlist_nonnull: "dlist N P q p xs \<Longrightarrow> NULL \<notin> set xs"
  by (induction xs arbitrary: q p) auto

lemma dlist_cong:
  "(\<And>x. x \<in> set xs \<Longrightarrow> N x = N' x) \<Longrightarrow> (\<And>x. x \<in> set xs \<Longrightarrow> P x = P' x)
    \<Longrightarrow> dlist N P q p xs = dlist N' P' q p xs"
  by (induction xs arbitrary: q p) auto

lemma dlist_upd: 
  "u \<notin> set xs \<Longrightarrow> dlist (N(u := v)) P q p xs = dlist N P q p xs"
  "u \<notin> set xs \<Longrightarrow> dlist N (P(u := v)) q p xs = dlist N P q p xs"
  by (rule dlist_cong; auto)+


lemma dlist_hd: "dlist N P q p xs \<Longrightarrow> p = (if xs = [] then NULL else hd xs)"
  by (cases xs) auto

lemma dlist_split:
  "dlist N P q p (as @ b # bs) \<Longrightarrow>
    N b = (if bs = [] then NULL else hd bs) \<and> P b = (if as = [] then q else last as)"
proof (induction as arbitrary: q p)
  case Nil
  then show ?case by (cases bs) auto
next
  case (Cons a as)
  then have "dlist N P a (N a) (as @ b # bs)" by simp
  from Cons.IH [OF this] show ?case by auto
qed

lemma dlist_neighbours:
  assumes "dlist N P NULL p xs" "distinct xs" "b \<in> set xs"
  shows "N b \<in> insert NULL (set xs)" "P b \<in> insert NULL (set xs)" "N b \<noteq> b" "P b \<noteq> b"
proof -
  obtain as bs where xs: "xs = as @ b # bs" using assms(3) by (auto simp: in_set_conv_decomp)
  have nn: "b \<noteq> NULL" using dlist_nonnull [OF assms(1)] assms(3) by (cases "b = NULL") auto
  have s: "N b = (if bs = [] then NULL else hd bs)" "P b = (if as = [] then NULL else last as)"
    using dlist_split assms(1) xs by blast+
  show "N b \<in> insert NULL (set xs)" using s by (auto simp: xs)
  show "P b \<in> insert NULL (set xs)" using s by (auto simp: xs)
  show "N b \<noteq> b" using s nn assms(2) by (cases bs) (auto simp: xs)
  show "P b \<noteq> b" using s nn assms(2) by (cases as rule: rev_cases) (auto simp: xs)
qed

text \<open>Pushing a node in front of the head, with the write to the old head's back pointer.\<close>

lemma dlist_push:
  assumes d: "dlist N P NULL h xs" and b: "b \<notin> set xs" "b \<noteq> NULL" and dx: "distinct xs"
  shows "dlist (N(b := h)) (P(b := NULL, h := b)) NULL b (b # xs)"
proof (cases xs)
  case Nil
  then show ?thesis using d b by simp
next
  case (Cons x ys)
  then have x: "h = x" "x \<noteq> NULL" "x \<noteq> b" "dlist N P x (N x) ys" using d b by auto
  have "dlist (N(b := x)) (P(b := NULL, x := b)) x (N x) ys = dlist N P x (N x) ys"
    by (rule dlist_cong) (use Cons b dx in auto)
  then show ?thesis using Cons x b by simp
qed

text \<open>
  Unlinking a node: the code writes the neighbours that exist, and moves the head when it was the
  first. A segment's last node before \<open>b\<close>, or the incoming back pointer, is \<open>b\<close>'s predecessor.
\<close>

definition unlink_N :: "(ptr \<Rightarrow> ptr) \<Rightarrow> (ptr \<Rightarrow> ptr) \<Rightarrow> ptr \<Rightarrow> ptr \<Rightarrow> ptr" where
  "unlink_N N P b = (if P b = NULL then N else N(P b := N b))"

definition unlink_P :: "(ptr \<Rightarrow> ptr) \<Rightarrow> (ptr \<Rightarrow> ptr) \<Rightarrow> ptr \<Rightarrow> ptr \<Rightarrow> ptr" where
  "unlink_P N P b = (if N b = NULL then P else P(N b := P b))"

lemma dlist_unlink_tail:
  assumes "dlist N P b (N b) bs" "distinct bs" "b \<notin> set bs" "P b \<notin> set bs"
  shows "dlist (unlink_N N P b) (unlink_P N P b) (P b) (N b) bs"
proof (cases bs)
  case Nil
  then show ?thesis using assms by simp
next
  case (Cons y ys)
  then have y: "N b = y" "y \<noteq> NULL" "dlist N P y (N y) ys" using assms by auto
  have "dlist (unlink_N N P b) (unlink_P N P b) y (N y) ys = dlist N P y (N y) ys"
    by (rule dlist_cong) (use Cons assms y in \<open>auto simp: unlink_N_def unlink_P_def\<close>)
  moreover have "unlink_N N P b y = N y" "unlink_P N P b y = P b"
    using y assms Cons by (auto simp: unlink_N_def unlink_P_def)
  ultimately show ?thesis using Cons y by simp
qed

lemma dlist_unlink_mid:
  assumes "dlist N P q p (as @ b # bs)" "as \<noteq> []" "distinct (as @ b # bs)"
  shows "dlist (unlink_N N P b) (unlink_P N P b) q p (as @ bs)"
  using assms
proof (induction as arbitrary: q p)
  case (Cons a as)
  have nn: "NULL \<notin> set (a # as @ b # bs)" using dlist_nonnull [OF Cons.prems(1)] by simp
  show ?case
  proof (cases "as = []")
    case True
    then have h: "N a = b" "P b = a" "a \<noteq> NULL" "dlist N P b (N b) bs" "p = a" "P a = q"
      using Cons.prems by auto
    have t: "dlist (unlink_N N P b) (unlink_P N P b) (P b) (N b) bs"
      by (rule dlist_unlink_tail) (use h True Cons.prems in auto)
    have "N b \<noteq> a"
      using h(4) dlist_hd [OF h(4)] Cons.prems(3) True h(3) by (auto split: if_splits)
    then have "unlink_N N P b a = N b" "unlink_P N P b a = q"
      using h by (auto simp: unlink_N_def unlink_P_def)
    then show ?thesis using t h True by simp
  next
    case False
    have rest: "dlist N P a (N a) (as @ b # bs)" and a: "p = a" "P a = q" "a \<noteq> NULL"
      using Cons.prems by auto
    have IH: "dlist (unlink_N N P b) (unlink_P N P b) a (N a) (as @ bs)"
      using Cons.IH [OF rest False] Cons.prems by simp
    have pb: "P b \<in> set as"
      using rest False
    proof (induction as arbitrary: a)
      case (Cons a' as')
      then show ?case by (cases as') auto
    qed simp
    have "N b \<noteq> a"
    proof -
      obtain q' where "dlist N P q' (N b) bs"
        using rest by (induction as arbitrary: a) auto
      then show ?thesis using Cons.prems(3) a(3) by (cases bs) auto
    qed
    then have "unlink_N N P b a = N a" "unlink_P N P b a = q"
      using a pb Cons.prems(3) by (auto simp: unlink_N_def unlink_P_def)
    then show ?thesis using IH a by simp
  qed
qed simp

lemma dlist_unlink:
  assumes "dlist N P NULL h (as @ b # bs)" "distinct (as @ b # bs)"
  shows "dlist (unlink_N N P b) (unlink_P N P b) NULL (if h = b then N b else h) (as @ bs)"
proof (cases "as = []")
  case True
  have nn: "NULL \<notin> set (as @ b # bs)" using assms(1) by (rule dlist_nonnull)
  have h: "h = b" "P b = NULL" "dlist N P b (N b) bs" using assms(1) True by auto
  have "dlist (unlink_N N P b) (unlink_P N P b) (P b) (N b) bs"
    by (rule dlist_unlink_tail) (use h nn assms(2) in auto)
  then show ?thesis using h True by simp
next
  case False
  have "h \<noteq> b" using assms dlist_hd [OF assms(1)] False by (cases as) auto
  then show ?thesis using dlist_unlink_mid [OF assms(1) False assms(2)] by simp
qed

section \<open>Null-terminated singly linked lists\<close>

fun slist :: "(ptr \<Rightarrow> ptr) \<Rightarrow> ptr \<Rightarrow> ptr list \<Rightarrow> bool" where
  "slist N p [] = (p = NULL)"
| "slist N p (x # xs) = (p = x \<and> x \<noteq> NULL \<and> slist N (N x) xs)"

lemma slist_cong: "(\<And>x. x \<in> set xs \<Longrightarrow> N x = N' x) \<Longrightarrow> slist N p xs = slist N' p xs"
  by (induction xs arbitrary: p) auto

lemma slist_upd: "u \<notin> set xs \<Longrightarrow> slist (N(u := v)) p xs = slist N p xs"
  by (rule slist_cong) auto

lemma slist_NULL [simp]: "slist N NULL xs \<longleftrightarrow> xs = []"
  by (cases xs) auto

lemma slist_nonnull: "slist N p xs \<Longrightarrow> p \<noteq> NULL \<longleftrightarrow> xs \<noteq> []"
  by (cases xs) auto

text \<open>Inserting a node after \<open>a\<close>.\<close>

lemma slist_insert_after:
  assumes "slist N p (as @ a # bs)" "distinct (as @ a # bs)" "x \<notin> set (as @ a # bs)" "x \<noteq> NULL"
  shows "slist (N(x := N a, a := x)) p (as @ a # x # bs)"
  using assms
proof (induction as arbitrary: p)
  case Nil
  define M where "M = N(x := N a, a := x)"
  have "slist M (N a) bs = slist N (N a) bs"
    by (rule slist_cong) (use Nil in \<open>auto simp: M_def\<close>)
  moreover have "M a = x" "M x = N a" using Nil by (auto simp: M_def)
  ultimately show ?case using Nil unfolding M_def [symmetric] by auto
next
  case (Cons b as)
  define M where "M = N(x := N a, a := x)"
  have "M b = N b" using Cons.prems by (auto simp: M_def)
  moreover have "slist M (N b) (as @ a # x # bs)"
    unfolding M_def by (rule Cons.IH) (use Cons.prems in auto)
  ultimately show ?case using Cons.prems unfolding M_def [symmetric] by auto
qed

end
