(* ===== verification/Cache.thy ===== *)
theory Cache
  imports DList
begin

text \<open>
  The data of the buffer cache (\<open>src/inc/fs.h\<close>, \<open>src/blk/buffer.c\<close>): the buffer heads, the hash
  table of cached blocks and the free list, with the operations that relink them. The operations
  that wait for the disk are in the theory of the buffer operations, after the driver.
\<close>

section \<open>Buffer heads\<close>

text \<open>
  \<open>struct buffer_head\<close>. Buffer number \<open>p\<close> stands for the pointer \<open>start_buffer + (p - 1)\<close>; \<open>b_data\<close>
  is the address of its 1024 bytes, whose contents are kept per buffer in \<open>bdata\<close> below.
\<close>

record buffer_head =
  b_data :: nat
  b_blocknr :: u32
  b_dev :: u16
  b_uptodate :: u8
  b_dirt :: u8
  b_count :: u8
  b_lock :: u8
  b_wait :: ptr
  b_prev :: ptr
  b_next :: ptr
  b_prev_free :: ptr
  b_next_free :: ptr

text \<open>
  The cache. \<open>bufs NULL\<close> is what a null \<open>struct buffer_head *\<close> reads and writes: the boot code maps
  page 0 read-write (\<open>src/start.s\<close>), so such an access goes to low memory and does not trap.
\<close>

record cache =
  bufs :: "ptr \<Rightarrow> buffer_head"
  bdata :: "ptr \<Rightarrow> nat \<Rightarrow> u8"
  hash_table :: "nat \<Rightarrow> ptr"
  free_list :: ptr
  NR_BUFFERS :: nat

abbreviation NR_HASH :: nat where
  "NR_HASH \<equiv> 307"

abbreviation BLOCK_SIZE :: nat where
  "BLOCK_SIZE \<equiv> 1024"

definition upd_buf :: "ptr \<Rightarrow> (buffer_head \<Rightarrow> buffer_head) \<Rightarrow> cache \<Rightarrow> cache" where
  "upd_buf p f c = c\<lparr>bufs := (bufs c)(p := f (bufs c p))\<rparr>"

lemma upd_buf_simps [simp]:
  "bufs (upd_buf p f c) = (bufs c)(p := f (bufs c p))"
  "bdata (upd_buf p f c) = bdata c"
  "hash_table (upd_buf p f c) = hash_table c"
  "free_list (upd_buf p f c) = free_list c"
  "NR_BUFFERS (upd_buf p f c) = NR_BUFFERS c"
  by (simp_all add: upd_buf_def)

definition buffers :: "cache \<Rightarrow> ptr set" where
  "buffers c = {1..NR_BUFFERS c}"

lemma buffers_nonnull [simp]: "NULL \<notin> buffers c"
  by (simp add: buffers_def)

lemma buffers_upd_buf [simp]: "buffers (upd_buf p f c) = buffers c"
  by (simp add: buffers_def)

subsection \<open>The hash function\<close>

definition hashfn :: "u32 \<Rightarrow> u32 \<Rightarrow> nat" where
  "hashfn dev block = unat (dev XOR block) mod NR_HASH"

lemma hashfn_bound [simp]: "hashfn dev block < NR_HASH"
  by (simp add: hashfn_def)

definition buf_key :: "buffer_head \<Rightarrow> u32 \<times> u32" where
  "buf_key b = (ucast (b_dev b), b_blocknr b)"

definition buf_hash :: "buffer_head \<Rightarrow> nat" where
  "buf_hash b = hashfn (ucast (b_dev b)) (b_blocknr b)"

lemma buf_hash_bound [simp]: "buf_hash b < NR_HASH"
  by (simp add: buf_hash_def)

lemma buf_hash_key: "buf_hash b = hashfn (fst (buf_key b)) (snd (buf_key b))"
  by (simp add: buf_hash_def buf_key_def)

section \<open>Relinking: \<open>remove_from_queues\<close> and \<open>insert_into_queues\<close>\<close>

text \<open>The first half of \<open>remove_from_queues\<close>: out of the hash queue.\<close>

definition remove_from_hash :: "ptr \<Rightarrow> cache \<Rightarrow> cache" where
  "remove_from_hash bh c0 =
     (let c1 = (if b_next (bufs c0 bh) \<noteq> NULL
                then upd_buf (b_next (bufs c0 bh)) (\<lambda>b. b\<lparr>b_prev := b_prev (bufs c0 bh)\<rparr>) c0
                else c0);
          c2 = (if b_prev (bufs c1 bh) \<noteq> NULL
                then upd_buf (b_prev (bufs c1 bh)) (\<lambda>b. b\<lparr>b_next := b_next (bufs c1 bh)\<rparr>) c1
                else c1);
          h = buf_hash (bufs c2 bh)
      in if hash_table c2 h = bh
         then c2\<lparr>hash_table := (hash_table c2)(h := b_next (bufs c2 bh))\<rparr>
         else c2)"

text \<open>The second half: out of the free list.\<close>

definition remove_from_free :: "ptr \<Rightarrow> cache \<Rightarrow> cache kres" where
  "remove_from_free bh c0 =
     (if b_prev_free (bufs c0 bh) = NULL \<or> b_next_free (bufs c0 bh) = NULL
      then Inl (Panic ''Free block list corrupted'')
      else let c1 = upd_buf (b_prev_free (bufs c0 bh))
                      (\<lambda>b. b\<lparr>b_next_free := b_next_free (bufs c0 bh)\<rparr>) c0;
               c2 = upd_buf (b_next_free (bufs c1 bh))
                      (\<lambda>b. b\<lparr>b_prev_free := b_prev_free (bufs c1 bh)\<rparr>) c1
           in Inr (if free_list c2 = bh then c2\<lparr>free_list := b_next_free (bufs c2 bh)\<rparr> else c2))"

definition remove_from_queues :: "ptr \<Rightarrow> cache \<Rightarrow> cache kres" where
  "remove_from_queues bh c = remove_from_free bh (remove_from_hash bh c)"

text \<open>The first half of \<open>insert_into_queues\<close>: to the end of the free list.\<close>

definition insert_into_free :: "ptr \<Rightarrow> cache \<Rightarrow> cache" where
  "insert_into_free bh c0 =
     (let fl = free_list c0;
          c1 = upd_buf bh (\<lambda>b. b\<lparr>b_next_free := fl\<rparr>) c0;
          c2 = upd_buf bh (\<lambda>b. b\<lparr>b_prev_free := b_prev_free (bufs c1 fl)\<rparr>) c1;
          c3 = upd_buf (b_prev_free (bufs c2 fl)) (\<lambda>b. b\<lparr>b_next_free := bh\<rparr>) c2
      in upd_buf fl (\<lambda>b. b\<lparr>b_prev_free := bh\<rparr>) c3)"

text \<open>
  The second half: in front of its hash queue, if it has a device. The last write goes through
  \<open>b_next\<close> without testing it, so it goes to \<open>bufs NULL\<close> when the queue was empty.
\<close>

definition insert_into_hash :: "ptr \<Rightarrow> cache \<Rightarrow> cache" where
  "insert_into_hash bh c0 =
     (let c1 = upd_buf bh (\<lambda>b. b\<lparr>b_prev := NULL\<rparr>) c0;
          c2 = upd_buf bh (\<lambda>b. b\<lparr>b_next := NULL\<rparr>) c1
      in if b_dev (bufs c2 bh) = 0 then c2
         else let h = buf_hash (bufs c2 bh);
                  c3 = upd_buf bh (\<lambda>b. b\<lparr>b_next := hash_table c2 h\<rparr>) c2;
                  c4 = c3\<lparr>hash_table := (hash_table c3)(h := bh)\<rparr>
              in upd_buf (b_next (bufs c4 bh)) (\<lambda>b. b\<lparr>b_prev := bh\<rparr>) c4)"

definition insert_into_queues :: "ptr \<Rightarrow> cache \<Rightarrow> cache" where
  "insert_into_queues bh c = insert_into_hash bh (insert_into_free bh c)"

text \<open>
  The last part of \<open>new_buff\<close>: the chosen buffer is claimed, taken out of its queues, given its new
  block and queued again.
\<close>

definition reuse_buff :: "ptr \<Rightarrow> u32 \<Rightarrow> u32 \<Rightarrow> cache \<Rightarrow> cache kres" where
  "reuse_buff bh dev block c0 =
     (let c1 = upd_buf bh (\<lambda>b. b\<lparr>b_count := 1, b_dirt := 0, b_uptodate := 0\<rparr>) c0
      in bnd (remove_from_queues bh c1) (\<lambda>c2.
         let c3 = upd_buf bh (\<lambda>b. b\<lparr>b_dev := ucast dev, b_blocknr := block\<rparr>) c2
         in Inr (insert_into_queues bh c3)))"

section \<open>Lookup: \<open>find_buff\<close>\<close>

text \<open>
  The loop over a hash queue, with fuel for one more node than there are buffers: a walk that
  visits that many nodes has met one twice and never ends.
\<close>

fun find_chain :: "cache \<Rightarrow> nat \<Rightarrow> ptr \<Rightarrow> u32 \<Rightarrow> u32 \<Rightarrow> ptr kres" where
  "find_chain c 0 tmp dev block = Inl Hang"
| "find_chain c (Suc n) tmp dev block =
     (if tmp = NULL then Inr NULL
      else if ucast (b_dev (bufs c tmp)) = dev \<and> b_blocknr (bufs c tmp) = block then Inr tmp
      else find_chain c n (b_next (bufs c tmp)) dev block)"

definition find_buff :: "u32 \<Rightarrow> u32 \<Rightarrow> cache \<Rightarrow> ptr kres" where
  "find_buff dev block c = find_chain c (Suc (NR_BUFFERS c)) (hash_table c (hashfn dev block)) dev block"

section \<open>The choice of a buffer to reuse (the loop of \<open>new_buff\<close>)\<close>

definition badness :: "buffer_head \<Rightarrow> nat" where
  "badness b = 2 * unat (b_dirt b) + unat (b_lock b)"

fun scan_free :: "cache \<Rightarrow> nat \<Rightarrow> ptr \<Rightarrow> ptr \<Rightarrow> ptr kres" where
  "scan_free c 0 tmp bh = Inl Hang"
| "scan_free c (Suc n) tmp bh =
     (let take = (b_count (bufs c tmp) = 0 \<and>
                   (bh = NULL \<or> badness (bufs c tmp) < badness (bufs c bh)));
          bh' = (if take then tmp else bh);
          tmp' = b_next_free (bufs c tmp)
      in if take \<and> badness (bufs c tmp) = 0 then Inr bh'
         else if tmp' \<noteq> free_list c then scan_free c n tmp' bh'
         else Inr bh')"

section \<open>Initialisation: \<open>init_buff\<close>\<close>

text \<open>
  \<open>start_buffer\<close> is the address of the linker symbol \<open>end\<close>. Addresses are numbers below 2 ^ 32 and both the
  subtraction from \<open>b\<close> and the address \<open>h + 1\<close> wrap around. Where \<open>b\<close> passes below 0 and the loop goes on at the
  top of the address space, it writes buffer heads over whatever follows: a \<open>Fault\<close>. A \<open>struct buffer_head\<close> takes
  36 bytes.
\<close>

abbreviation SIZEOF_BUFFER_HEAD :: nat where
  "SIZEOF_BUFFER_HEAD \<equiv> 36"

definition init_head :: "nat \<Rightarrow> ptr \<Rightarrow> buffer_head \<Rightarrow> buffer_head" where
  "init_head b h bf = bf\<lparr>b_dev := 0, b_dirt := 0, b_count := 0, b_lock := 0, b_uptodate := 0,
     b_wait := NULL, b_next := NULL, b_prev := NULL, b_data := b,
     b_prev_free := h - 1, b_next_free := h + 1\<rparr>"

lemma wrap_sub: "BLOCK_SIZE \<le> b \<Longrightarrow> (b + (2 ^ 32 - BLOCK_SIZE)) mod 2 ^ 32 = (b - BLOCK_SIZE) mod 2 ^ 32"
proof -
  assume "BLOCK_SIZE \<le> b"
  then obtain k where "b = BLOCK_SIZE + k" using le_Suc_ex by blast
  then show ?thesis by simp
qed

lemma hole_less: "n < (b :: nat) \<Longrightarrow> (if n = 0x100000 then 0xA0000 else n) < b"
  by auto

lemma wrap_less:
  assumes "BLOCK_SIZE \<le> b"
  shows "(b + (2 ^ 32 - BLOCK_SIZE)) mod 2 ^ 32 < b"
  using mod_less_eq_dividend [of "b - BLOCK_SIZE" "2 ^ 32"] assms unfolding wrap_sub [OF assms] by linarith

function init_loop :: "nat \<Rightarrow> nat \<Rightarrow> ptr \<Rightarrow> cache \<Rightarrow> (ptr \<times> cache) kres" where
  "init_loop start b h c =
     (let b1 = (b + (2 ^ 32 - BLOCK_SIZE)) mod 2 ^ 32
      in if (start + SIZEOF_BUFFER_HEAD * h) mod 2 ^ 32 \<le> b1
      then if b < BLOCK_SIZE then Inl Fault
           else let c1 = upd_buf h (init_head b1 h) c;
                    c2 = c1\<lparr>NR_BUFFERS := NR_BUFFERS c1 + 1\<rparr>;
                    b2 = (if b1 = 0x100000 then 0xA0000 else b1)
                in init_loop start b2 (h + 1) c2
      else Inr (h, c))"
  by pat_completeness auto

termination
  by (relation "measure (\<lambda>(start, b, h, c). b)") (simp_all only: not_less in_measure case_prod_conv wf_measure hole_less [OF wrap_less])

declare init_loop.simps [simp del]

definition buffer_top :: "nat \<Rightarrow> nat" where
  "buffer_top buffer_end = (if buffer_end = 0x100000 then 640 * 1024 else buffer_end)"

definition init_buff :: "nat \<Rightarrow> nat \<Rightarrow> cache \<Rightarrow> cache kres" where
  "init_buff start buffer_end c0 =
     bnd (init_loop start (buffer_top buffer_end) 1 c0) (\<lambda>(h1, c1).
     let h = h1 - 1;
         c2 = c1\<lparr>free_list := 1\<rparr>;
         c3 = upd_buf (free_list c2) (\<lambda>b. b\<lparr>b_prev_free := h\<rparr>) c2;
         c4 = upd_buf h (\<lambda>b. b\<lparr>b_next_free := free_list c3\<rparr>) c3
     in Inr (c4\<lparr>hash_table := (\<lambda>i. if i < NR_HASH then NULL else hash_table c4 i)\<rparr>))"

end
