(* ===== verification/Cache_Inv.thy ===== *)
theory Cache_Inv
  imports Cache
begin

text \<open>
  The invariant of the buffer cache and the proofs that relinking keeps it: the free list is a ring
  of all buffers, every buffer with a device is in the hash queue of its block and in no other, and
  no two buffers cache the same block. The free list refines a queue of buffers (least recently
  used first), the hash table refines a finite map from blocks to buffers.
\<close>

section \<open>Link functions of a cache\<close>

definition hnext :: "cache \<Rightarrow> ptr \<Rightarrow> ptr" where "hnext c = (\<lambda>p. b_next (bufs c p))"
definition hprev :: "cache \<Rightarrow> ptr \<Rightarrow> ptr" where "hprev c = (\<lambda>p. b_prev (bufs c p))"
definition fnext :: "cache \<Rightarrow> ptr \<Rightarrow> ptr" where "fnext c = (\<lambda>p. b_next_free (bufs c p))"
definition fprev :: "cache \<Rightarrow> ptr \<Rightarrow> ptr" where "fprev c = (\<lambda>p. b_prev_free (bufs c p))"

text \<open>A buffer head without its links: everything relinking must not touch.\<close>

definition core :: "buffer_head \<Rightarrow> buffer_head" where
  "core b = b\<lparr>b_prev := NULL, b_next := NULL, b_prev_free := NULL, b_next_free := NULL\<rparr>"

definition same_core :: "cache \<Rightarrow> cache \<Rightarrow> bool" where
  "same_core c d \<longleftrightarrow> (\<forall>p. core (bufs c p) = core (bufs d p)) \<and> bdata c = bdata d \<and> NR_BUFFERS c = NR_BUFFERS d"

lemma core_fields:
  assumes "core b = core b'"
  shows "b_data b = b_data b'" "b_blocknr b = b_blocknr b'" "b_dev b = b_dev b'"
    "b_uptodate b = b_uptodate b'" "b_dirt b = b_dirt b'" "b_count b = b_count b'"
    "b_lock b = b_lock b'" "b_wait b = b_wait b'"
  using assms by (cases b; cases b'; simp add: core_def)+

lemma core_upd [simp]:
  "core (b\<lparr>b_prev := x\<rparr>) = core b" "core (b\<lparr>b_next := x\<rparr>) = core b"
  "core (b\<lparr>b_prev_free := x\<rparr>) = core b" "core (b\<lparr>b_next_free := x\<rparr>) = core b"
  by (simp_all add: core_def)

lemma same_core_refl [simp]: "same_core c c"
  by (simp add: same_core_def)

lemma same_core_trans: "same_core c d \<Longrightarrow> same_core d e \<Longrightarrow> same_core c e"
  by (simp add: same_core_def)

lemma same_core_upd_buf: "(\<And>b. core (f b) = core b) \<Longrightarrow> same_core (upd_buf p f c) d = same_core c d"
  by (auto simp: same_core_def)

lemma same_core_fields:
  assumes "same_core c d"
  shows "b_dev (bufs c p) = b_dev (bufs d p)" "b_blocknr (bufs c p) = b_blocknr (bufs d p)"
    "b_count (bufs c p) = b_count (bufs d p)" "b_lock (bufs c p) = b_lock (bufs d p)"
    "b_dirt (bufs c p) = b_dirt (bufs d p)" "b_uptodate (bufs c p) = b_uptodate (bufs d p)"
    "buf_hash (bufs c p) = buf_hash (bufs d p)" "buf_key (bufs c p) = buf_key (bufs d p)"
    "buffers c = buffers d" "bdata c = bdata d" "NR_BUFFERS c = NR_BUFFERS d"
  using assms core_fields [of "bufs c p" "bufs d p"]
  by (auto simp: same_core_def buf_hash_def buf_key_def buffers_def)

named_theorems link_simps "link functions of updated caches"

lemma link_upd_buf [link_simps]:
  "hnext (upd_buf p f c) = (hnext c)(p := b_next (f (bufs c p)))"
  "hprev (upd_buf p f c) = (hprev c)(p := b_prev (f (bufs c p)))"
  "fnext (upd_buf p f c) = (fnext c)(p := b_next_free (f (bufs c p)))"
  "fprev (upd_buf p f c) = (fprev c)(p := b_prev_free (f (bufs c p)))"
  by (auto simp: hnext_def hprev_def fnext_def fprev_def)

lemma link_field_upd [link_simps]:
  "hnext (c\<lparr>hash_table := t\<rparr>) = hnext c" "hprev (c\<lparr>hash_table := t\<rparr>) = hprev c"
  "fnext (c\<lparr>hash_table := t\<rparr>) = fnext c" "fprev (c\<lparr>hash_table := t\<rparr>) = fprev c"
  "hnext (c\<lparr>free_list := l\<rparr>) = hnext c" "hprev (c\<lparr>free_list := l\<rparr>) = hprev c"
  "fnext (c\<lparr>free_list := l\<rparr>) = fnext c" "fprev (c\<lparr>free_list := l\<rparr>) = fprev c"
  "same_core (c\<lparr>hash_table := t\<rparr>) d = same_core c d" "same_core (c\<lparr>free_list := l\<rparr>) d = same_core c d"
  by (simp_all add: hnext_def hprev_def fnext_def fprev_def same_core_def)

lemma link_apply:
  "b_next (bufs c p) = hnext c p" "b_prev (bufs c p) = hprev c p"
  "b_next_free (bufs c p) = fnext c p" "b_prev_free (bufs c p) = fprev c p"
  by (simp_all add: hnext_def hprev_def fnext_def fprev_def)

lemma fun_upd_idle [simp]: "f(p := f p) = f" by simp

section \<open>What the four halves do to the links\<close>

lemma remove_from_hash_links:
  assumes "hnext c b \<noteq> b" "hprev c b \<noteq> b"
  defines "c' \<equiv> remove_from_hash b c"
  shows "hnext c' = unlink_N (hnext c) (hprev c) b"
    and "hprev c' = unlink_P (hnext c) (hprev c) b"
    and "fnext c' = fnext c" and "fprev c' = fprev c"
    and "same_core c' c" and "free_list c' = free_list c"
    and "hash_table c' = (let h = buf_hash (bufs c b) in
           (hash_table c)(h := if hash_table c h = b then hnext c b else hash_table c h))"
  using assms(1,2) unfolding c'_def remove_from_hash_def Let_def
  by (auto simp: link_simps same_core_upd_buf unlink_N_def unlink_P_def buf_hash_def link_apply
      fun_upd_def fun_eq_iff)

lemma remove_from_free_links:
  assumes "fnext c b \<noteq> NULL" "fprev c b \<noteq> NULL" "fnext c b = b \<longleftrightarrow> fprev c b = b"
  obtains c' where "remove_from_free b c = Inr c'"
    and "fnext c' = (fnext c)(fprev c b := fnext c b)"
    and "fprev c' = (fprev c)(fnext c b := fprev c b)"
    and "hnext c' = hnext c" and "hprev c' = hprev c"
    and "same_core c' c" and "hash_table c' = hash_table c"
    and "free_list c' = (if free_list c = b then fnext c b else free_list c)"
proof -
  obtain c' where c': "remove_from_free b c = Inr c'"
    using assms(1,2) by (auto simp: remove_from_free_def Let_def link_apply)
  note d = c' [unfolded remove_from_free_def Let_def, simplified link_apply]
  have 1: "fnext c' = (fnext c)(fprev c b := fnext c b)"
    "fprev c' = (fprev c)(fnext c b := fprev c b)"
    "free_list c' = (if free_list c = b then fnext c b else free_list c)"
    using d assms by (auto simp: link_simps link_apply split: if_splits)
  have 2: "hnext c' = hnext c" "hprev c' = hprev c" "hash_table c' = hash_table c" "same_core c' c"
    using d assms by (auto simp: link_simps same_core_upd_buf link_apply fun_eq_iff split: if_splits)
  show ?thesis by (rule that [OF c' 1(1,2) 2(1,2,4,3) 1(3)])
qed

lemma insert_into_free_links:
  fixes b c
  defines "c' \<equiv> insert_into_free b c"
  shows "fnext c' = (fnext c)(b := free_list c, fprev c (free_list c) := b)"
    and "fprev c' = (fprev c)(b := fprev c (free_list c), free_list c := b)"
    and "hnext c' = hnext c" and "hprev c' = hprev c"
    and "same_core c' c" and "hash_table c' = hash_table c" and "free_list c' = free_list c"
  unfolding c'_def insert_into_free_def Let_def
  by (auto simp: link_simps same_core_upd_buf link_apply fun_eq_iff)

lemma insert_into_hash_links:
  fixes b c
  defines "c' \<equiv> insert_into_hash b c" and "h \<equiv> buf_hash (bufs c b)"
  shows "b_dev (bufs c b) \<noteq> 0 \<Longrightarrow> hnext c' = (hnext c)(b := hash_table c h)"
    and "b_dev (bufs c b) \<noteq> 0 \<Longrightarrow> hprev c' = (hprev c)(b := NULL, hash_table c h := b)"
    and "b_dev (bufs c b) \<noteq> 0 \<Longrightarrow> hash_table c' = (hash_table c)(h := b)"
    and "fnext c' = fnext c" and "fprev c' = fprev c"
    and "same_core c' c" and "free_list c' = free_list c"
  unfolding c'_def h_def insert_into_hash_def Let_def
  by (auto simp: link_simps same_core_upd_buf link_apply fun_eq_iff buf_hash_def)

text \<open>A buffer without a device is put in no queue.\<close>

lemma insert_into_hash_none:
  fixes b c
  defines "c' \<equiv> insert_into_hash b c"
  assumes "b_dev (bufs c b) = 0"
  shows "hnext c' = (hnext c)(b := NULL)" "hprev c' = (hprev c)(b := NULL)" "hash_table c' = hash_table c"
  using assms(2) unfolding c'_def insert_into_hash_def Let_def
  by (auto simp: link_simps link_apply fun_eq_iff)

section \<open>The hash queues\<close>

definition hashed :: "cache \<Rightarrow> ptr \<Rightarrow> bool" where
  "hashed c p \<longleftrightarrow> p \<in> buffers c \<and> b_dev (bufs c p) \<noteq> 0"

text \<open>\<open>chains c B ch\<close>: the hash queues hold exactly the buffers of \<open>B\<close> that have a device.\<close>

definition chains :: "cache \<Rightarrow> ptr set \<Rightarrow> (nat \<Rightarrow> ptr list) \<Rightarrow> bool" where
  "chains c B ch \<longleftrightarrow> (\<forall>h < NR_HASH.
     dlist (hnext c) (hprev c) NULL (hash_table c h) (ch h) \<and> distinct (ch h) \<and>
     set (ch h) = {p \<in> B. b_dev (bufs c p) \<noteq> 0 \<and> buf_hash (bufs c p) = h})"

lemma chainsD:
  assumes "chains c B ch" "h < NR_HASH"
  shows "dlist (hnext c) (hprev c) NULL (hash_table c h) (ch h)" "distinct (ch h)"
    "set (ch h) = {p \<in> B. b_dev (bufs c p) \<noteq> 0 \<and> buf_hash (bufs c p) = h}"
  using assms by (auto simp: chains_def)

lemma chains_cong:
  assumes "hnext c = hnext d" "hprev c = hprev d" "hash_table c = hash_table d"
    "\<And>p. p \<in> B \<Longrightarrow> b_dev (bufs c p) = b_dev (bufs d p) \<and> b_blocknr (bufs c p) = b_blocknr (bufs d p)"
  shows "chains c B ch = chains d B ch"
proof -
  have "{p \<in> B. b_dev (bufs c p) \<noteq> 0 \<and> buf_hash (bufs c p) = h} =
        {p \<in> B. b_dev (bufs d p) \<noteq> 0 \<and> buf_hash (bufs d p) = h}" for h
    using assms(4) by (auto simp: buf_hash_def)
  then show ?thesis using assms(1-3) by (simp add: chains_def)
qed

definition null_links :: "cache \<Rightarrow> ptr \<Rightarrow> bool" where
  "null_links c p \<longleftrightarrow> (b_dev (bufs c p) = 0 \<longrightarrow> hnext c p = NULL \<and> hprev c p = NULL)"

lemma chains_b_neighbours:
  assumes ch: "chains c B ch" and b: "b \<in> B" "b \<noteq> NULL" and nl: "null_links c b"
  shows "hnext c b \<noteq> b \<and> hprev c b \<noteq> b"
proof (cases "b_dev (bufs c b) = 0")
  case True
  then show ?thesis using nl b by (auto simp: null_links_def)
next
  case False
  note d = chainsD [OF ch buf_hash_bound [of "bufs c b"]]
  have "b \<in> set (ch (buf_hash (bufs c b)))" using d(3) False b by auto
  then show ?thesis using dlist_neighbours [OF d(1,2)] by blast
qed

lemma chains_remove:
  assumes ch: "chains c B ch" and b: "b \<in> B" "b \<noteq> NULL" and nl: "null_links c b"
  shows "chains (remove_from_hash b c) (B - {b}) (\<lambda>h. remove1 b (ch h))"
proof -
  let ?c = "remove_from_hash b c" and ?k = "buf_hash (bufs c b)"
  have nb: "hnext c b \<noteq> b" "hprev c b \<noteq> b" using chains_b_neighbours [OF ch b nl] by auto
  note L = remove_from_hash_links [OF nb]
  note K = chainsD [OF ch buf_hash_bound [of "bufs c b"]]
  have "dlist (hnext ?c) (hprev ?c) NULL (hash_table ?c h) (remove1 b (ch h))"
    if h: "h < NR_HASH" for h
  proof (cases "b \<in> set (ch h)")
    case True
    note H = chainsD [OF ch h]
    have k: "h = ?k" using True H(3) by auto
    obtain as bs where s: "ch h = as @ b # bs" "b \<notin> set as"
      using split_list_first [OF True] by blast
    have "dlist (unlink_N (hnext c) (hprev c) b) (unlink_P (hnext c) (hprev c) b) NULL
            (if hash_table c h = b then hnext c b else hash_table c h) (as @ bs)"
      by (rule dlist_unlink) (use H s in auto)
    then show ?thesis using s k L by (auto simp: remove1_append Let_def)
  next
    case False
    note H = chainsD [OF ch h]
    have hh: "hash_table ?c h = hash_table c h"
    proof (cases "hash_table c h = b")
      case True
      then show ?thesis using H(1) False b by (cases "ch h") auto
    qed (auto simp: L(7) Let_def)
    have nn: "NULL \<notin> set (ch h)" using dlist_nonnull [OF H(1)] .
    have out: "hnext c b \<notin> set (ch h) \<and> hprev c b \<notin> set (ch h)"
    proof (cases "b_dev (bufs c b) = 0")
      case True
      then show ?thesis using nl nn by (auto simp: null_links_def)
    next
      case dev: False
      then have bk: "b \<in> set (ch ?k)" using K(3) b by auto
      then have "h \<noteq> ?k" using False by auto
      then have "set (ch h) \<inter> set (ch ?k) = {}" using H(3) K(3) by auto
      then show ?thesis using dlist_neighbours(1,2) [OF K(1,2) bk] nn by auto
    qed
    have "dlist (hnext ?c) (hprev ?c) NULL (hash_table c h) (ch h)
        = dlist (hnext c) (hprev c) NULL (hash_table c h) (ch h)"
      by (rule dlist_cong) (use out L(1,2) in \<open>auto simp: unlink_N_def unlink_P_def\<close>)
    then show ?thesis using H False hh by (simp add: remove1_idem)
  qed
  moreover have "set (remove1 b (ch h)) =
      {p \<in> B - {b}. b_dev (bufs ?c p) \<noteq> 0 \<and> buf_hash (bufs ?c p) = h}" if "h < NR_HASH" for h
    using chainsD(2,3) [OF ch that] same_core_fields [OF L(5)] by auto
  ultimately show ?thesis
    using chainsD(2) [OF ch] by (auto simp: chains_def)
qed

lemma chains_insert:
  assumes ch: "chains c B ch" and b: "b \<notin> B" "b \<noteq> NULL" and dev: "b_dev (bufs c b) \<noteq> 0"
  defines "k \<equiv> buf_hash (bufs c b)"
  shows "chains (insert_into_hash b c) (insert b B) (ch(k := b # ch k))"
proof -
  let ?c = "insert_into_hash b c"
  note L = insert_into_hash_links(1-3) [OF dev] insert_into_hash_links(6) [of b c]
  have k: "k < NR_HASH" by (simp add: k_def)
  note K = chainsD [OF ch k]
  have hd: "hash_table c k \<in> insert NULL (set (ch k))"
    using dlist_hd [OF K(1)] by auto
  have "dlist (hnext ?c) (hprev ?c) NULL (hash_table ?c h) ((ch(k := b # ch k)) h)"
    if h: "h < NR_HASH" for h
  proof (cases "h = k")
    case True
    have "dlist ((hnext c)(b := hash_table c k)) ((hprev c)(b := NULL, hash_table c k := b))
            NULL b (b # ch k)"
      by (rule dlist_push) (use K b in auto)
    then show ?thesis using True L by (simp add: k_def)
  next
    case False
    note H = chainsD [OF ch h]
    have nn: "NULL \<notin> set (ch h)" using dlist_nonnull [OF H(1)] .
    have "set (ch h) \<inter> set (ch k) = {}" using H(3) K(3) False by auto
    then have "hash_table c k \<notin> set (ch h)" using hd nn by auto
    moreover have "b \<notin> set (ch h)" using H(3) b by auto
    ultimately have "dlist (hnext ?c) (hprev ?c) NULL (hash_table c h) (ch h)
        = dlist (hnext c) (hprev c) NULL (hash_table c h) (ch h)"
      by (intro dlist_cong) (use L(1,2) in \<open>auto simp: k_def\<close>)
    then show ?thesis using H False L(3) by (simp add: k_def)
  qed
  moreover have "set ((ch(k := b # ch k)) h) =
      {p \<in> insert b B. b_dev (bufs ?c p) \<noteq> 0 \<and> buf_hash (bufs ?c p) = h}" if "h < NR_HASH" for h
    using chainsD(3) [OF ch that] same_core_fields [OF L(4)] dev by (auto simp: k_def)
  moreover have "distinct ((ch(k := b # ch k)) h)" if "h < NR_HASH" for h
    using chainsD(2,3) [OF ch that] b by auto
  ultimately show ?thesis by (simp add: chains_def)
qed

lemma null_links_remove:
  assumes ch: "chains c B ch" and b: "b \<in> B" "b \<noteq> NULL" and nl: "null_links c b"
    and p: "p \<noteq> NULL" "null_links c p"
  shows "null_links (remove_from_hash b c) p"
proof (cases "b_dev (bufs c p) = 0")
  case True
  have nb: "hnext c b \<noteq> b" "hprev c b \<noteq> b" using chains_b_neighbours [OF ch b nl] by auto
  note L = remove_from_hash_links [OF nb]
  have "hnext c b \<noteq> p \<and> hprev c b \<noteq> p"
  proof (cases "b_dev (bufs c b) = 0")
    case True
    then show ?thesis using nl p by (auto simp: null_links_def)
  next
    case False
    note K = chainsD [OF ch buf_hash_bound [of "bufs c b"]]
    have bk: "b \<in> set (ch (buf_hash (bufs c b)))" using K(3) False b by auto
    have "p \<notin> set (ch (buf_hash (bufs c b)))" using K(3) True by auto
    then show ?thesis using dlist_neighbours(1,2) [OF K(1,2) bk] p by auto
  qed
  then show ?thesis
    using p True L(1,2) by (auto simp: null_links_def unlink_N_def unlink_P_def)
next
  case False
  have nb: "hnext c b \<noteq> b" "hprev c b \<noteq> b" using chains_b_neighbours [OF ch b nl] by auto
  show ?thesis
    using False same_core_fields(1) [OF remove_from_hash_links(5) [OF nb]] by (simp add: null_links_def)
qed

lemma chains_insert_none:
  assumes ch: "chains c B ch" and b: "b \<notin> B" and dev: "b_dev (bufs c b) = 0"
  shows "chains (insert_into_hash b c) (insert b B) ch"
proof -
  let ?c = "insert_into_hash b c"
  note L = insert_into_hash_none [OF dev] insert_into_hash_links(6) [of b c]
  have "dlist (hnext ?c) (hprev ?c) NULL (hash_table ?c h) (ch h)" if h: "h < NR_HASH" for h
  proof -
    have "b \<notin> set (ch h)" using chainsD(3) [OF ch h] b by auto
    then show ?thesis using chainsD(1) [OF ch h] by (simp add: L dlist_upd)
  qed
  moreover have "set (ch h) = {p \<in> insert b B. b_dev (bufs ?c p) \<noteq> 0 \<and> buf_hash (bufs ?c p) = h}" if "h < NR_HASH" for h
    using chainsD(3) [OF ch that] same_core_fields [OF L(4)] dev by auto
  ultimately show ?thesis using chainsD(2) [OF ch] by (simp add: chains_def)
qed

lemma null_links_insert_none:
  assumes dev: "b_dev (bufs c b) = 0" and p: "p \<noteq> b \<Longrightarrow> null_links c p"
  shows "null_links (insert_into_hash b c) p"
  using p same_core_fields(1) [OF insert_into_hash_links(6) [of b c]] by (auto simp: null_links_def insert_into_hash_none [OF dev])

lemma null_links_insert:
  assumes ch: "chains c B ch" and b: "b \<noteq> NULL" and dev: "b_dev (bufs c b) \<noteq> 0"
    and p: "p \<noteq> NULL" "null_links c p"
  shows "null_links (insert_into_hash b c) p"
proof -
  note L = insert_into_hash_links(1-3) [OF dev] insert_into_hash_links(6) [of b c]
  note K = chainsD [OF ch buf_hash_bound [of "bufs c b"]]
  have head: "hash_table c (buf_hash (bufs c b)) \<noteq> p" if "b_dev (bufs c p) = 0"
  proof -
    have "p \<notin> set (ch (buf_hash (bufs c b)))" using K(3) that by simp
    then show ?thesis using K(1) p(1) by (cases "ch (buf_hash (bufs c b))") auto
  qed
  show ?thesis
  proof (cases "b_dev (bufs c p) = 0")
    case True
    then have "p \<noteq> b" using dev by auto
    then show ?thesis using p(2) L(1,2) head [OF True] True by (simp add: null_links_def)
  next
    case False
    then show ?thesis using same_core_fields(1) [OF L(4)] by (simp add: null_links_def)
  qed
qed

section \<open>The cache invariant\<close>

definition queues_ok :: "cache \<Rightarrow> ptr list \<Rightarrow> (nat \<Rightarrow> ptr list) \<Rightarrow> bool" where
  "queues_ok c l ch \<longleftrightarrow>
     ring (fnext c) (fprev c) l \<and> hd l = free_list c \<and> set l = buffers c \<and>
     chains c (buffers c) ch \<and> (\<forall>p \<in> buffers c. null_links c p) \<and>
     inj_on (\<lambda>p. buf_key (bufs c p)) {p. hashed c p}"

definition cache_inv :: "cache \<Rightarrow> bool" where
  "cache_inv c \<longleftrightarrow> (\<exists>l ch. queues_ok c l ch)"

lemma queues_okD:
  assumes "queues_ok c l ch"
  shows "ring (fnext c) (fprev c) l" "hd l = free_list c" "set l = buffers c"
    "chains c (buffers c) ch" "p \<in> buffers c \<Longrightarrow> null_links c p"
    "inj_on (\<lambda>p. buf_key (bufs c p)) {p. hashed c p}"
  using assms by (auto simp: queues_ok_def)

text \<open>The invariant only reads the links, the device and the block number of each buffer.\<close>

lemma queues_ok_cong:
  assumes "\<And>p. p \<in> insert NULL (buffers c) \<Longrightarrow>
      b_next (bufs c p) = b_next (bufs d p) \<and> b_prev (bufs c p) = b_prev (bufs d p) \<and>
      b_next_free (bufs c p) = b_next_free (bufs d p) \<and>
      b_prev_free (bufs c p) = b_prev_free (bufs d p) \<and>
      b_dev (bufs c p) = b_dev (bufs d p) \<and> b_blocknr (bufs c p) = b_blocknr (bufs d p)"
    and "hash_table c = hash_table d" "free_list c = free_list d" "NR_BUFFERS c = NR_BUFFERS d"
  shows "queues_ok c l ch \<Longrightarrow> queues_ok d l ch"
proof -
  assume q: "queues_ok c l ch"
  note Q = queues_okD [OF q]
  have B: "buffers d = buffers c" using assms(4) by (simp add: buffers_def)
  have eq: "hnext c p = hnext d p" "hprev c p = hprev d p" "fnext c p = fnext d p"
      "fprev c p = fprev d p" "b_dev (bufs c p) = b_dev (bufs d p)"
      "b_blocknr (bufs c p) = b_blocknr (bufs d p)" if "p \<in> buffers c" for p
    using assms(1) [of p] that by (auto simp: hnext_def hprev_def fnext_def fprev_def)
  have "ring (fnext d) (fprev d) l = ring (fnext c) (fprev c) l"
    by (rule ring_cong) (use eq Q(3) in auto)
  moreover have "chains d (buffers c) ch"
    unfolding chains_def
  proof (intro allI impI conjI)
    fix h assume h: "h < NR_HASH"
    note H = chainsD [OF Q(4) h]
    have "dlist (hnext d) (hprev d) NULL (hash_table c h) (ch h) = dlist (hnext c) (hprev c) NULL (hash_table c h) (ch h)"
      by (rule dlist_cong) (use eq H(3) in auto)
    then show "dlist (hnext d) (hprev d) NULL (hash_table d h) (ch h)" using H assms(2) by simp
    show "distinct (ch h)" by (rule H)
    show "set (ch h) = {p \<in> buffers c. b_dev (bufs d p) \<noteq> 0 \<and> buf_hash (bufs d p) = h}"
      using H(3) eq by (auto simp: buf_hash_def)
  qed
  moreover have "null_links d p" if "p \<in> buffers c" for p
    using Q(5) [OF that] eq [OF that] by (simp add: null_links_def)
  moreover have "{p. hashed d p} = {p. hashed c p}" using eq B by (auto simp: hashed_def)
  moreover have "inj_on (\<lambda>p. buf_key (bufs d p)) {p. hashed c p}"
    using Q(6) eq by (auto simp: inj_on_def hashed_def buf_key_def)
  ultimately show ?thesis using Q assms B by (simp add: queues_ok_def)
qed

subsection \<open>Claiming a buffer for a new block\<close>

lemma remove_from_queues_ok:
  assumes q: "queues_ok c l ch" and b: "b \<in> buffers c"
  obtains c' where "remove_from_queues b c = Inr c'" and "same_core c' c"
    and "chains c' (buffers c - {b}) (\<lambda>h. remove1 b (ch h))"
    and "\<And>p. p \<in> buffers c \<Longrightarrow> null_links c' p"
    and "(if remove1 b l = [] then free_list c' = b \<and> fprev c' b = b
          else ring (fnext c') (fprev c') (remove1 b l) \<and> free_list c' = hd (remove1 b l))"
proof -
  note Q = queues_okD [OF q]
  have b0: "b \<noteq> NULL" using b by (auto simp: buffers_def)
  have nb: "hnext c b \<noteq> b" "hprev c b \<noteq> b"
    using chains_b_neighbours [OF Q(4) b b0 Q(5) [OF b]] by auto
  note L = remove_from_hash_links [OF nb]
  let ?c = "remove_from_hash b c"
  have bl: "b \<in> set l" using Q(3) b by simp
  have r: "ring (fnext ?c) (fprev ?c) l" using Q(1) L(3,4) by simp
  then have nz: "fnext ?c b \<noteq> NULL" "fprev ?c b \<noteq> NULL"
    using ring_next_in [OF r bl] Q(3) by (auto simp: buffers_def)
  obtain as bs where l: "l = as @ b # bs" "b \<notin> set as" using split_list_first [OF bl] by blast
  have dl: "distinct l" using r by (simp add: ring_def)
  have rm: "remove1 b l = as @ bs" using l by (simp add: remove1_append)
  have one: "fnext ?c b = b \<and> fprev ?c b = b" if "as @ bs = []"
    using r that l by (simp add: ring_iff)
  have two: "fnext ?c b \<noteq> b \<and> fprev ?c b \<noteq> b \<and> (free_list c = b \<longrightarrow> fnext ?c b = hd (as @ bs))"
    if "as @ bs \<noteq> []"
  proof (cases as)
    case Nil
    then show ?thesis using r that l dl links_join [of "[b]" bs] by (auto simp: ring_iff)
  next
    case (Cons a as')
    have "links (fnext ?c) (fprev ?c) (as @ b # (bs @ [hd l]))" using r l by (simp add: ring_def)
    then have "fprev ?c b = last as" "fnext ?c b = hd (bs @ [hd l])"
      using links_join [of as "b # (bs @ [hd l])" "fnext ?c" "fprev ?c"]
        links_join [of "[b]" "bs @ [hd l]" "fnext ?c" "fprev ?c"] Cons by auto
    moreover have "free_list c \<noteq> b" using Q(2) l Cons by auto
    ultimately show ?thesis using l dl Cons by (cases bs) (auto split: if_splits)
  qed
  have iff: "fnext ?c b = b \<longleftrightarrow> fprev ?c b = b" using one two by blast
  obtain c' where c': "remove_from_free b ?c = Inr c'"
    "fnext c' = (fnext ?c)(fprev ?c b := fnext ?c b)"
    "fprev c' = (fprev ?c)(fnext ?c b := fprev ?c b)"
    "hnext c' = hnext ?c" "hprev c' = hprev ?c"
    "same_core c' ?c" "hash_table c' = hash_table ?c"
    "free_list c' = (if free_list ?c = b then fnext ?c b else free_list ?c)"
    by (rule remove_from_free_links [OF nz iff])
  have sc: "same_core c' c" using c'(6) L(5) by (rule same_core_trans)
  show ?thesis
  proof (rule that [OF _ sc])
    show "remove_from_queues b c = Inr c'" using c'(1) by (simp add: remove_from_queues_def)
    have "chains ?c (buffers c - {b}) (\<lambda>h. remove1 b (ch h))"
      using chains_remove [OF Q(4) b b0 Q(5) [OF b]] .
    then show "chains c' (buffers c - {b}) (\<lambda>h. remove1 b (ch h))"
      by (rule chains_cong [THEN iffD1, rotated -1]) (use c' same_core_fields [OF c'(6)] in auto)
    show "null_links c' p" if p: "p \<in> buffers c" for p
    proof -
      have p0: "p \<noteq> NULL" using p by (auto simp: buffers_def)
      have "null_links ?c p"
        by (rule null_links_remove [OF Q(4) b b0 Q(5) [OF b] p0 Q(5) [OF p]])
      then show ?thesis using c' same_core_fields(1) [OF c'(6)] by (simp add: null_links_def)
    qed
    show "if remove1 b l = [] then free_list c' = b \<and> fprev c' b = b
          else ring (fnext c') (fprev c') (remove1 b l) \<and> free_list c' = hd (remove1 b l)"
    proof (cases "as @ bs = []")
      case True
      then show ?thesis using rm one c' Q(2) L(6) l by auto
    next
      case False
      have "ring (fnext c') (fprev c') (as @ bs)"
        using ring_unlink [OF r [unfolded l(1)] False] c'(2,3) by simp
      moreover have "free_list c' = hd (as @ bs)"
        using two [OF False] c'(8) L(6) Q(2) l by (cases as) auto
      ultimately show ?thesis using False rm by (simp only: if_False)
    qed
  qed
qed

lemma queues_ok_upd_core:
  assumes q: "queues_ok c l ch" and f: "\<And>b. b_next (f b) = b_next b \<and> b_prev (f b) = b_prev b \<and>
      b_next_free (f b) = b_next_free b \<and> b_prev_free (f b) = b_prev_free b \<and>
      b_dev (f b) = b_dev b \<and> b_blocknr (f b) = b_blocknr b"
  shows "queues_ok (upd_buf p f c) l ch"
  by (rule queues_ok_cong [OF _ _ _ _ q]) (use f in auto)

lemma insert_into_queues_ok:
  assumes ch: "chains c (buffers c - {b}) ch"
    and nl: "\<And>p. p \<in> buffers c \<Longrightarrow> p \<noteq> b \<Longrightarrow> null_links c p"
    and fr: "if m = [] then free_list c = b \<and> fprev c b = b
             else ring (fnext c) (fprev c) m \<and> free_list c = hd m"
    and m: "set m = buffers c - {b}" and b: "b \<in> buffers c"
    and inj: "inj_on (\<lambda>p. buf_key (bufs c p)) {p. hashed c p}"
  defines "k \<equiv> buf_hash (bufs c b)"
  defines "ch' \<equiv> if b_dev (bufs c b) = 0 then ch else ch(k := b # ch k)"
  shows "queues_ok (insert_into_queues b c) (m @ [b]) ch'"
    and "same_core (insert_into_queues b c) c"
proof -
  have b0: "b \<noteq> NULL" using b by (auto simp: buffers_def)
  let ?d = "insert_into_free b c"
  note F = insert_into_free_links [where b = b and c = c]
  note FC = same_core_fields [OF F(5)]
  note H = insert_into_hash_links [where b = b and c = ?d]
  note HC = same_core_fields [OF H(6)]
  let ?e = "insert_into_queues b c"
  have e: "?e = insert_into_hash b ?d" by (simp add: insert_into_queues_def)
  show sc: "same_core ?e c" unfolding e using H(6) F(5) by (rule same_core_trans)
  note SC = same_core_fields [OF sc]
  have fle: "free_list ?e = free_list c" by (simp add: e H F)
  have r: "ring (fnext ?e) (fprev ?e) (m @ [b]) \<and> hd (m @ [b]) = free_list ?e"
  proof (cases "m = []")
    case True
    then have "fnext ?e b = b" "fprev ?e b = b" "free_list c = b" using fr by (simp_all add: e H F)
    then show ?thesis using True fle by (simp add: ring_iff)
  next
    case False
    then have rm: "ring (fnext c) (fprev c) m" and hd: "free_list c = hd m" using fr by auto
    have "ring ((fnext c)(b := hd m, last m := b)) ((fprev c)(b := last m, hd m := b)) (m @ [b])"
      by (rule ring_append [OF rm]) (simp add: m)
    moreover have "fprev c (hd m) = last m" by (rule ring_prev_hd [OF rm])
    ultimately have "ring (fnext ?e) (fprev ?e) (m @ [b])" by (simp add: e H F hd)
    then show ?thesis using False hd fle by simp
  qed
  have ch1: "chains ?d (buffers c - {b}) ch"
    using ch by (rule chains_cong [THEN iffD1, rotated -1]) (simp_all add: F FC)
  have kd: "buf_hash (bufs ?d b) = k" by (simp add: k_def FC)
  have dev: "b_dev (bufs ?d b) = b_dev (bufs c b)" by (simp add: FC)
  have "chains ?e (insert b (buffers c - {b})) ch'"
    using chains_insert [OF ch1 _ b0] chains_insert_none [OF ch1, of b] dev by (simp add: e kd ch'_def)
  then have ch2: "chains ?e (buffers ?e) ch'"
    using b SC(9) by (simp add: insert_absorb)
  have nl2: "null_links ?e p" if p: "p \<in> buffers ?e" for p
  proof -
    have nd: "null_links ?d p" if "p \<noteq> b"
      using nl [of p] p that by (simp add: SC null_links_def F FC)
    show ?thesis
    proof (cases "b_dev (bufs c b) = 0")
      case True
      then show ?thesis using null_links_insert_none [of ?d b p] nd dev by (simp add: e)
    next
      case False
      show ?thesis
      proof (cases "p = b")
        case True
        then show ?thesis using False SC(1) by (simp add: null_links_def)
      next
        case pb: False
        then show ?thesis unfolding e using null_links_insert [OF ch1 b0] False dev nd p by (auto simp: buffers_def)
      qed
    qed
  qed
  have "inj_on (\<lambda>p. buf_key (bufs ?e p)) {p. hashed ?e p}"
    using inj by (simp add: hashed_def SC)
  then show "queues_ok ?e (m @ [b]) ch'"
    using r ch2 nl2 m b by (auto simp: queues_ok_def SC)
qed

text \<open>The effect of \<open>reuse_buff\<close> on everything but the links.\<close>

definition reused :: "u32 \<Rightarrow> u32 \<Rightarrow> buffer_head \<Rightarrow> buffer_head" where
  "reused dev block b = b\<lparr>b_count := 1, b_dirt := 0, b_uptodate := 0, b_dev := ucast dev, b_blocknr := block\<rparr>"

lemma reuse_buff_ok:
  assumes q: "queues_ok c l ch" and b: "b \<in> buffers c"
    and dev: "unat dev < 65536"
    and new: "\<And>p. hashed c p \<Longrightarrow> buf_key (bufs c p) \<noteq> (dev, block)"
  obtains c' ch' where "reuse_buff b dev block c = Inr c'"
    and "queues_ok c' (remove1 b l @ [b]) ch'"
    and "same_core c' (upd_buf b (reused dev block) c)"
proof -
  define c1 where "c1 = upd_buf b (\<lambda>b. b\<lparr>b_count := 1, b_dirt := 0, b_uptodate := 0\<rparr>) c"
  have q1: "queues_ok c1 l ch" unfolding c1_def by (rule queues_ok_upd_core [OF q]) simp
  have b1: "b \<in> buffers c1" using b by (simp add: c1_def)
  obtain c2 where c2: "remove_from_queues b c1 = Inr c2" "same_core c2 c1"
    "chains c2 (buffers c1 - {b}) (\<lambda>h. remove1 b (ch h))"
    "\<And>p. p \<in> buffers c1 \<Longrightarrow> null_links c2 p"
    "if remove1 b l = [] then free_list c2 = b \<and> fprev c2 b = b
     else ring (fnext c2) (fprev c2) (remove1 b l) \<and> free_list c2 = hd (remove1 b l)"
    using remove_from_queues_ok [OF q1 b1] by metis
  define c3 where "c3 = upd_buf b (\<lambda>b. b\<lparr>b_dev := ucast dev, b_blocknr := block\<rparr>) c2"
  note S = same_core_fields [OF c2(2)]
  have B: "buffers c3 = buffers c" "buffers c1 = buffers c" by (simp_all add: c3_def S c1_def)
  have links3: "hnext c3 = hnext c2" "hprev c3 = hprev c2" "fnext c3 = fnext c2" "fprev c3 = fprev c2"
    "hash_table c3 = hash_table c2" "free_list c3 = free_list c2"
    by (auto simp: c3_def link_simps link_apply)
  have cast: "(ucast (ucast dev :: u16) :: u32) = dev" by (rule ucast_u16_u32 [OF dev])
  have other: "b_dev (bufs c3 p) = b_dev (bufs c p)" "b_blocknr (bufs c3 p) = b_blocknr (bufs c p)"
    if "p \<noteq> b" for p
    using that S(1,2) [of p] by (simp_all add: c3_def c1_def)
  have self: "b_dev (bufs c3 b) = ucast dev" "b_blocknr (bufs c3 b) = block"
    by (simp_all add: c3_def)
  have key: "buf_key (bufs c3 p) = (if p = b then (dev, block) else buf_key (bufs c p))" for p
    using other [of p] self cast by (simp add: buf_key_def)
  have ch3: "chains c3 (buffers c3 - {b}) (\<lambda>h. remove1 b (ch h))"
    using c2(3) unfolding B
    by (rule chains_cong [THEN iffD1, rotated -1]) (simp add: links3, simp add: links3, simp_all add: c3_def)
  have nl3: "null_links c3 p" if "p \<in> buffers c3" "p \<noteq> b" for p
    using c2(4) [of p] that other(1) by (simp add: null_links_def links3 B) (simp add: c3_def)
  have fr3: "if remove1 b l = [] then free_list c3 = b \<and> fprev c3 b = b
      else ring (fnext c3) (fprev c3) (remove1 b l) \<and> free_list c3 = hd (remove1 b l)"
    using c2(5) by (simp add: links3)
  have "distinct l" using queues_okD(1) [OF q] by (simp add: ring_def)
  then have m3: "set (remove1 b l) = buffers c3 - {b}" using queues_okD(3) [OF q] by (simp add: B)
  have inj3: "inj_on (\<lambda>p. buf_key (bufs c3 p)) {p. hashed c3 p}"
  proof (rule inj_onI)
    fix x y assume xy: "x \<in> {p. hashed c3 p}" "y \<in> {p. hashed c3 p}"
      and eq: "buf_key (bufs c3 x) = buf_key (bufs c3 y)"
    have h: "hashed c p" if "hashed c3 p" "p \<noteq> b" for p
      using that other(1) by (simp add: hashed_def B)
    show "x = y"
      using xy eq new h queues_okD(6) [OF q] unfolding key inj_on_def
      by (auto split: if_splits)
  qed
  note I = insert_into_queues_ok [OF ch3 nl3 fr3 m3 _ inj3]
  obtain ch' where q4: "queues_ok (insert_into_queues b c3) (remove1 b l @ [b]) ch'"
    using I(1) b by (simp add: B)
  have sc3: "same_core c3 (upd_buf b (reused dev block) c)"
    unfolding same_core_def
  proof (intro conjI allI)
    fix p
    have "core (bufs c3 p) = core (if p = b then (bufs c2 b)\<lparr>b_dev := ucast dev, b_blocknr := block\<rparr> else bufs c2 p)"
      by (simp add: c3_def)
    moreover have "core (bufs c2 p) = core (bufs c1 p)" using c2(2) by (simp add: same_core_def)
    ultimately show "core (bufs c3 p) = core (bufs (upd_buf b (reused dev block) c) p)"
      by (cases "bufs c2 p"; cases "bufs c p") (auto simp: core_def c1_def reused_def)
  qed (simp_all add: c3_def S c1_def)
  have "same_core (insert_into_queues b c3) c3" using I(2) b by (simp add: B)
  then have sc4: "same_core (insert_into_queues b c3) (upd_buf b (reused dev block) c)"
    using sc3 by (rule same_core_trans)
  have "reuse_buff b dev block c = Inr (insert_into_queues b c3)"
    using c2(1) by (simp add: reuse_buff_def Let_def c1_def c3_def)
  then show ?thesis using q4 sc4 by (rule that)
qed

end
