(* ===== verification/Cache_Spec.thy ===== *)
theory Cache_Spec
  imports Cache_Inv
begin

text \<open>
  What the cache promises its users: lookups are those of a finite map from blocks to buffers,
  claiming a buffer updates that map and moves the buffer to the end of the free order, the buffer
  chosen for reuse is the least recently used one among the cheapest, and initialisation
  establishes the invariant on a sane memory layout.
\<close>

section \<open>The cache as a map from blocks to buffers\<close>

definition cmap :: "cache \<Rightarrow> u32 \<times> u32 \<Rightarrow> ptr option" where
  "cmap c k = List.find (\<lambda>p. b_dev (bufs c p) \<noteq> 0 \<and> buf_key (bufs c p) = k) [1..<Suc (NR_BUFFERS c)]"

definition or_null :: "ptr option \<Rightarrow> ptr" where
  "or_null r = (case r of None \<Rightarrow> NULL | Some p \<Rightarrow> p)"

lemma or_null_simps [simp]: "or_null None = NULL" "or_null (Some p) = p"
  by (simp_all add: or_null_def)

lemma find_unique:
  assumes "p \<in> set xs" "Q p" "\<And>q. q \<in> set xs \<Longrightarrow> Q q \<Longrightarrow> q = p"
  shows "List.find Q xs = Some p"
proof (cases "List.find Q xs")
  case None
  then show ?thesis using assms(1,2) by (auto simp: find_None_iff)
next
  case (Some r)
  then obtain i where "i < length xs" "xs ! i = r" "Q r" by (auto simp: find_Some_iff)
  then show ?thesis using assms(3) [of r] Some by (auto simp: in_set_conv_nth)
qed

lemma cmap_None: "cmap c k = None \<longleftrightarrow> (\<forall>p. hashed c p \<longrightarrow> buf_key (bufs c p) \<noteq> k)"
  by (auto simp: cmap_def find_None_iff hashed_def buffers_def)

lemma cmap_SomeD: "cmap c k = Some p \<Longrightarrow> hashed c p \<and> buf_key (bufs c p) = k"
  by (auto simp: cmap_def find_Some_iff hashed_def buffers_def simp del: upt_Suc)

lemma cmap_SomeI:
  assumes "inj_on (\<lambda>p. buf_key (bufs c p)) {p. hashed c p}" "hashed c p" "buf_key (bufs c p) = k"
  shows "cmap c k = Some p"
  unfolding cmap_def
  by (rule find_unique)
    (use assms in \<open>auto simp: hashed_def buffers_def inj_on_def simp del: upt_Suc\<close>)

lemma cmap_cong:
  "same_core c d \<Longrightarrow> cmap c k = cmap d k"
  unfolding cmap_def using same_core_fields(1,8,11) [of c d] by simp

section \<open>\<open>find_buff\<close> is the map's lookup\<close>

lemma find_chain_dlist:
  "dlist (hnext c) P q p xs \<Longrightarrow> length xs < n \<Longrightarrow>
    find_chain c n p dev block = Inr (or_null (List.find (\<lambda>x. buf_key (bufs c x) = (dev, block)) xs))"
proof (induction xs arbitrary: n p q)
  case Nil
  then show ?case by (cases n) auto
next
  case (Cons x xs)
  then obtain m where n: "n = Suc m" by (cases n) auto
  have "find_chain c m (hnext c x) dev block
      = Inr (or_null (List.find (\<lambda>x. buf_key (bufs c x) = (dev, block)) xs))"
    using Cons.IH [of x "hnext c x" m] Cons.prems n by simp
  then show ?case using Cons.prems n by (auto simp: buf_key_def link_apply)
qed

lemma chain_length:
  assumes "chains c (buffers c) ch" "h < NR_HASH"
  shows "length (ch h) \<le> NR_BUFFERS c"
proof -
  have "set (ch h) \<subseteq> buffers c" using chainsD(3) [OF assms] by auto
  then have "card (set (ch h)) \<le> card (buffers c)" by (rule card_mono [rotated]) (simp add: buffers_def)
  then show ?thesis using chainsD(2) [OF assms] by (simp add: distinct_card buffers_def)
qed

lemma find_buff_cmap:
  assumes q: "queues_ok c l ch"
  shows "find_buff dev block c = Inr (or_null (cmap c (dev, block)))"
proof -
  note Q = queues_okD [OF q]
  let ?h = "hashfn dev block" and ?Q = "\<lambda>x. buf_key (bufs c x) = (dev, block)"
  note H = chainsD [OF Q(4) hashfn_bound [of dev block]]
  have "List.find ?Q (ch ?h) = cmap c (dev, block)"
  proof (cases "cmap c (dev, block)")
    case None
    then have "\<forall>p \<in> set (ch ?h). \<not> ?Q p"
      using H(3) by (auto simp: cmap_None hashed_def)
    then show ?thesis using None by (auto simp: find_None_iff)
  next
    case (Some p)
    then have p: "hashed c p" "?Q p" using cmap_SomeD by blast+
    have "buf_hash (bufs c p) = ?h" using p(2) by (simp add: buf_hash_key)
    then have "p \<in> set (ch ?h)" using H(3) p(1) by (simp add: hashed_def)
    moreover have "r = p" if "r \<in> set (ch ?h)" "?Q r" for r
    proof -
      have "r \<in> {p. hashed c p}" using that(1) H(3) by (simp add: hashed_def)
      then show ?thesis using inj_onD [OF Q(6), of r p] p that(2) by simp
    qed
    ultimately have "List.find ?Q (ch ?h) = Some p" using p(2) by (intro find_unique) blast+
    then show ?thesis using Some by simp
  qed
  moreover have "length (ch ?h) < Suc (NR_BUFFERS c)"
    using chain_length [OF Q(4) hashfn_bound [of dev block]] by simp
  ultimately show ?thesis
    unfolding find_buff_def using find_chain_dlist [OF H(1)] by (simp del: find_chain.simps)
qed

section \<open>The index interface\<close>

text \<open>
  The contract between the block index and its clients. \<open>pmap\<close> is the abstract map, \<open>order\<close> the
  reuse order; \<open>rekey p k\<close> gives slot \<open>p\<close> the key \<open>k\<close>.
\<close>

locale block_index =
  fixes lookup :: "'k \<Rightarrow> 's \<Rightarrow> ptr kres"
    and rekey :: "ptr \<Rightarrow> 'k \<Rightarrow> 's \<Rightarrow> 's kres"
    and pmap :: "'s \<Rightarrow> 'k \<Rightarrow> ptr option"
    and slots :: "'s \<Rightarrow> ptr set"
    and good :: "'k \<Rightarrow> bool"
    and invar :: "'s \<Rightarrow> bool"
  assumes lookup: "invar s \<Longrightarrow> lookup k s = Inr (or_null (pmap s k))"
    and slots: "invar s \<Longrightarrow> pmap s k = Some p \<Longrightarrow> p \<in> slots s \<and> p \<noteq> NULL"
    and rekey: "invar s \<Longrightarrow> p \<in> slots s \<Longrightarrow> good k \<Longrightarrow> pmap s k = None \<Longrightarrow>
      \<exists>s'. rekey p k s = Inr s' \<and> invar s' \<and> slots s' = slots s \<and>
           pmap s' k = Some p \<and> (\<forall>k'. k' \<noteq> k \<longrightarrow> pmap s' k' = (if pmap s k' = Some p then None else pmap s k'))"
begin

lemma lookup_rekeyed:
  assumes "invar s" "p \<in> slots s" "good k" "lookup k s = Inr NULL"
  shows "\<exists>s'. rekey p k s = Inr s' \<and> invar s' \<and> lookup k s' = Inr p"
proof -
  have "pmap s k = None"
    using assms(1,4) lookup [OF assms(1), of k] slots [OF assms(1), of k] by (cases "pmap s k") auto
  then obtain s' where "rekey p k s = Inr s'" "invar s'" "pmap s' k = Some p"
    using rekey assms by blast
  then show ?thesis using lookup by auto
qed

lemma lookup_other:
  assumes "invar s" "p \<in> slots s" "good k" "lookup k s = Inr NULL" "rekey p k s = Inr s'" "k' \<noteq> k"
  shows "lookup k' s' = (if lookup k' s = Inr p then Inr NULL else lookup k' s)"
proof -
  have "pmap s k = None"
    using assms(1,4) lookup [OF assms(1), of k] slots [OF assms(1), of k] by (cases "pmap s k") auto
  then obtain s'' where r: "rekey p k s = Inr s''" "invar s''"
    "pmap s'' k' = (if pmap s k' = Some p then None else pmap s k')"
    using rekey assms by blast
  then have "s'' = s'" using assms(5) by simp
  then show ?thesis
    using r lookup assms(1) slots [OF assms(1), of k'] slots [OF assms(1), of k']
    by (cases "pmap s k'") auto
qed

text \<open>A slot never answers for two keys.\<close>

lemma lookup_inj_rekeyed:
  assumes "invar s" "p \<in> slots s" "p \<noteq> NULL" "good k" "lookup k s = Inr NULL" "rekey p k s = Inr s'"
    "lookup k' s' = Inr p"
  shows "k' = k"
proof (rule ccontr)
  assume "k' \<noteq> k"
  then have "lookup k' s' = (if lookup k' s = Inr p then Inr NULL else lookup k' s)"
    using lookup_other assms by blast
  then show False using assms by (auto split: if_splits)
qed

end

lemma cmap_reused:
  assumes q: "queues_ok c l ch" and q': "queues_ok c' l' ch'" and b: "b \<in> buffers c"
    and dev: "dev \<noteq> 0" "unat dev < 65536"
    and sc: "same_core c' (upd_buf b (reused dev block) c)"
  shows "cmap c' (dev, block) = Some b"
    and "k \<noteq> (dev, block) \<Longrightarrow> cmap c' k = (if cmap c k = Some b then None else cmap c k)"
proof -
  let ?d = "upd_buf b (reused dev block) c"
  note S = same_core_fields [OF sc]
  have kb: "buf_key (bufs c' b) = (dev, block)" "b_dev (bufs c' b) \<noteq> 0"
    using dev by (simp_all add: S reused_def buf_key_def ucast_u16_u32 ucast_u16_zero_iff)
  have ko: "buf_key (bufs c' p) = buf_key (bufs c p)" "b_dev (bufs c' p) = b_dev (bufs c p)"
    if "p \<noteq> b" for p
    using that S(1,8) [of p] by (simp_all add: buf_key_def S)
  have B: "buffers c' = buffers c" by (simp add: S)
  have hb: "hashed c' b" using kb b B by (simp add: hashed_def)
  have ho: "hashed c' p = hashed c p" if "p \<noteq> b" for p using ko [OF that] B by (simp add: hashed_def)
  note inj = queues_okD(6) [OF q] and inj' = queues_okD(6) [OF q']
  show "cmap c' (dev, block) = Some b" by (rule cmap_SomeI [OF inj' hb kb(1)])
  assume k: "k \<noteq> (dev, block)"
  show "cmap c' k = (if cmap c k = Some b then None else cmap c k)"
  proof (cases "cmap c k")
    case None
    then have "cmap c' k = None" using k kb ko ho by (metis cmap_None)
    then show ?thesis using None by simp
  next
    case (Some p)
    then have p: "hashed c p" "buf_key (bufs c p) = k" by (auto dest: cmap_SomeD)
    show ?thesis
    proof (cases "p = b")
      case True
      have "buf_key (bufs c' r) \<noteq> k" if "hashed c' r" for r
      proof (cases "r = b")
        case False
        then have "hashed c r" using ho that by simp
        then show ?thesis using False ko inj p True by (auto simp: inj_on_def)
      qed (use kb k in auto)
      then show ?thesis using True Some by (simp add: cmap_None)
    next
      case False
      then have "cmap c' k = Some p" using cmap_SomeI [OF inj'] ho ko p by simp
      then show ?thesis using Some False by simp
    qed
  qed
qed

interpretation bx: block_index
  "\<lambda>(dev, block). find_buff dev block" "\<lambda>p (dev, block). reuse_buff p dev block" cmap buffers
  "\<lambda>(dev, block). dev \<noteq> 0 \<and> unat dev < 65536" cache_inv
proof (unfold_locales, goal_cases)
  case (1 s k)
  then show ?case by (cases k) (auto simp: cache_inv_def find_buff_cmap)
next
  case (2 s k p)
  then show ?case by (auto dest!: cmap_SomeD simp: hashed_def buffers_def)
next
  case (3 s p k)
  obtain dev block where k: "k = (dev, block)" by (cases k)
  obtain l ch where q: "queues_ok s l ch" using 3 by (auto simp: cache_inv_def)
  have new: "\<And>p. hashed s p \<Longrightarrow> buf_key (bufs s p) \<noteq> (dev, block)"
    using 3 by (simp add: k cmap_None)
  have dev: "dev \<noteq> 0" "unat dev < 65536" using 3 by (simp_all add: k)
  obtain s' ch' where r: "reuse_buff p dev block s = Inr s'"
    "queues_ok s' (remove1 p l @ [p]) ch'" "same_core s' (upd_buf p (reused dev block) s)"
    using reuse_buff_ok [OF q 3(2) dev(2) new] by blast
  have "buffers s' = buffers s" using same_core_fields(9) [OF r(3)] by simp
  then show ?case
    using r cmap_reused [OF q r(2) 3(2) dev r(3)] by (auto simp: k cache_inv_def)
qed

section \<open>The buffer chosen for reuse\<close>

text \<open>The loop of \<open>new_buff\<close> over the free ring, as a walk along the list that the ring represents.\<close>

fun pick :: "cache \<Rightarrow> ptr \<Rightarrow> ptr list \<Rightarrow> ptr" where
  "pick c bh [] = bh"
| "pick c bh (x # xs) =
     (let t = (b_count (bufs c x) = 0 \<and> (bh = NULL \<or> badness (bufs c x) < badness (bufs c bh)))
      in if t \<and> badness (bufs c x) = 0 then x else pick c (if t then x else bh) xs)"

lemma scan_free_pick:
  assumes "ring (fnext c) (fprev c) l" "hd l = free_list c"
  shows "l = as @ x # xs \<Longrightarrow> length xs < n \<Longrightarrow> scan_free c n x bh = Inr (pick c bh (x # xs))"
proof (induction xs arbitrary: as x n bh)
  case Nil
  then obtain m where n: "n = Suc m" by (cases n) auto
  have "fnext c x = free_list c" using ring_next_last [OF assms(1)] Nil assms(2) by simp
  then show ?case by (simp add: n Let_def link_apply)
next
  case (Cons y ys)
  then obtain m where n: "n = Suc m" by (cases n) auto
  have "links (fnext c) (fprev c) (as @ x # y # ys @ [hd l])"
    using assms(1) Cons.prems(1) by (simp add: ring_def)
  then have "links (fnext c) (fprev c) (x # y # ys @ [hd l])"
    using links_append [of _ _ as x "y # ys @ [hd l]"] by blast
  then have nx: "fnext c x = y" by simp
  have ny: "y \<noteq> free_list c"
    using assms Cons.prems(1) by (cases as) (auto simp: ring_def)
  have IH: "scan_free c m y bh' = Inr (pick c bh' (y # ys))" for bh'
    using Cons.IH [of "as @ [x]" y m bh'] Cons.prems n by simp
  show ?case
    using nx ny IH by (simp add: n Let_def link_apply del: pick.simps(2))
      (simp add: Let_def)
qed

definition is_best :: "cache \<Rightarrow> ptr list \<Rightarrow> ptr \<Rightarrow> bool" where
  "is_best c l p \<longleftrightarrow>
     (if p = NULL then \<forall>x \<in> set l. b_count (bufs c x) \<noteq> 0
      else \<exists>as bs. l = as @ p # bs \<and> b_count (bufs c p) = 0 \<and>
        (\<forall>x \<in> set as. b_count (bufs c x) = 0 \<longrightarrow> badness (bufs c p) < badness (bufs c x)) \<and>
        (\<forall>x \<in> set bs. b_count (bufs c x) = 0 \<longrightarrow> badness (bufs c p) \<le> badness (bufs c x)))"

lemma is_best_keep:
  assumes "is_best c l bh"
    and "\<not> (b_count (bufs c x) = 0 \<and> (bh = NULL \<or> badness (bufs c x) < badness (bufs c bh)))"
  shows "is_best c (l @ [x]) bh"
proof (cases "bh = NULL")
  case True
  then show ?thesis using assms by (simp add: is_best_def)
next
  case False
  then obtain as bs where "l = as @ bh # bs" "b_count (bufs c bh) = 0"
    "\<forall>x \<in> set as. b_count (bufs c x) = 0 \<longrightarrow> badness (bufs c bh) < badness (bufs c x)"
    "\<forall>x \<in> set bs. b_count (bufs c x) = 0 \<longrightarrow> badness (bufs c bh) \<le> badness (bufs c x)"
    using assms(1) by (auto simp: is_best_def)
  then have "l @ [x] = as @ bh # (bs @ [x]) \<and>
     (\<forall>y \<in> set (bs @ [x]). b_count (bufs c y) = 0 \<longrightarrow> badness (bufs c bh) \<le> badness (bufs c y))"
    using assms(2) False by auto
  then show ?thesis
    unfolding is_best_def using False \<open>b_count (bufs c bh) = 0\<close>
      \<open>\<forall>x \<in> set as. b_count (bufs c x) = 0 \<longrightarrow> badness (bufs c bh) < badness (bufs c x)\<close>
    by (simp only: if_False) blast
qed

lemma is_best_take:
  assumes "is_best c l bh" "x \<noteq> NULL" "b_count (bufs c x) = 0"
    and "bh = NULL \<or> badness (bufs c x) < badness (bufs c bh)"
  shows "\<forall>y \<in> set l. b_count (bufs c y) = 0 \<longrightarrow> badness (bufs c x) < badness (bufs c y)"
  using assms unfolding is_best_def by (cases "bh = NULL") fastforce+

lemma is_best_pick:
  "is_best c l bh \<Longrightarrow> NULL \<notin> set xs \<Longrightarrow> is_best c (l @ xs) (pick c bh xs)"
proof (induction xs arbitrary: l bh)
  case (Cons x xs)
  let ?t = "b_count (bufs c x) = 0 \<and> (bh = NULL \<or> badness (bufs c x) < badness (bufs c bh))"
  have x: "x \<noteq> NULL" using Cons.prems(2) by auto
  show ?case
  proof (cases ?t)
    case True
    then have pre: "\<forall>y \<in> set l. b_count (bufs c y) = 0 \<longrightarrow> badness (bufs c x) < badness (bufs c y)"
      using is_best_take [OF Cons.prems(1) x] by blast
    show ?thesis
    proof (cases "badness (bufs c x) = 0")
      case z: True
      have "is_best c (l @ x # xs) x"
        unfolding is_best_def using pre True x z by (simp only: if_False) (metis le0)
      then show ?thesis using True z by (simp add: Let_def)
    next
      case False
      have "is_best c (l @ [x]) x"
        unfolding is_best_def using pre True x by (simp only: if_False) (metis empty_iff list.set(1))
      then have "is_best c ((l @ [x]) @ xs) (pick c x xs)"
        by (rule Cons.IH) (use Cons.prems(2) in simp)
      then show ?thesis using True False by (simp add: Let_def)
    qed
  next
    case False
    have "is_best c (l @ [x]) bh" by (rule is_best_keep [OF Cons.prems(1) False])
    then have "is_best c ((l @ [x]) @ xs) (pick c bh xs)"
      by (rule Cons.IH) (use Cons.prems(2) in simp)
    moreover have "pick c bh (x # xs) = pick c bh xs" using False by (auto simp: Let_def)
    ultimately show ?thesis by simp
  qed
qed simp

lemma scan_free_best:
  assumes q: "queues_ok c l ch"
  obtains p where "scan_free c (NR_BUFFERS c) (free_list c) NULL = Inr p" "is_best c l p"
proof -
  note Q = queues_okD [OF q]
  obtain x xs where l: "l = x # xs" using Q(1) by (cases l) (auto simp: ring_def)
  have "card (set l) = length l" using Q(1) by (simp add: ring_def distinct_card)
  then have len: "length l = NR_BUFFERS c" using Q(3) by (simp add: buffers_def)
  have "scan_free c (NR_BUFFERS c) x NULL = Inr (pick c NULL (x # xs))"
    using scan_free_pick [OF Q(1,2), of "[]" x xs] l len by simp
  moreover have "is_best c ([] @ l) (pick c NULL l)"
    by (rule is_best_pick) (use Q(3) in \<open>auto simp: is_best_def buffers_def\<close>)
  ultimately show ?thesis using that Q(2) l by simp
qed

section \<open>Initialisation\<close>

lemma init_head_fields [simp]:
  "b_data (init_head a h b) = a" "b_dev (init_head a h b) = 0" "b_count (init_head a h b) = 0"
  "b_lock (init_head a h b) = 0" "b_dirt (init_head a h b) = 0" "b_uptodate (init_head a h b) = 0"
  "b_next (init_head a h b) = NULL" "b_prev (init_head a h b) = NULL"
  "b_next_free (init_head a h b) = h + 1" "b_prev_free (init_head a h b) = h - 1"
  by (simp_all add: init_head_def)

text \<open>One round of the loop, where no address passes below 0 or above 2 ^ 32.\<close>

lemma init_loop_round:
  assumes "BLOCK_SIZE \<le> b" "b < 2 ^ 32" "start + SIZEOF_BUFFER_HEAD * h < 2 ^ 32"
  shows "init_loop start b h c =
     (if start + SIZEOF_BUFFER_HEAD * h \<le> b - BLOCK_SIZE
      then let b1 = b - BLOCK_SIZE;
               c2 = (upd_buf h (init_head b1 h) c)\<lparr>NR_BUFFERS := NR_BUFFERS c + 1\<rparr>
           in init_loop start (if b1 = 0x100000 then 0xA0000 else b1) (h + 1) c2
      else Inr (h, c))"
proof -
  have "(b + (2 ^ 32 - BLOCK_SIZE)) mod 2 ^ 32 = b - BLOCK_SIZE" using wrap_sub [OF assms(1)] assms(2) by simp
  moreover have "(start + SIZEOF_BUFFER_HEAD * h) mod 2 ^ 32 = start + SIZEOF_BUFFER_HEAD * h" using assms(3) by simp
  moreover have "\<not> b < BLOCK_SIZE" using assms(1) by simp
  ultimately show ?thesis unfolding init_loop.simps [of start b h c] Let_def by simp
qed

lemma init_loop_ends:
  assumes "BLOCK_SIZE \<le> start" "BLOCK_SIZE \<le> b" "b < 2 ^ 31" "start + SIZEOF_BUFFER_HEAD * h < 2 ^ 32"
  shows "\<exists>r. init_loop start b h c = Inr r"
  using assms
proof (induction b arbitrary: h c rule: less_induct)
  case (less b)
  let ?b = "if b - BLOCK_SIZE = 0x100000 then 0xA0000 else b - BLOCK_SIZE"
  have "?b < b" "BLOCK_SIZE \<le> ?b" "?b < 2 ^ 31" "start + SIZEOF_BUFFER_HEAD * (h + 1) < 2 ^ 32"
    if "start + SIZEOF_BUFFER_HEAD * h \<le> b - BLOCK_SIZE"
    using that less.prems by auto
  then show ?case
    using less.IH [of ?b "h + 1"] less.prems by (subst init_loop_round) (auto simp: Let_def)
qed

lemma init_loop_heads:
  "init_loop start b h c = Inr (h', c') \<Longrightarrow> b < 2 ^ 31 \<Longrightarrow> start + SIZEOF_BUFFER_HEAD * h < 2 ^ 32 \<Longrightarrow>
     h \<le> h' \<and> NR_BUFFERS c' = NR_BUFFERS c + (h' - h) \<and> bdata c' = bdata c \<and>
     (\<forall>p. p < h \<or> h' \<le> p \<longrightarrow> bufs c' p = bufs c p) \<and>
     (\<forall>p. h \<le> p \<and> p < h' \<longrightarrow>
        (\<exists>a. bufs c' p = init_head a p (bufs c p) \<and> start + SIZEOF_BUFFER_HEAD * p \<le> a \<and> a + BLOCK_SIZE \<le> b)) \<and>
     (\<forall>p q. h \<le> p \<and> p < q \<and> q < h' \<longrightarrow> b_data (bufs c' q) + BLOCK_SIZE \<le> b_data (bufs c' p))"
proof (induction b arbitrary: h c h' c' rule: less_induct)
  case (less b)
  show ?case
  proof (cases "BLOCK_SIZE \<le> b \<and> start + SIZEOF_BUFFER_HEAD * h \<le> b - BLOCK_SIZE")
    case False
    then have "h' = h \<and> c' = c"
      using less.prems init_loop_round [of b start h c] by (cases "BLOCK_SIZE \<le> b") (auto simp: init_loop.simps [of start b h c] Let_def split: if_splits)
    then show ?thesis by auto
  next
    case True
    define b1 where "b1 = b - BLOCK_SIZE"
    define c2 where "c2 = (upd_buf h (init_head b1 h) c)\<lparr>NR_BUFFERS := NR_BUFFERS c + 1\<rparr>"
    define b2 :: nat where "b2 = (if b1 = 0x100000 then 0xA0000 else b1)"
    have run: "init_loop start b2 (h + 1) c2 = Inr (h', c')"
      using less.prems True init_loop_round [of b start h c] by (simp add: Let_def b1_def c2_def b2_def)
    have b2: "b2 \<le> b1" "b1 + BLOCK_SIZE = b" using True by (auto simp: b1_def b2_def)
    have lt: "b2 < b" "b2 < 2 ^ 31" "start + SIZEOF_BUFFER_HEAD * (h + 1) < 2 ^ 32"
      using b2 less.prems(2) True by (auto simp: b1_def)
    note IH = less.IH [OF lt(1) run lt(2,3)]
    have I: "h + 1 \<le> h' \<and> NR_BUFFERS c' = NR_BUFFERS c2 + (h' - (h + 1)) \<and> bdata c' = bdata c2 \<and>
       (\<forall>p. p < h + 1 \<or> h' \<le> p \<longrightarrow> bufs c' p = bufs c2 p) \<and>
       (\<forall>p. h + 1 \<le> p \<and> p < h' \<longrightarrow>
          (\<exists>a. bufs c' p = init_head a p (bufs c2 p) \<and> start + SIZEOF_BUFFER_HEAD * p \<le> a \<and> a + BLOCK_SIZE \<le> b2)) \<and>
       (\<forall>p q. h + 1 \<le> p \<and> p < q \<and> q < h' \<longrightarrow> b_data (bufs c' q) + BLOCK_SIZE \<le> b_data (bufs c' p))"
      using IH by (simp add: c2_def)
    have at_h: "bufs c' h = init_head b1 h (bufs c h)" using I by (simp add: c2_def)
    have ex: "\<exists>a. bufs c' p = init_head a p (bufs c p) \<and> start + SIZEOF_BUFFER_HEAD * p \<le> a \<and>
        a + BLOCK_SIZE \<le> b \<and> (h < p \<longrightarrow> a + BLOCK_SIZE \<le> b1)"
      if p: "h \<le> p" "p < h'" for p
    proof (cases "p = h")
      case True
      then show ?thesis using at_h b2 \<open>BLOCK_SIZE \<le> b \<and> start + SIZEOF_BUFFER_HEAD * h \<le> b - BLOCK_SIZE\<close>
        by (auto simp: b1_def)
    next
      case False
      then obtain a where "bufs c' p = init_head a p (bufs c2 p)"
        "start + SIZEOF_BUFFER_HEAD * p \<le> a" "a + BLOCK_SIZE \<le> b2" using I p by (metis Suc_eq_plus1 Suc_leI le_neq_implies_less)
      then show ?thesis using b2 False by (auto simp: c2_def)
    qed
    have dec: "b_data (bufs c' q) + BLOCK_SIZE \<le> b_data (bufs c' p)" if "h \<le> p" "p < q" "q < h'" for p q
    proof (cases "p = h")
      case True
      then show ?thesis using ex [of q] that at_h by auto
    next
      case False
      then show ?thesis using I that by auto
    qed
    have fr: "bufs c' p = bufs c p" if "p < h \<or> h' \<le> p" for p
      using I that by (auto simp: c2_def)
    show ?thesis
    proof (intro conjI allI impI)
      fix p assume "h \<le> p \<and> p < h'"
      then show "\<exists>a. bufs c' p = init_head a p (bufs c p) \<and> start + SIZEOF_BUFFER_HEAD * p \<le> a \<and>
          a + BLOCK_SIZE \<le> b" using ex by blast
    qed (use I dec fr in \<open>auto simp: c2_def\<close>)
  qed
qed

lemma links_upt:
  "(\<And>p. a \<le> p \<Longrightarrow> p + 1 < b \<Longrightarrow> N p = p + 1 \<and> P (p + 1) = p) \<Longrightarrow> links N P [a..<b]"
proof (induction "b - a" arbitrary: a)
  case (Suc k)
  have ih: "links N P [Suc a..<b]" by (rule Suc.hyps(1)) (use Suc in auto)
  have "a < b" using Suc.hyps(2) by simp
  show ?case
  proof (cases "Suc a < b")
    case True
    then show ?thesis using ih Suc.prems [of a] \<open>a < b\<close> by (simp add: upt_conv_Cons)
  next
    case False
    then show ?thesis using \<open>a < b\<close> by (simp add: upt_conv_Cons)
  qed
qed simp

lemma buffer_top_bound: "buffer_end < 2 ^ 31 \<Longrightarrow> buffer_top buffer_end < 2 ^ 31"
  by (simp add: buffer_top_def)

lemma init_buff_cases:
  assumes fits: "start + SIZEOF_BUFFER_HEAD + BLOCK_SIZE \<le> buffer_top buffer_end" and e: "buffer_end < 2 ^ 31"
    and z: "NR_BUFFERS c = 0" and ret: "init_buff start buffer_end c = Inr d"
  obtains n c1 where "init_loop start (buffer_top buffer_end) 1 c = Inr (n + 1, c1)" and "1 \<le> n"
    and "start + SIZEOF_BUFFER_HEAD * 1 < 2 ^ 32" "NR_BUFFERS c1 = n"
    and "d = (upd_buf n (\<lambda>b. b\<lparr>b_next_free := 1\<rparr>) (upd_buf 1 (\<lambda>b. b\<lparr>b_prev_free := n\<rparr>) (c1\<lparr>free_list := 1\<rparr>)))
         \<lparr>hash_table := (\<lambda>i. if i < NR_HASH then NULL else hash_table c1 i)\<rparr>"
proof -
  let ?b = "buffer_top buffer_end"
  obtain h c1 where r: "init_loop start ?b 1 c = Inr (h, c1)" using ret by (auto simp: init_buff_def bnd_eq_Inr)
  have B: "?b < 2 ^ 31" by (rule buffer_top_bound [OF e])
  have S: "start + SIZEOF_BUFFER_HEAD * 1 < 2 ^ 32" using fits B by simp
  note I = init_loop_heads [OF r B S]
  have "2 \<le> h"
  proof -
    have f: "BLOCK_SIZE \<le> ?b" "start + SIZEOF_BUFFER_HEAD \<le> ?b - BLOCK_SIZE" using fits by auto
    define b2 where "b2 = (if ?b - BLOCK_SIZE = 0x100000 then 0xA0000 else ?b - BLOCK_SIZE)"
    define c2 where "c2 = (upd_buf 1 (init_head (?b - BLOCK_SIZE) 1) c)\<lparr>NR_BUFFERS := 1\<rparr>"
    have "init_loop start ?b 1 c = init_loop start b2 2 c2"
      using f z B S by (subst init_loop_round) (simp_all add: Let_def b2_def c2_def less_trans [OF B] numeral_2_eq_2 [symmetric])
    then have r2: "init_loop start b2 2 c2 = Inr (h, c1)" using r by simp
    have "b2 < 2 ^ 31" "start + SIZEOF_BUFFER_HEAD * 2 < 2 ^ 32" using f B by (auto simp: b2_def)
    then show ?thesis using init_loop_heads [OF r2] by simp
  qed
  then obtain n where n: "h = n + 1" "1 \<le> n" by (cases h) auto
  show ?thesis
    by (rule that [OF r [unfolded n(1)] n(2) S])
      (use I n z r ret in \<open>auto simp: init_buff_def Let_def cong: if_cong\<close>)
qed

text \<open>The loop ends where the kernel's image, and with it the array of heads, is not in the lowest 1024 bytes.\<close>

lemma init_buff_returns:
  assumes "start + SIZEOF_BUFFER_HEAD + BLOCK_SIZE \<le> buffer_top buffer_end" "buffer_end < 2 ^ 31" "BLOCK_SIZE \<le> start"
  shows "\<exists>d. init_buff start buffer_end c = Inr d"
proof -
  have "start + SIZEOF_BUFFER_HEAD * 1 < 2 ^ 32" using assms(1) buffer_top_bound [OF assms(2)] by simp
  then obtain r where "init_loop start (buffer_top buffer_end) 1 c = Inr r"
    using init_loop_ends [OF assms(3) _ buffer_top_bound [OF assms(2)]] assms(1) by fastforce
  then show ?thesis by (simp add: init_buff_def case_prod_beta Let_def)
qed

lemma init_buff_ok:
  assumes fits: "start + SIZEOF_BUFFER_HEAD + BLOCK_SIZE \<le> buffer_top buffer_end" and e: "buffer_end < 2 ^ 31"
    and z: "NR_BUFFERS c = 0" and ret: "init_buff start buffer_end c = Inr d"
  shows "queues_ok d [1..<Suc (NR_BUFFERS d)] (\<lambda>_. [])" and "1 \<le> NR_BUFFERS d"
    and "\<And>p. p \<in> buffers d \<Longrightarrow> b_dev (bufs d p) = 0 \<and> b_count (bufs d p) = 0 \<and>
           b_lock (bufs d p) = 0 \<and> b_dirt (bufs d p) = 0 \<and> b_uptodate (bufs d p) = 0 \<and>
           b_data (bufs d p) + BLOCK_SIZE \<le> buffer_top buffer_end \<and>
           start + SIZEOF_BUFFER_HEAD * NR_BUFFERS d \<le> b_data (bufs d p)"
    and "\<And>p q. p \<in> buffers d \<Longrightarrow> q \<in> buffers d \<Longrightarrow> p < q \<Longrightarrow>
           b_data (bufs d q) + BLOCK_SIZE \<le> b_data (bufs d p)"
proof -
  obtain n c1 where r: "init_loop start (buffer_top buffer_end) 1 c = Inr (n + 1, c1)" and n: "1 \<le> n"
    and S: "start + SIZEOF_BUFFER_HEAD * 1 < 2 ^ 32" and nr: "NR_BUFFERS c1 = n"
    and d: "d = (upd_buf n (\<lambda>b. b\<lparr>b_next_free := 1\<rparr>) (upd_buf 1 (\<lambda>b. b\<lparr>b_prev_free := n\<rparr>) (c1\<lparr>free_list := 1\<rparr>)))
         \<lparr>hash_table := (\<lambda>i. if i < NR_HASH then NULL else hash_table c1 i)\<rparr>"
    by (rule init_buff_cases [OF fits e z ret])
  note I = init_loop_heads [OF r buffer_top_bound [OF e] S]
  have N: "NR_BUFFERS d = n" by (simp add: d nr)
  then show "1 \<le> NR_BUFFERS d" using n by simp
  have B: "buffers d = {1..n}" by (simp add: buffers_def N)
  have ex: "\<exists>a. bufs c1 p = init_head a p (bufs c p) \<and> start + SIZEOF_BUFFER_HEAD * p \<le> a \<and>
      a + BLOCK_SIZE \<le> buffer_top buffer_end" if "1 \<le> p" "p \<le> n" for p
  proof -
    have "p < n + 1" using that by simp
    with I that(1) show ?thesis by blast
  qed
  have dec1: "b_data (bufs c1 q) + BLOCK_SIZE \<le> b_data (bufs c1 p)" if "1 \<le> p" "p < q" "q \<le> n" for p q
  proof -
    have "q < n + 1" using that by simp
    with I that(1,2) show ?thesis by blast
  qed
  have same: "b_data (bufs d p) = b_data (bufs c1 p)" "b_dev (bufs d p) = b_dev (bufs c1 p)"
    "b_count (bufs d p) = b_count (bufs c1 p)" "b_lock (bufs d p) = b_lock (bufs c1 p)"
    "b_dirt (bufs d p) = b_dirt (bufs c1 p)" "b_uptodate (bufs d p) = b_uptodate (bufs c1 p)"
    "b_next (bufs d p) = b_next (bufs c1 p)" "b_prev (bufs d p) = b_prev (bufs c1 p)" for p
    by (simp_all add: d)
  have nxt: "fnext d p = (if p = n then 1 else p + 1)" if "1 \<le> p" "p \<le> n" for p
    using ex [OF that] by (auto simp: d fnext_def)
  have prv: "fprev d p = (if p = 1 then n else p - 1)" if "1 \<le> p" "p \<le> n" for p
    using ex [OF that] by (auto simp: d fprev_def)
  show dec: "b_data (bufs d q) + BLOCK_SIZE \<le> b_data (bufs d p)"
    if "p \<in> buffers d" "q \<in> buffers d" "p < q" for p q
    using dec1 [of p q] that by (simp add: B same)
  show "b_dev (bufs d p) = 0 \<and> b_count (bufs d p) = 0 \<and>
       b_lock (bufs d p) = 0 \<and> b_dirt (bufs d p) = 0 \<and> b_uptodate (bufs d p) = 0 \<and>
       b_data (bufs d p) + BLOCK_SIZE \<le> buffer_top buffer_end \<and>
       start + SIZEOF_BUFFER_HEAD * NR_BUFFERS d \<le> b_data (bufs d p)"
    if p: "p \<in> buffers d" for p
  proof -
    have "start + SIZEOF_BUFFER_HEAD * n \<le> b_data (bufs d n)" using ex [of n] n by (auto simp: same)
    moreover have "b_data (bufs d n) \<le> b_data (bufs d p)"
      using dec [of p n] p n by (cases "p = n") (auto simp: B)
    ultimately show ?thesis using ex [of p] p by (auto simp: same B N)
  qed
  have "ring (fnext d) (fprev d) [1..<Suc n]"
    unfolding ring_iff
  proof (intro conjI)
    show "links (fnext d) (fprev d) [1..<Suc n]"
      by (rule links_upt) (use nxt prv in auto)
    have l: "hd [1..<Suc n] = 1" "last [1..<Suc n] = n" using n by (simp_all del: upt_Suc)
    show "fnext d (last [1..<Suc n]) = hd [1..<Suc n]" unfolding l using nxt [of n] n by simp
    show "fprev d (hd [1..<Suc n]) = last [1..<Suc n]" unfolding l using prv [of 1] n by simp
  qed (use n in auto)
  moreover have "hd [1..<Suc n] = free_list d" using n by (simp add: d del: upt_Suc)
  moreover have dev0: "b_dev (bufs d p) = 0" if "p \<in> buffers d" for p
    using ex [of p] that by (auto simp: same B)
  then have "chains d (buffers d) (\<lambda>_. [])" by (auto simp: chains_def d)
  moreover have "null_links d p" if "p \<in> buffers d" for p
    using ex [of p] that by (auto simp: null_links_def hnext_def hprev_def same B)
  moreover have "{p. hashed d p} = {}" using dev0 by (auto simp: hashed_def)
  ultimately show "queues_ok d [1..<Suc (NR_BUFFERS d)] (\<lambda>_. [])"
    using n by (auto simp: queues_ok_def N B)
qed

end
