(* ===== verification/Machine.thy ===== *)
theory Machine
  imports Cache
begin

text \<open>
  The state of the running kernel below the file system: the buffer cache, the block-device driver's
  tables, the interrupt table and the hardware the code talks to.
\<close>

section \<open>Hardware\<close>

text \<open>
  The devices are not part of the program: what an input instruction reads is given by two oracles
  indexed by the number of input instructions executed so far, \<open>inb_val\<close> for a byte from a port
  and \<open>insw_val\<close> for the bytes of a 256-word transfer. Output instructions are recorded, newest first.
  \<open>if_flag\<close> is the processor's interrupt flag, and \<open>irqs\<close> are the interrupt requests that the
  devices will raise from now on, in order.
\<close>

datatype io = Outb nat u8 | Outsw nat "nat \<Rightarrow> u8"

record hardware =
  inb_val :: "nat \<Rightarrow> nat \<Rightarrow> u8"
  insw_val :: "nat \<Rightarrow> nat \<Rightarrow> u8"
  io_clock :: nat
  io_out :: "io list"
  if_flag :: bool
  irqs :: "nat list"

section \<open>The driver's tables\<close>

text \<open>
  \<open>struct request\<close>. The data pointer \<open>buffer\<close> always points into some buffer's block: it is the
  number of that buffer and the byte offset.
\<close>

record request =
  rq_dev :: int
  rq_cmd :: int
  rq_errors :: int
  rq_sector :: u32
  rq_nr_sectors :: u32
  rq_buffer :: "ptr \<times> nat"
  rq_bh :: ptr
  rq_next :: ptr

record hd_i_struct =
  hd_head :: u32
  hd_sect :: u32
  hd_cyl :: u32

record partition_i_struct =
  start_sect :: u32
  nr_sects :: u32

text \<open>The functions whose addresses the kernel stores in \<open>irq_routines\<close>.\<close>

datatype handler = Timer_handler | Read_intr | Write_intr | Recal_intr

text \<open>
  Requests are numbered from 1; \<open>request_list NULL\<close> is what a read through a null request pointer
  finds in low memory. \<open>request_fn m\<close> says that \<open>blk_dev[m].request_fn\<close> is \<open>do_hd_request\<close> and not null.
\<close>

record driver =
  request_list :: "ptr \<Rightarrow> request"
  current_request :: "nat \<Rightarrow> ptr"
  request_fn :: "nat \<Rightarrow> bool"
  recalibrate :: bool
  reset :: bool
  hd_info :: "nat \<Rightarrow> hd_i_struct"
  NR_HD :: nat
  partition_info :: "nat \<Rightarrow> partition_i_struct"
  callable :: bool
  irq_routines :: "nat \<Rightarrow> handler option"
  timer_ticks :: u32

text \<open>
  The kernel log is the sequence of \<open>printk\<close> calls, each with its format and arguments; what a call
  does to the screen is the subject of the console theories.
\<close>

datatype arg = ArgI u32 | ArgS string

record kst =
  cache :: cache
  drv :: driver
  hw :: hardware
  klog :: "(string \<times> arg list) list"

abbreviation NL :: string where
  "NL \<equiv> [CHR 0x0A]"

abbreviation NLCR :: string where
  "NLCR \<equiv> [CHR 0x0A, CHR 0x0D]"

definition printk :: "string \<Rightarrow> arg list \<Rightarrow> kst \<Rightarrow> kst" where
  "printk fmt args s = s\<lparr>klog := klog s @ [(fmt, args)]\<rparr>"

section \<open>State access\<close>

abbreviation bh_of :: "kst \<Rightarrow> ptr \<Rightarrow> buffer_head" where
  "bh_of s p \<equiv> bufs (cache s) p"

abbreviation rq_of :: "kst \<Rightarrow> ptr \<Rightarrow> request" where
  "rq_of s r \<equiv> request_list (drv s) r"

definition upd_bh :: "ptr \<Rightarrow> (buffer_head \<Rightarrow> buffer_head) \<Rightarrow> kst \<Rightarrow> kst" where
  "upd_bh p f s = s\<lparr>cache := upd_buf p f (cache s)\<rparr>"

definition upd_rq :: "ptr \<Rightarrow> (request \<Rightarrow> request) \<Rightarrow> kst \<Rightarrow> kst" where
  "upd_rq r f s = s\<lparr>drv := (drv s)\<lparr>request_list := (request_list (drv s))(r := f (request_list (drv s) r))\<rparr>\<rparr>"

text \<open>\<open>CURRENT_REQUEST\<close> of the hard disk, whose major number is 3.\<close>

abbreviation MAJOR_NR :: nat where
  "MAJOR_NR \<equiv> 3"

definition CURRENT :: "kst \<Rightarrow> ptr" where
  "CURRENT s = current_request (drv s) MAJOR_NR"

definition set_current :: "nat \<Rightarrow> ptr \<Rightarrow> kst \<Rightarrow> kst" where
  "set_current m r s = s\<lparr>drv := (drv s)\<lparr>current_request := (current_request (drv s))(m := r)\<rparr>\<rparr>"

text \<open>\<open>MAJOR\<close> and \<open>MINOR\<close> of a device number.\<close>

definition MAJOR :: "int \<Rightarrow> nat" where
  "MAJOR a = nat (a mod 2 ^ 32) div 256"

definition MINOR :: "int \<Rightarrow> nat" where
  "MINOR a = nat (a mod 256)"

section \<open>Instructions\<close>

definition inb :: "nat \<Rightarrow> kst \<Rightarrow> u8 \<times> kst" where
  "inb port s = (inb_val (hw s) (io_clock (hw s)) port, s\<lparr>hw := (hw s)\<lparr>io_clock := io_clock (hw s) + 1\<rparr>\<rparr>)"

definition outb :: "u8 \<Rightarrow> nat \<Rightarrow> kst \<Rightarrow> kst" where
  "outb v port s = s\<lparr>hw := (hw s)\<lparr>io_out := Outb port v # io_out (hw s)\<rparr>\<rparr>"

text \<open>\<open>port_read(port, buf, 256)\<close>: 512 bytes to buffer \<open>p\<close> from offset \<open>off\<close>.\<close>

definition port_read :: "ptr \<times> nat \<Rightarrow> kst \<Rightarrow> kst" where
  "port_read buf s =
     (let (p, off) = buf;
          d = (\<lambda>i. if off \<le> i \<and> i < off + 512 then insw_val (hw s) (io_clock (hw s)) (i - off)
                   else bdata (cache s) p i)
      in s\<lparr>cache := (cache s)\<lparr>bdata := (bdata (cache s))(p := d)\<rparr>,
           hw := (hw s)\<lparr>io_clock := io_clock (hw s) + 1\<rparr>\<rparr>)"

text \<open>\<open>port_write(port, buf, 256)\<close>.\<close>

definition port_write :: "nat \<Rightarrow> ptr \<times> nat \<Rightarrow> kst \<Rightarrow> kst" where
  "port_write port buf s =
     (let (p, off) = buf
      in s\<lparr>hw := (hw s)\<lparr>io_out := Outsw port (\<lambda>i. bdata (cache s) p (off + i)) # io_out (hw s)\<rparr>\<rparr>)"

definition cli :: "kst \<Rightarrow> kst" where
  "cli s = s\<lparr>hw := (hw s)\<lparr>if_flag := False\<rparr>\<rparr>"

definition sti :: "kst \<Rightarrow> kst" where
  "sti s = s\<lparr>hw := (hw s)\<lparr>if_flag := True\<rparr>\<rparr>"

text \<open>\<open>src/irq.c\<close>: the table of handlers.\<close>

definition irq_install_handler :: "nat \<Rightarrow> handler \<Rightarrow> kst \<Rightarrow> kst" where
  "irq_install_handler irq h s = s\<lparr>drv := (drv s)\<lparr>irq_routines := (irq_routines (drv s))(irq := Some h)\<rparr>\<rparr>"

definition irq_uninstall_handler :: "nat \<Rightarrow> kst \<Rightarrow> kst" where
  "irq_uninstall_handler irq s = s\<lparr>drv := (drv s)\<lparr>irq_routines := (irq_routines (drv s))(irq := None)\<rparr>\<rparr>"

lemmas machine_defs =
  upd_bh_def upd_rq_def CURRENT_def set_current_def inb_def outb_def cli_def sti_def
  irq_install_handler_def printk_def port_write_def

section \<open>Buffer locks (\<open>src/blk/buffer.c\<close>)\<close>

definition lock_buff :: "ptr \<Rightarrow> kst \<Rightarrow> kst" where
  "lock_buff bh s = sti (upd_bh bh (\<lambda>b. b\<lparr>b_lock := 1\<rparr>) (cli s))"

definition unlock_buff :: "ptr \<Rightarrow> kst \<Rightarrow> kst" where
  "unlock_buff bh s0 =
     (let s1 = (if b_lock (bh_of s0 bh) = 0
                then printk (''unlock buffer being unlocked'' @ NLCR) [] s0 else s0)
      in upd_bh bh (\<lambda>b. b\<lparr>b_lock := 0\<rparr>) s1)"

end
