(* ===== verification/Hd.thy ===== *)
theory Hd
  imports Machine
begin

text \<open>
  The hard-disk driver (\<open>src/blk/hd.c\<close>) and the dispatch of hardware interrupts (\<open>src/irq.c\<close>,
  \<open>src/timer.c\<close>). The driver is a state machine: a request at the head of the queue is started by
  \<open>do_hd_request\<close> and carried on by the interrupt handler that \<open>hd_out\<close> installed last.
\<close>

section \<open>Registers and commands (\<open>src/blk/hdreg.h\<close>)\<close>

abbreviation HD_DATA :: nat where "HD_DATA \<equiv> 0x1f0"
abbreviation HD_ERROR :: nat where "HD_ERROR \<equiv> 0x1f1"
abbreviation HD_STATUS :: nat where "HD_STATUS \<equiv> 0x1f7"
abbreviation HD_CMD :: nat where "HD_CMD \<equiv> 0x3f6"

abbreviation ERR_STAT :: u8 where "ERR_STAT \<equiv> 0x01"
abbreviation DRQ_STAT :: u8 where "DRQ_STAT \<equiv> 0x08"
abbreviation SEEK_STAT :: u8 where "SEEK_STAT \<equiv> 0x10"
abbreviation WRERR_STAT :: u8 where "WRERR_STAT \<equiv> 0x20"
abbreviation READY_STAT :: u8 where "READY_STAT \<equiv> 0x40"
abbreviation BUSY_STAT :: u8 where "BUSY_STAT \<equiv> 0x80"

abbreviation WIN_RESTORE :: u32 where "WIN_RESTORE \<equiv> 0x10"
abbreviation WIN_READ :: u32 where "WIN_READ \<equiv> 0x20"
abbreviation WIN_WRITE :: u32 where "WIN_WRITE \<equiv> 0x30"
abbreviation WIN_SPECIFY :: u32 where "WIN_SPECIFY \<equiv> 0x91"

abbreviation READ :: int where "READ \<equiv> 0"
abbreviation WRITE :: int where "WRITE \<equiv> 1"
abbreviation READA :: int where "READA \<equiv> 2"
abbreviation WRITEA :: int where "WRITEA \<equiv> 3"

abbreviation MAX_ERRORS :: int where "MAX_ERRORS \<equiv> 7"

section \<open>Completing a request\<close>

definition end_request :: "bool \<Rightarrow> kst \<Rightarrow> kst" where
  "end_request uptodate s0 =
     (let cur = CURRENT s0;
          s1 = (if rq_bh (rq_of s0 cur) \<noteq> NULL
                then unlock_buff (rq_bh (rq_of s0 cur))
                       (upd_bh (rq_bh (rq_of s0 cur)) (\<lambda>b. b\<lparr>b_uptodate := (if uptodate then 1 else 0)\<rparr>) s0)
                else s0);
          s2 = (if \<not> uptodate
                then printk (''dev %04x, block %d'' @ NLCR)
                       [ArgI (word_of_int (rq_dev (rq_of s1 cur))), ArgI (b_blocknr (bh_of s1 (rq_bh (rq_of s1 cur))))]
                       (printk (''harddisk I/O error'' @ NLCR) [] s1)
                else s1);
          s3 = upd_rq cur (\<lambda>r. r\<lparr>rq_dev := -1\<rparr>) s2
      in set_current MAJOR_NR (rq_next (rq_of s3 cur)) s3)"

section \<open>Polling the controller\<close>

text \<open>\<open>win_result\<close>: \<open>True\<close> stands for the result 1, an error.\<close>

definition win_result :: "kst \<Rightarrow> bool \<times> kst" where
  "win_result s0 =
     (let (i, s1) = inb HD_STATUS s0
      in if i AND (BUSY_STAT OR READY_STAT OR WRERR_STAT OR SEEK_STAT OR ERR_STAT) = READY_STAT OR SEEK_STAT
         then (False, s1)
         else if i AND 1 \<noteq> 0 then (True, snd (inb HD_ERROR s1)) else (True, s1))"

text \<open>\<open>while (--retries && (inb_p(HD_STATUS) & (BUSY_STAT|READY_STAT)) != READY_STAT);\<close>\<close>

fun controller_poll :: "nat \<Rightarrow> kst \<Rightarrow> nat \<times> kst" where
  "controller_poll 0 s0 = (0, s0)"
| "controller_poll (Suc retries) s0 =
     (if retries = 0 then (0, s0)
      else let (v, s1) = inb HD_STATUS s0
           in if v AND (BUSY_STAT OR READY_STAT) = READY_STAT then (retries, s1)
              else controller_poll retries s1)"

definition controller_ready :: "kst \<Rightarrow> nat \<times> kst" where
  "controller_ready s = controller_poll 1000000 s"

fun busy_poll :: "nat \<Rightarrow> kst \<Rightarrow> kst" where
  "busy_poll 0 s0 = s0"
| "busy_poll (Suc n) s0 =
     (let (v, s1) = inb HD_STATUS s0
      in if READY_STAT = v AND (BUSY_STAT OR READY_STAT) then s1 else busy_poll n s1)"

definition drive_busy :: "kst \<Rightarrow> bool \<times> kst" where
  "drive_busy s0 =
     (let (i, s1) = inb HD_STATUS (busy_poll 10000 s0)
      in if i AND (BUSY_STAT OR READY_STAT OR SEEK_STAT) = READY_STAT OR SEEK_STAT then (False, s1)
         else (True, printk (''HD controller times out'' @ NLCR) [] s1))"

text \<open>\<open>for(i=0 ; i<3000 && !(r=inb_p(HD_STATUS)&DRQ_STAT) ; i++)\<close>\<close>

fun poll_drq :: "nat \<Rightarrow> kst \<Rightarrow> bool \<times> kst" where
  "poll_drq 0 s0 = (False, s0)"
| "poll_drq (Suc n) s0 =
     (let (v, s1) = inb HD_STATUS s0
      in if v AND DRQ_STAT \<noteq> 0 then (True, s1) else poll_drq n s1)"

section \<open>Programming the controller\<close>

definition hd_out :: "u32 \<Rightarrow> u32 \<Rightarrow> u32 \<Rightarrow> u32 \<Rightarrow> u32 \<Rightarrow> u32 \<Rightarrow> handler \<Rightarrow> kst \<Rightarrow> kst kres" where
  "hd_out drive nsect sect head cyl cmd intr_addr s0 =
     (if 1 < drive \<or> 15 < head then Inl (Panic ''Trying to write bad sector'')
      else let (rdy, s1) = controller_ready s0
           in if rdy = 0 then Inl (Panic ''HD controller not ready'')
              else let s2 = irq_install_handler 14 intr_addr s1;
                       s3 = outb 0 HD_CMD s2;
                       s4 = outb 0 (HD_DATA + 1) s3;
                       s5 = outb (ucast nsect) (HD_DATA + 2) s4;
                       s6 = outb (ucast sect) (HD_DATA + 3) s5;
                       s7 = outb (ucast cyl) (HD_DATA + 4) s6;
                       s8 = outb (ucast (drop_bit 8 cyl)) (HD_DATA + 5) s7;
                       s9 = outb (ucast (0xA0 OR push_bit 4 drive OR head)) (HD_DATA + 6) s8
                   in Inr (outb (ucast cmd) (HD_DATA + 7) s9))"

definition reset_controller :: "nat \<Rightarrow> kst \<Rightarrow> kst kres" where
  "reset_controller dev s0 =
     (let s1 = outb 0 HD_CMD (outb 4 HD_CMD s0);
          (busy, s2) = drive_busy s1;
          s3 = (if busy then printk (''HD-controller still busy'' @ NLCR) [] s2 else s2);
          (i, s4) = inb HD_ERROR s3;
          s5 = (if i \<noteq> 1 then printk (''HD-controller reset failed: %02x'' @ NLCR) [ArgI (ucast i)] s4 else s4);
          g = hd_info (drv s5) dev
      in hd_out (of_nat dev) (hd_sect g) (hd_sect g) (hd_head g - 1) (hd_cyl g) WIN_SPECIFY Recal_intr s5)"

text \<open>
  \<open>bad_rw_intr\<close>. Incrementing \<open>errors\<close> through a null \<open>CURRENT_REQUEST\<close> would write to low memory.
  The second test reads the new current request, which may be null by then.
\<close>

definition bad_rw_intr :: "kst \<Rightarrow> kst kres" where
  "bad_rw_intr s0 =
     (if CURRENT s0 = NULL then Inl Fault
      else let s1 = upd_rq (CURRENT s0) (\<lambda>r. r\<lparr>rq_errors := rq_errors r + 1\<rparr>) s0;
               s2 = (if MAX_ERRORS \<le> rq_errors (rq_of s1 (CURRENT s1)) then end_request False s1 else s1);
               s3 = (if MAX_ERRORS div 2 < rq_errors (rq_of s2 (CURRENT s2))
                     then s2\<lparr>drv := (drv s2)\<lparr>reset := True\<rparr>\<rparr> else s2)
           in Inr s3)"

definition print_failed :: "string \<Rightarrow> kst \<Rightarrow> kst" where
  "print_failed what s =
     printk (what @ '' failed dev:0x%x times:%d'' @ NLCR)
       [ArgI (word_of_int (rq_dev (rq_of s (CURRENT s)))), ArgI (word_of_int (rq_errors (rq_of s (CURRENT s))))] s"

section \<open>Starting a request: \<open>do_hd_request\<close>\<close>

text \<open>
  The body of \<open>do_hd_request\<close> between two \<open>goto repeat\<close>: \<open>Inr (Inl s)\<close> jumps back with state \<open>s\<close>,
  \<open>Inr (Inr s)\<close> returns.
\<close>

definition do_hd_body :: "kst \<Rightarrow> (kst + kst) kres" where
  "do_hd_body s0 =
     (if CURRENT s0 = NULL then Inr (Inr s0)
      else let r = rq_of s0 (CURRENT s0)
      in if MAJOR (rq_dev r) \<noteq> MAJOR_NR then Inl (Panic ''harddisk: request list destroyed'')
      else if rq_bh r \<noteq> NULL \<and> b_lock (bh_of s0 (rq_bh r)) = 0 then Inl (Panic ''harddisk: block not locked'')
      else let partition = MINOR (rq_dev r); drive = partition div 5;
               part = partition_info (drv s0) partition
      in if NR_HD (drv s0) * 5 \<le> partition \<or> nr_sects part < rq_sector r + 2
         then Inr (Inl (end_request False s0))
      else let block = rq_sector r + start_sect part; g = hd_info (drv s0) drive
      in if hd_sect g = 0 \<or> hd_head g = 0 then Inl DivideError
      else let sec = block mod hd_sect g; block' = block div hd_sect g;
               cyl = block' div hd_head g; head = block' mod hd_head g; sec' = sec + 1
      in if reset (drv s0)
         then bnd (reset_controller drive (s0\<lparr>drv := (drv s0)\<lparr>reset := False, recalibrate := True\<rparr>\<rparr>))
                (\<lambda>s. Inr (Inr s))
      else if recalibrate (drv s0)
         then bnd (hd_out (of_nat drive) (hd_sect g) 0 0 0 WIN_RESTORE Recal_intr
                     (s0\<lparr>drv := (drv s0)\<lparr>recalibrate := False\<rparr>\<rparr>))
                (\<lambda>s. Inr (Inr s))
      else let nsect = rq_nr_sectors r
      in if rq_cmd r = WRITE
         then bnd (hd_out (of_nat drive) nsect sec' head cyl WIN_WRITE Write_intr s0) (\<lambda>s1.
              let (drq, s2) = poll_drq 3000 s1
              in if \<not> drq then bnd (bad_rw_intr s2) (\<lambda>s3. Inr (Inl (print_failed ''write'' s3)))
                 else Inr (Inr (port_write HD_DATA (rq_buffer (rq_of s2 (CURRENT s2))) s2)))
      else if rq_cmd r = READ
         then bnd (hd_out (of_nat drive) nsect sec' head cyl WIN_READ Read_intr s0) (\<lambda>s. Inr (Inr s))
      else Inl (Panic ''unknown hd-command''))"

fun do_hd_loop :: "nat \<Rightarrow> kst \<Rightarrow> kst kres" where
  "do_hd_loop 0 s = Inl Hang"
| "do_hd_loop (Suc n) s =
     bnd (do_hd_body s) (\<lambda>r. case r of Inl s' \<Rightarrow> do_hd_loop n s' | Inr s' \<Rightarrow> Inr s')"

text \<open>
  Each jump back either drops the request at the head of the queue or counts one more error
  against it, and the seventh error drops it: 8 rounds per request of the 32, and one more for the
  empty queue, are enough.
\<close>

definition do_hd_request :: "kst \<Rightarrow> kst kres" where
  "do_hd_request s = do_hd_loop 257 s"

section \<open>Interrupt handlers\<close>

definition read_intr :: "kst \<Rightarrow> kst kres" where
  "read_intr s0 =
     (let (bad, s1) = win_result s0
      in if bad then bnd (bad_rw_intr s1) (\<lambda>s2. do_hd_request (print_failed ''read'' s2))
      else if CURRENT s1 = NULL then Inl Fault
      else let cur = CURRENT s1;
               s2 = port_read (rq_buffer (rq_of s1 cur)) s1;
               s3 = upd_rq cur (\<lambda>r. r\<lparr>rq_errors := 0\<rparr>) s2;
               s4 = upd_rq cur (\<lambda>r. r\<lparr>rq_buffer := (fst (rq_buffer r), snd (rq_buffer r) + 512)\<rparr>) s3;
               s5 = upd_rq cur (\<lambda>r. r\<lparr>rq_sector := rq_sector r + 1\<rparr>) s4;
               s6 = upd_rq cur (\<lambda>r. r\<lparr>rq_nr_sectors := rq_nr_sectors r - 1\<rparr>) s5
      in if rq_nr_sectors (rq_of s6 cur) \<noteq> 0 then Inr (irq_install_handler 14 Read_intr s6)
      else do_hd_request (end_request True s6))"

definition write_intr :: "kst \<Rightarrow> kst kres" where
  "write_intr s0 =
     (let (bad, s1) = win_result s0
      in if bad then bnd (bad_rw_intr s1) (\<lambda>s2. do_hd_request (print_failed ''write'' s2))
      else if CURRENT s1 = NULL then Inl Fault
      else let cur = CURRENT s1;
               s2 = upd_rq cur (\<lambda>r. r\<lparr>rq_nr_sectors := rq_nr_sectors r - 1\<rparr>) s1
      in if rq_nr_sectors (rq_of s2 cur) \<noteq> 0
      then let s3 = upd_rq cur (\<lambda>r. r\<lparr>rq_sector := rq_sector r + 1\<rparr>) s2;
               s4 = upd_rq cur (\<lambda>r. r\<lparr>rq_buffer := (fst (rq_buffer r), snd (rq_buffer r) + 512)\<rparr>) s3;
               s5 = irq_install_handler 14 Write_intr s4
           in Inr (port_write HD_DATA (rq_buffer (rq_of s5 cur)) s5)
      else do_hd_request (end_request True s2))"

definition recal_intr :: "kst \<Rightarrow> kst kres" where
  "recal_intr s0 =
     (let (bad, s1) = win_result s0
      in if bad then bnd (bad_rw_intr s1) (\<lambda>s2. do_hd_request (print_failed ''reset'' s2))
         else do_hd_request s1)"

definition timer_handler :: "kst \<Rightarrow> kst" where
  "timer_handler s = s\<lparr>drv := (drv s)\<lparr>timer_ticks := timer_ticks (drv s) + 1\<rparr>\<rparr>"

fun run_handler :: "handler \<Rightarrow> kst \<Rightarrow> kst kres" where
  "run_handler Timer_handler s = Inr (timer_handler s)"
| "run_handler Read_intr s = read_intr s"
| "run_handler Write_intr s = write_intr s"
| "run_handler Recal_intr s = recal_intr s"

text \<open>\<open>irq_handler\<close> with the interrupt number of the stub, 32 to 47.\<close>

definition irq_handler :: "nat \<Rightarrow> kst \<Rightarrow> kst kres" where
  "irq_handler int_no s0 =
     (let s1 = (if 40 \<le> int_no then outb 0x20 0xA0 s0 else s0);
          s2 = outb 0x20 0x20 s1
      in case irq_routines (drv s2) (int_no - 32) of
           None \<Rightarrow> Inr s2
         | Some h \<Rightarrow> run_handler h s2)"

text \<open>
  IRQ \<open>i\<close> taken while the kernel runs: the stub pushes \<open>32 + i\<close> with interrupts off and turns them on
  again when it returns.
\<close>

definition interrupt :: "nat \<Rightarrow> kst \<Rightarrow> kst kres" where
  "interrupt i s = bnd (irq_handler (32 + i) (cli s)) (\<lambda>s'. Inr (sti s'))"

end
