(* ===== verification/Request.thy ===== *)
theory Request
  imports Hd
begin

text \<open>
  The request queue (\<open>src/blk/blk_main.c\<close>): the elevator that orders the requests of a device, and
  \<open>ll_rw_block\<close>, which turns a buffer into a request.
\<close>

abbreviation NR_BLK_DEV :: nat where "NR_BLK_DEV \<equiv> 7"
abbreviation NR_REQUEST :: nat where "NR_REQUEST \<equiv> 32"

text \<open>\<open>IN_ORDER\<close> of \<open>src/blk/blk_main.h\<close>: reads before writes, then by device and sector.\<close>

definition IN_ORDER :: "request \<Rightarrow> request \<Rightarrow> bool" where
  "IN_ORDER s1 s2 \<longleftrightarrow>
     rq_cmd s1 < rq_cmd s2 \<or> (rq_cmd s1 = rq_cmd s2 \<and>
       (rq_dev s1 < rq_dev s2 \<or> (rq_dev s1 = rq_dev s2 \<and> rq_sector s1 < rq_sector s2)))"

text \<open>
  The loop of \<open>add_request\<close>: the request after which the new one goes. The fuel is the number of
  requests there are: a longer walk is in a cycle.
\<close>

fun elevator :: "(ptr \<Rightarrow> request) \<Rightarrow> nat \<Rightarrow> ptr \<Rightarrow> ptr \<Rightarrow> ptr kres" where
  "elevator rl 0 tmp req = Inl Hang"
| "elevator rl (Suc n) tmp req =
     (let nx = rq_next (rl tmp)
      in if nx = NULL then Inr tmp
         else if (IN_ORDER (rl tmp) (rl req) \<or> \<not> IN_ORDER (rl tmp) (rl nx)) \<and> IN_ORDER (rl req) (rl nx)
         then Inr tmp
         else elevator rl n nx req)"

text \<open>
  Interrupts that are taken between two instructions, one after the other. \<open>windows\<close> says which ones are taken in the
  three places of \<open>ll_rw_block\<close> outside its wait loop in which interrupts are on: after \<open>lock_buff\<close>, up to the choice
  of a request slot; while the request is filled in, up to the \<open>cli()\<close> of \<open>add_request\<close>; and after the \<open>sti()\<close> before
  the call of \<open>request_fn\<close>. The \<open>sti()\<close> of the other branch of \<open>add_request\<close> is followed by the return.
\<close>

fun interrupts :: "nat list \<Rightarrow> kst \<Rightarrow> kst kres" where
  "interrupts [] s = Inr s"
| "interrupts (i # is) s = bnd (interrupt i s) (interrupts is)"

record windows =
  at_lock :: "nat list"
  at_fill :: "nat list"
  at_start :: "nat list"

definition no_irqs :: windows where
  "no_irqs = \<lparr>at_lock = [], at_fill = [], at_start = []\<rparr>"

definition add_request_irq :: "windows \<Rightarrow> nat \<Rightarrow> ptr \<Rightarrow> kst \<Rightarrow> kst kres" where
  "add_request_irq w dev req s0 =
     (let s1 = cli (upd_rq req (\<lambda>r. r\<lparr>rq_next := NULL\<rparr>) s0);
          s2 = (if rq_bh (rq_of s1 req) \<noteq> NULL
                then upd_bh (rq_bh (rq_of s1 req)) (\<lambda>b. b\<lparr>b_dirt := 0\<rparr>) s1 else s1);
          tmp0 = current_request (drv s2) dev
      in if tmp0 = NULL
         then bnd (interrupts (at_start w) (sti (set_current dev req s2))) (\<lambda>s3.
              if request_fn (drv s3) dev then do_hd_request s3 else Inl Fault)
         else bnd (elevator (request_list (drv s2)) NR_REQUEST tmp0 req) (\<lambda>tmp.
              let s3 = upd_rq req (\<lambda>r. r\<lparr>rq_next := rq_next (rq_of s2 tmp)\<rparr>) s2;
                  s4 = upd_rq tmp (\<lambda>r. r\<lparr>rq_next := req\<rparr>) s3
              in Inr (sti s4)))"

text \<open>The same when no interrupt arrives there.\<close>

definition add_request :: "nat \<Rightarrow> ptr \<Rightarrow> kst \<Rightarrow> kst kres" where
  "add_request = add_request_irq no_irqs"

lemma add_request_eq:
  "add_request dev req s0 =
     (let s1 = cli (upd_rq req (\<lambda>r. r\<lparr>rq_next := NULL\<rparr>) s0);
          s2 = (if rq_bh (rq_of s1 req) \<noteq> NULL
                then upd_bh (rq_bh (rq_of s1 req)) (\<lambda>b. b\<lparr>b_dirt := 0\<rparr>) s1 else s1);
          tmp0 = current_request (drv s2) dev
      in if tmp0 = NULL
         then let s3 = sti (set_current dev req s2)
              in if request_fn (drv s3) dev then do_hd_request s3 else Inl Fault
         else bnd (elevator (request_list (drv s2)) NR_REQUEST tmp0 req) (\<lambda>tmp.
              let s3 = upd_rq req (\<lambda>r. r\<lparr>rq_next := rq_next (rq_of s2 tmp)\<rparr>) s2;
                  s4 = upd_rq tmp (\<lambda>r. r\<lparr>rq_next := req\<rparr>) s3
              in Inr (sti s4)))"
  by (simp add: add_request_def add_request_irq_def no_irqs_def Let_def)

text \<open>\<open>while (--req >= request_list) if (req->dev < 0) break;\<close> from the slot after the \<open>n\<close>-th.\<close>

fun free_slot :: "(ptr \<Rightarrow> request) \<Rightarrow> nat \<Rightarrow> ptr" where
  "free_slot rl 0 = NULL"
| "free_slot rl (Suc n) = (if rq_dev (rl (Suc n)) < 0 then Suc n else free_slot rl n)"

text \<open>Writes may only use the lower two thirds of the slots.\<close>

definition slots_for :: "int \<Rightarrow> nat" where
  "slots_for rw = (if rw = READ then NR_REQUEST else (NR_REQUEST * 2) div 3)"

text \<open>
  A loop of the kernel that spins until an interrupt handler changes what it tests. \<open>body\<close> is what
  the loop does in each round. Interrupts are delivered while they are enabled, in the order the
  devices raise them; when none is left, or they are disabled, the loop never ends. (Rounds in which
  no interrupt arrives change nothing and are left out.)
\<close>

fun spin :: "(kst \<Rightarrow> bool) \<Rightarrow> (kst \<Rightarrow> kst) \<Rightarrow> nat list \<Rightarrow> kst \<Rightarrow> kst kres" where
  "spin done body [] s = (if done s then Inr (s\<lparr>hw := (hw s)\<lparr>irqs := []\<rparr>\<rparr>) else Inl Hang)"
| "spin done body (i # is) s =
     (if done s then Inr (s\<lparr>hw := (hw s)\<lparr>irqs := i # is\<rparr>\<rparr>)
      else let s1 = body s
           in if if_flag (hw s1) then bnd (interrupt i s1) (\<lambda>s2. spin done body is s2) else Inl Hang)"

definition spin_until :: "(kst \<Rightarrow> bool) \<Rightarrow> (kst \<Rightarrow> kst) \<Rightarrow> kst \<Rightarrow> kst kres" where
  "spin_until done body s = spin done body (irqs (hw s)) s"

text \<open>
  \<open>ll_rw_block\<close>. \<open>request_slot\<close> is the part from \<open>repeat\<close> on: it waits for a free slot, unless the
  operation is a read- or write-ahead.
\<close>

definition fill_request :: "int \<Rightarrow> ptr \<Rightarrow> ptr \<Rightarrow> kst \<Rightarrow> kst" where
  "fill_request rw bh req s =
     upd_rq req (\<lambda>r. r\<lparr>rq_dev := uint (b_dev (bh_of s bh)), rq_cmd := rw, rq_errors := 0,
       rq_sector := push_bit 1 (b_blocknr (bh_of s bh)), rq_nr_sectors := 2,
       rq_buffer := (bh, 0), rq_bh := bh, rq_next := NULL\<rparr>) s"

definition has_slot :: "int \<Rightarrow> kst \<Rightarrow> bool" where
  "has_slot rw s \<longleftrightarrow> free_slot (request_list (drv s)) (slots_for rw) \<noteq> NULL"

definition queue_block_irq :: "windows \<Rightarrow> int \<Rightarrow> bool \<Rightarrow> nat \<Rightarrow> ptr \<Rightarrow> kst \<Rightarrow> kst kres" where
  "queue_block_irq w rw rw_ahead major bh s0 =
     (if \<not> has_slot rw s0 \<and> rw_ahead then Inr (unlock_buff bh s0)
      else bnd (spin_until (has_slot rw) (\<lambda>s. s) s0) (\<lambda>s1.
           let req = free_slot (request_list (drv s1)) (slots_for rw)
           in bnd (interrupts (at_fill w) (fill_request rw bh req s1)) (add_request_irq w major req)))"

definition ll_rw_block_irq :: "windows \<Rightarrow> int \<Rightarrow> ptr \<Rightarrow> kst \<Rightarrow> kst kres" where
  "ll_rw_block_irq w rw0 bh s0 =
     (let major = MAJOR (uint (b_dev (bh_of s0 bh)))
      in if NR_BLK_DEV \<le> major \<or> \<not> request_fn (drv s0) major
         then Inr (printk (''Trying to read nonexistent block-device'' @ NLCR) [] s0)
      else let rw_ahead = (rw0 = READA \<or> rw0 = WRITEA)
      in if rw_ahead \<and> b_lock (bh_of s0 bh) \<noteq> 0 then Inr s0
      else let rw = (if rw_ahead then (if rw0 = READA then READ else WRITE) else rw0)
      in if rw \<noteq> READ \<and> rw \<noteq> WRITE then Inl (Panic ''Bad block dev command, must be R/W/RA/WA'')
      else bnd (interrupts (at_lock w) (lock_buff bh s0)) (\<lambda>s1.
           let b = bh_of s1 bh
           in if (rw = WRITE \<and> b_dirt b = 0) \<or> (rw = READ \<and> b_uptodate b \<noteq> 0)
              then Inr (unlock_buff bh (printk (''read|write:%d dirt:%d uptodate:%d'' @ NLCR)
                          [ArgI (word_of_int rw), ArgI (ucast (b_dirt b)), ArgI (ucast (b_uptodate b))] s1))
              else queue_block_irq w rw rw_ahead major bh s1))"

text \<open>Without interrupts but in the wait loop, which is how the operations of the cache call it.\<close>

definition queue_block :: "int \<Rightarrow> bool \<Rightarrow> nat \<Rightarrow> ptr \<Rightarrow> kst \<Rightarrow> kst kres" where
  "queue_block = queue_block_irq no_irqs"

definition ll_rw_block :: "int \<Rightarrow> ptr \<Rightarrow> kst \<Rightarrow> kst kres" where
  "ll_rw_block = ll_rw_block_irq no_irqs"

lemma queue_block_eq:
  "queue_block rw rw_ahead major bh s0 =
     (if \<not> has_slot rw s0 \<and> rw_ahead then Inr (unlock_buff bh s0)
      else bnd (spin_until (has_slot rw) (\<lambda>s. s) s0) (\<lambda>s1.
           let req = free_slot (request_list (drv s1)) (slots_for rw)
           in add_request major req (fill_request rw bh req s1)))"
  by (simp add: queue_block_def queue_block_irq_def add_request_def) (simp add: no_irqs_def)

lemma ll_rw_block_eq:
  "ll_rw_block rw0 bh s0 =
     (let major = MAJOR (uint (b_dev (bh_of s0 bh)))
      in if NR_BLK_DEV \<le> major \<or> \<not> request_fn (drv s0) major
         then Inr (printk (''Trying to read nonexistent block-device'' @ NLCR) [] s0)
      else let rw_ahead = (rw0 = READA \<or> rw0 = WRITEA)
      in if rw_ahead \<and> b_lock (bh_of s0 bh) \<noteq> 0 then Inr s0
      else let rw = (if rw_ahead then (if rw0 = READA then READ else WRITE) else rw0)
      in if rw \<noteq> READ \<and> rw \<noteq> WRITE then Inl (Panic ''Bad block dev command, must be R/W/RA/WA'')
      else let s1 = lock_buff bh s0; b = bh_of s1 bh
      in if (rw = WRITE \<and> b_dirt b = 0) \<or> (rw = READ \<and> b_uptodate b \<noteq> 0)
         then Inr (unlock_buff bh (printk (''read|write:%d dirt:%d uptodate:%d'' @ NLCR)
                     [ArgI (word_of_int rw), ArgI (ucast (b_dirt b)), ArgI (ucast (b_uptodate b))] s1))
      else queue_block rw rw_ahead major bh s1)"
  by (simp add: ll_rw_block_def ll_rw_block_irq_def queue_block_def Let_def) (simp add: no_irqs_def)

fun init_requests :: "nat \<Rightarrow> kst \<Rightarrow> kst" where
  "init_requests 0 s = s"
| "init_requests (Suc i) s = upd_rq (Suc i) (\<lambda>r. r\<lparr>rq_dev := -1, rq_next := NULL\<rparr>) (init_requests i s)"

definition init_request_queue :: "kst \<Rightarrow> kst" where
  "init_request_queue s = init_requests NR_REQUEST s"

end
