(* ===== verification/Buffer.thy ===== *)
theory Buffer
  imports Request Cache_Spec
begin

text \<open>
  The buffer operations that may wait for the disk (\<open>src/blk/buffer.c\<close>): waiting for a locked
  buffer, writing dirty buffers back, and getting, reading, releasing and invalidating buffers.
\<close>

definition set_cache :: "cache \<Rightarrow> kst \<Rightarrow> kst" where
  "set_cache c s = s\<lparr>cache := c\<rparr>"

text \<open>
  \<open>wait_on_buff\<close>: with the call to \<open>sleep_on\<close> commented out, \<open>sti()\<close> is the body of the loop, so a
  buffer that is not locked leaves interrupts off.
\<close>

definition wait_on_buff :: "ptr \<Rightarrow> kst \<Rightarrow> kst kres" where
  "wait_on_buff bh s = spin_until (\<lambda>s. b_lock (bh_of s bh) = 0) sti (cli s)"

text \<open>\<open>sync_dev\<close>: the loop over the buffers, from the \<open>i\<close>-th of the last \<open>n\<close>.\<close>

fun sync_loop :: "nat \<Rightarrow> ptr \<Rightarrow> u32 \<Rightarrow> kst \<Rightarrow> kst kres" where
  "sync_loop 0 bh dev s = Inr s"
| "sync_loop (Suc n) bh dev s =
     (if ucast (b_dev (bh_of s bh)) \<noteq> dev then sync_loop n (bh + 1) dev s
      else bnd (wait_on_buff bh s) (\<lambda>s1.
           bnd (if ucast (b_dev (bh_of s1 bh)) = dev \<and> b_dirt (bh_of s1 bh) \<noteq> 0 then ll_rw_block WRITE bh s1 else Inr s1)
             (sync_loop n (bh + 1) dev)))"

definition sync_dev :: "u32 \<Rightarrow> kst \<Rightarrow> kst kres" where
  "sync_dev dev s = sync_loop (NR_BUFFERS (cache s)) 1 dev s"

text \<open>\<open>retain_buff\<close>; a failed recheck starts over. The fuel is discussed at \<open>get_buff\<close>.\<close>

fun retain_loop :: "nat \<Rightarrow> u32 \<Rightarrow> u32 \<Rightarrow> kst \<Rightarrow> (ptr \<times> kst) kres" where
  "retain_loop 0 dev block s = Inl Hang"
| "retain_loop (Suc n) dev block s =
     bnd (find_buff dev block (cache s)) (\<lambda>bh.
       if bh = NULL then Inr (NULL, s)
       else bnd (wait_on_buff bh s) (\<lambda>s1.
         if ucast (b_dev (bh_of s1 bh)) \<noteq> dev \<or> b_blocknr (bh_of s1 bh) \<noteq> block
         then retain_loop n dev block s1
         else Inr (bh, upd_bh bh (\<lambda>b. b\<lparr>b_count := b_count b + 1\<rparr>) s1)))"

definition retain_buff :: "u32 \<Rightarrow> u32 \<Rightarrow> kst \<Rightarrow> (ptr \<times> kst) kres" where
  "retain_buff dev block s = retain_loop 2 dev block s"

text \<open>\<open>put_buff\<close>: the count is decremented even when the panic follows.\<close>

definition put_buff :: "ptr \<Rightarrow> kst \<Rightarrow> kst kres" where
  "put_buff buf s =
     (if buf = NULL then Inr s
      else bnd (wait_on_buff buf s) (\<lambda>s1.
        if b_count (bh_of s1 buf) = 0 then Inl (Panic ''Trying to free free buffer'')
        else Inr (upd_bh buf (\<lambda>b. b\<lparr>b_count := b_count b - 1\<rparr>) s1)))"

definition invalidate_buff :: "u32 \<Rightarrow> u32 \<Rightarrow> kst \<Rightarrow> kst kres" where
  "invalidate_buff dev block s =
     bnd (retain_buff dev block s) (\<lambda>(bh, s1).
       if bh = NULL then Inr s1
       else if b_count (bh_of s1 bh) \<noteq> 1
       then Inr (printk (''trying to free block (%04x:%d), count=%d'' @ NL)
              [ArgI dev, ArgI block, ArgI (ucast (b_count (bh_of s1 bh)))] s1)
       else put_buff bh (upd_bh bh (\<lambda>b. b\<lparr>b_dirt := 0, b_uptodate := 0\<rparr>) s1))"

fun invalidate_loop :: "nat \<Rightarrow> ptr \<Rightarrow> u32 \<Rightarrow> kst \<Rightarrow> kst kres" where
  "invalidate_loop 0 bh dev s = Inr s"
| "invalidate_loop (Suc n) bh dev s =
     (if ucast (b_dev (bh_of s bh)) = dev
      then bnd (wait_on_buff bh s) (\<lambda>s1.
           invalidate_loop n (bh + 1) dev
             (if ucast (b_dev (bh_of s1 bh)) = dev then upd_bh bh (\<lambda>b. b\<lparr>b_dirt := 0, b_uptodate := 0\<rparr>) s1 else s1))
      else invalidate_loop n (bh + 1) dev s)"

definition invalidate_buffs :: "u32 \<Rightarrow> kst \<Rightarrow> kst kres" where
  "invalidate_buffs dev s = invalidate_loop (NR_BUFFERS (cache s)) 1 dev s"

text \<open>
  \<open>new_buff\<close>. The loop \<open>while (bh->b_dirt)\<close> runs \<open>sync_dev\<close> until the buffer is clean; it needs two
  rounds at most unless \<open>ll_rw_block\<close> refuses the buffer's device, and then the loop never ends.
\<close>

fun clean_loop :: "nat \<Rightarrow> ptr \<Rightarrow> kst \<Rightarrow> (bool \<times> kst) kres" where
  "clean_loop 0 bh s = Inl Hang"
| "clean_loop (Suc n) bh s =
     (if b_dirt (bh_of s bh) = 0 then Inr (True, s)
      else bnd (sync_dev (ucast (b_dev (bh_of s bh))) s) (\<lambda>s1.
           bnd (wait_on_buff bh s1) (\<lambda>s2.
             if b_count (bh_of s2 bh) \<noteq> 0 then Inr (False, s2) else clean_loop n bh s2)))"

definition new_buff :: "u32 \<Rightarrow> u32 \<Rightarrow> kst \<Rightarrow> (ptr \<times> kst) kres" where
  "new_buff dev block s0 =
     bnd (scan_free (cache s0) (NR_BUFFERS (cache s0)) (free_list (cache s0)) NULL) (\<lambda>bh.
       if bh = NULL then Inr (NULL, s0)
       else bnd (wait_on_buff bh s0) (\<lambda>s1.
       if b_count (bh_of s1 bh) \<noteq> 0 then Inr (NULL, s1)
       else bnd (clean_loop 2 bh s1) (\<lambda>(clean, s2).
       if \<not> clean then Inr (NULL, s2)
       else bnd (find_buff dev block (cache s2)) (\<lambda>other.
       if other \<noteq> NULL then Inr (NULL, printk ''buff bad luck'' [] s2)
       else bnd (reuse_buff bh dev block (cache s2)) (\<lambda>c.
       Inr (bh, set_cache c s2))))))"

text \<open>
  \<open>get_buff\<close> tries \<open>retain_buff\<close> and \<open>new_buff\<close> in turn until one of them gives a buffer. Nothing but
  this loop changes the reference counts while it runs, so a round in which every buffer is in use
  is followed by the same round for ever: two rounds decide.
\<close>

fun get_loop :: "nat \<Rightarrow> u32 \<Rightarrow> u32 \<Rightarrow> kst \<Rightarrow> (ptr \<times> kst) kres" where
  "get_loop 0 dev block s = Inl Hang"
| "get_loop (Suc n) dev block s =
     bnd (retain_buff dev block s) (\<lambda>(bh, s1).
     bnd (if bh = NULL then new_buff dev block s1 else Inr (bh, s1)) (\<lambda>(bh, s2).
     if bh = NULL then get_loop n dev block s2 else Inr (bh, s2)))"

definition get_buff :: "u32 \<Rightarrow> u32 \<Rightarrow> kst \<Rightarrow> (ptr \<times> kst) kres" where
  "get_buff dev block s = get_loop 2 dev block s"

definition read_buff :: "u32 \<Rightarrow> u32 \<Rightarrow> kst \<Rightarrow> (ptr \<times> kst) kres" where
  "read_buff dev block s0 =
     bnd (get_buff dev block s0) (\<lambda>(bh, s1).
     if bh = NULL then Inl (Panic (''read_buff: get_buff returned NULL'' @ NL))
     else if b_uptodate (bh_of s1 bh) \<noteq> 0 then Inr (bh, s1)
     else bnd (ll_rw_block READ bh s1) (\<lambda>s2.
          bnd (wait_on_buff bh s2) (\<lambda>s3.
          if b_uptodate (bh_of s3 bh) = 0 then bnd (put_buff bh s3) (\<lambda>s4. Inr (NULL, s4))
          else Inr (bh, s3))))"

text \<open>
  \<open>read_buff_page\<close>: the four buffers are requested first and copied afterwards. \<open>copy\<close> is what
  \<open>COPYBLK\<close> does with a block and the index of its target page quarter.
\<close>

fun page_request :: "u32 \<Rightarrow> u32 list \<Rightarrow> kst \<Rightarrow> (ptr list \<times> kst) kres" where
  "page_request dev [] s = Inr ([], s)"
| "page_request dev (b # bs) s =
     bnd (if b \<noteq> 0
          then bnd (get_buff dev b s) (\<lambda>(bh, s1).
               bnd (if b_uptodate (bh_of s1 bh) = 0 then ll_rw_block READ bh s1 else Inr s1)
                 (\<lambda>s2. Inr (bh, s2)))
          else Inr (NULL, s)) (\<lambda>(bh, s3).
     bnd (page_request dev bs s3) (\<lambda>(bhs, s4). Inr (bh # bhs, s4)))"

fun page_copy :: "nat \<Rightarrow> (nat \<Rightarrow> (nat \<Rightarrow> u8) \<Rightarrow> 'm \<Rightarrow> 'm) \<Rightarrow> ptr list \<Rightarrow> 'm \<times> kst \<Rightarrow> ('m \<times> kst) kres" where
  "page_copy i copy [] ms = Inr ms"
| "page_copy i copy (bh # bhs) ms =
     bnd (if bh = NULL then Inr ms
          else bnd (wait_on_buff bh (snd ms)) (\<lambda>s1.
               let m1 = (if b_uptodate (bh_of s1 bh) \<noteq> 0 then copy i (bdata (cache s1) bh) (fst ms) else fst ms)
               in bnd (put_buff bh s1) (\<lambda>s2. Inr (m1, s2))))
       (page_copy (i + 1) copy bhs)"

definition read_buff_page ::
  "(nat \<Rightarrow> (nat \<Rightarrow> u8) \<Rightarrow> 'm \<Rightarrow> 'm) \<Rightarrow> 'm \<Rightarrow> u32 \<Rightarrow> u32 list \<Rightarrow> kst \<Rightarrow> ('m \<times> kst) kres" where
  "read_buff_page copy m dev b s =
     bnd (page_request dev (take 4 b) s) (\<lambda>(bhs, s1). page_copy 0 copy bhs (m, s1))"

text \<open>
  \<open>read_buff_ahead\<close> with its variable arguments as a list. The list ends at the first argument that is
  not below \<open>MAX_HD\<close> (2) as an unsigned number; running off it reads the stack.
\<close>

fun ahead_loop :: "u32 \<Rightarrow> u32 list \<Rightarrow> kst \<Rightarrow> kst kres" where
  "ahead_loop dev [] s = Inl Fault"
| "ahead_loop dev (first # args) s =
     (if first < 2
      then bnd (get_buff dev first s) (\<lambda>(tmp, s1).
           bnd (if tmp \<noteq> NULL
                then bnd (if b_uptodate (bh_of s1 tmp) = 0 then ll_rw_block READA tmp s1 else Inr s1)
                       (\<lambda>s2. Inr (upd_bh tmp (\<lambda>b. b\<lparr>b_count := b_count b - 1\<rparr>) s2))
                else Inr s1) (ahead_loop dev args))
      else Inr s)"

definition read_buff_ahead :: "u32 \<Rightarrow> u32 \<Rightarrow> u32 list \<Rightarrow> kst \<Rightarrow> (ptr \<times> kst) kres" where
  "read_buff_ahead dev first args s0 =
     bnd (get_buff dev first s0) (\<lambda>(bh, s1).
     if bh = NULL then Inl (Panic (''bread: get_buff returned NULL'' @ NL))
     else bnd (if b_uptodate (bh_of s1 bh) = 0 then ll_rw_block READ bh s1 else Inr s1) (\<lambda>s2.
          bnd (ahead_loop dev args s2) (\<lambda>s3.
          bnd (wait_on_buff bh s3) (\<lambda>s4.
          if b_uptodate (bh_of s4 bh) \<noteq> 0 then Inr (bh, s4)
          else bnd (put_buff bh s4) (\<lambda>s5. Inr (NULL, s5))))))"

end
