(* ===== verification/Hd_Inv.thy ===== *)
theory Hd_Inv
  imports Request
begin

text \<open>
  The invariant of the request queue and the driver, which every handler keeps, whatever the
  hardware answers. \<open>q\<close> is the queue of the disk and \<open>L\<close> the buffers that are locked but not queued
  yet: \<open>ll_rw_block\<close> locks its buffer before it waits for a free request. Under the invariant none of the driver's own sanity panics can happen, data
  is only transferred inside the 1024 bytes of a buffer that is locked for it, and buffers that are
  not being transferred are left alone.
\<close>

section \<open>The invariant\<close>

definition req_ok :: "kst \<Rightarrow> ptr \<Rightarrow> bool" where
  "req_ok s i \<longleftrightarrow>
     (let r = rq_of s i; b = bh_of s (rq_bh r)
      in rq_bh r \<in> buffers (cache s) \<and> b_lock b \<noteq> 0 \<and> (rq_cmd r = READ \<or> rq_cmd r = WRITE) \<and>
         rq_dev r = uint (b_dev b) \<and> MAJOR (rq_dev r) = MAJOR_NR \<and>
         0 \<le> rq_errors r \<and> rq_errors r < MAX_ERRORS \<and>
         (rq_nr_sectors r = 2 \<and> rq_buffer r = (rq_bh r, 0) \<and> rq_sector r = push_bit 1 (b_blocknr b) \<or>
          rq_nr_sectors r = 1 \<and> rq_buffer r = (rq_bh r, 512) \<and> rq_sector r = push_bit 1 (b_blocknr b) + 1))"

definition queue_inv :: "ptr set \<Rightarrow> kst \<Rightarrow> ptr list \<Rightarrow> bool" where
  "queue_inv L s q \<longleftrightarrow>
     slist (\<lambda>i. rq_next (rq_of s i)) (CURRENT s) q \<and> distinct q \<and>
     set q = {i \<in> {1..NR_REQUEST}. 0 \<le> rq_dev (rq_of s i)} \<and>
     (\<forall>i \<in> set q. req_ok s i) \<and> inj_on (\<lambda>i. rq_bh (rq_of s i)) (set q) \<and>
     (\<forall>p \<in> buffers (cache s). b_lock (bh_of s p) \<noteq> 0 \<longrightarrow> p \<in> L \<or> (\<exists>i \<in> set q. rq_bh (rq_of s i) = p)) \<and>
     (\<forall>p \<in> L. b_lock (bh_of s p) \<noteq> 0 \<and> (\<forall>i \<in> set q. rq_bh (rq_of s i) \<noteq> p)) \<and>
     (\<forall>m. m \<noteq> MAJOR_NR \<longrightarrow> current_request (drv s) m = NULL \<and> \<not> request_fn (drv s) m)"

lemma queue_invD:
  assumes "queue_inv L s q"
  shows "slist (\<lambda>i. rq_next (rq_of s i)) (CURRENT s) q" "distinct q"
    "set q = {i \<in> {1..NR_REQUEST}. 0 \<le> rq_dev (rq_of s i)}"
    "\<And>i. i \<in> set q \<Longrightarrow> req_ok s i" "inj_on (\<lambda>i. rq_bh (rq_of s i)) (set q)"
    "\<And>p. p \<in> buffers (cache s) \<Longrightarrow> b_lock (bh_of s p) \<noteq> 0 \<Longrightarrow> p \<in> L \<or> (\<exists>i \<in> set q. rq_bh (rq_of s i) = p)"
    "\<And>m. m \<noteq> MAJOR_NR \<Longrightarrow> current_request (drv s) m = NULL \<and> \<not> request_fn (drv s) m"
    "\<And>p. p \<in> L \<Longrightarrow> b_lock (bh_of s p) \<noteq> 0 \<and> (\<forall>i \<in> set q. rq_bh (rq_of s i) \<noteq> p)"
  using assms unfolding queue_inv_def by blast+

lemma queue_inv_current: "queue_inv L s q \<Longrightarrow> CURRENT s = (if q = [] then NULL else hd q)"
  by (cases q) (auto simp: queue_inv_def)

lemma queue_inv_head:
  assumes "queue_inv L s (i # q)"
  shows "CURRENT s = i" "i \<noteq> NULL" "req_ok s i"
  using queue_invD(1,4) [OF assms] by auto

lemma req_okD:
  assumes "req_ok s i"
  shows "rq_bh (rq_of s i) \<in> buffers (cache s)" "b_lock (bh_of s (rq_bh (rq_of s i))) \<noteq> 0"
    "rq_bh (rq_of s i) \<noteq> NULL"
    "rq_cmd (rq_of s i) = READ \<or> rq_cmd (rq_of s i) = WRITE" "MAJOR (rq_dev (rq_of s i)) = MAJOR_NR"
    "0 \<le> rq_errors (rq_of s i)" "rq_errors (rq_of s i) < MAX_ERRORS"
    "fst (rq_buffer (rq_of s i)) = rq_bh (rq_of s i)"
    "rq_nr_sectors (rq_of s i) = 2 \<and> snd (rq_buffer (rq_of s i)) = 0 \<or>
     rq_nr_sectors (rq_of s i) = 1 \<and> snd (rq_buffer (rq_of s i)) = 512"
    "0 \<le> rq_dev (rq_of s i)"
  using assms by (auto simp: req_ok_def Let_def buffers_def)

text \<open>The parts of the state the invariant reads.\<close>

definition same_queue :: "kst \<Rightarrow> kst \<Rightarrow> bool" where
  "same_queue s t \<longleftrightarrow>
     request_list (drv s) = request_list (drv t) \<and> current_request (drv s) = current_request (drv t) \<and>
     request_fn (drv s) = request_fn (drv t) \<and> NR_BUFFERS (cache s) = NR_BUFFERS (cache t) \<and>
     (\<forall>p. b_lock (bh_of s p) = b_lock (bh_of t p) \<and> b_dev (bh_of s p) = b_dev (bh_of t p) \<and>
          b_blocknr (bh_of s p) = b_blocknr (bh_of t p))"

lemma queue_inv_same: "same_queue s t \<Longrightarrow> queue_inv L s q = queue_inv L t q"
  by (simp add: same_queue_def queue_inv_def req_ok_def CURRENT_def buffers_def Let_def)

text \<open>Changing the progress of the request at the head.\<close>

definition head_upd :: "kst \<Rightarrow> kst \<Rightarrow> ptr \<Rightarrow> request \<Rightarrow> bool" where
  "head_upd s t i r \<longleftrightarrow>
     request_list (drv t) = (request_list (drv s))(i := r) \<and>
     rq_bh r = rq_bh (rq_of s i) \<and> rq_next r = rq_next (rq_of s i) \<and> rq_dev r = rq_dev (rq_of s i) \<and>
     current_request (drv t) = current_request (drv s) \<and> request_fn (drv t) = request_fn (drv s) \<and>
     NR_BUFFERS (cache t) = NR_BUFFERS (cache s) \<and>
     (\<forall>p. b_lock (bh_of t p) = b_lock (bh_of s p) \<and> b_dev (bh_of t p) = b_dev (bh_of s p) \<and>
          b_blocknr (bh_of t p) = b_blocknr (bh_of s p))"

lemma queue_inv_progress:
  assumes q: "queue_inv L s (i # q)" and hu: "head_upd s t i r" and ok: "req_ok t i"
  shows "queue_inv L t (i # q)"
proof -
  note Q = queue_invD [OF q]
  have rl: "request_list (drv t) = (request_list (drv s))(i := r)"
    and r: "rq_bh r = rq_bh (rq_of s i)" "rq_next r = rq_next (rq_of s i)" "rq_dev r = rq_dev (rq_of s i)"
    and same: "current_request (drv t) = current_request (drv s)" "request_fn (drv t) = request_fn (drv s)"
      "NR_BUFFERS (cache t) = NR_BUFFERS (cache s)"
      "\<And>p. b_lock (bh_of t p) = b_lock (bh_of s p) \<and> b_dev (bh_of t p) = b_dev (bh_of s p) \<and>
          b_blocknr (bh_of t p) = b_blocknr (bh_of s p)"
    using hu by (auto simp: head_upd_def)
  have nx: "(\<lambda>j. rq_next (rq_of t j)) = (\<lambda>j. rq_next (rq_of s j))" using rl r by auto
  have bh: "rq_bh (rq_of t j) = rq_bh (rq_of s j)" for j using rl r by auto
  have cur: "CURRENT t = CURRENT s" using same by (simp add: CURRENT_def)
  have B: "buffers (cache t) = buffers (cache s)" using same by (simp add: buffers_def)
  have dev: "0 \<le> rq_dev (rq_of t j) \<longleftrightarrow> 0 \<le> rq_dev (rq_of s j)" for j
    using rl r by auto
  have ok': "req_ok t j" if "j \<in> set (i # q)" for j
  proof (cases "j = i")
    case False
    have "rq_of t j = rq_of s j" using rl False by simp
    then show ?thesis using Q(4) [OF that] same B by (auto simp: req_ok_def Let_def)
  qed (use ok in simp)
  show ?thesis
    unfolding queue_inv_def nx bh cur B dev same(1,2)
  proof (intro conjI)
    show "\<forall>i \<in> set (i # q). req_ok t i" using ok' by blast
    show "\<forall>p \<in> L. b_lock (bh_of t p) \<noteq> 0 \<and> (\<forall>j \<in> set (i # q). rq_bh (rq_of s j) \<noteq> p)"
      using Q(8) same(4) by auto
    show "\<forall>p \<in> buffers (cache s). b_lock (bh_of t p) \<noteq> 0 \<longrightarrow> p \<in> L \<or> (\<exists>j \<in> set (i # q). rq_bh (rq_of s j) = p)"
    proof (intro ballI impI)
      fix p assume "p \<in> buffers (cache s)" "b_lock (bh_of t p) \<noteq> 0"
      then show "p \<in> L \<or> (\<exists>j \<in> set (i # q). rq_bh (rq_of s j) = p)" using Q(6) [of p] same(4) [of p] by simp
    qed
    show "\<forall>m. m \<noteq> MAJOR_NR \<longrightarrow> current_request (drv s) m = NULL \<and> \<not> request_fn (drv s) m"
      using Q(7) by blast
  qed (fact Q)+
qed

section \<open>What the driver may change\<close>

definition quiet_bh :: "buffer_head \<Rightarrow> buffer_head" where
  "quiet_bh b = b\<lparr>b_uptodate := 0, b_lock := 0\<rparr>"

definition drv_frame :: "kst \<Rightarrow> kst \<Rightarrow> bool" where
  "drv_frame s t \<longleftrightarrow>
     (\<forall>p. quiet_bh (bh_of t p) = quiet_bh (bh_of s p)) \<and>
     (\<forall>p. b_lock (bh_of s p) = 0 \<longrightarrow> bh_of t p = bh_of s p \<and> bdata (cache t) p = bdata (cache s) p) \<and>
     hash_table (cache t) = hash_table (cache s) \<and> free_list (cache t) = free_list (cache s) \<and>
     NR_BUFFERS (cache t) = NR_BUFFERS (cache s) \<and>
     hd_info (drv t) = hd_info (drv s) \<and> NR_HD (drv t) = NR_HD (drv s) \<and>
     partition_info (drv t) = partition_info (drv s) \<and> request_fn (drv t) = request_fn (drv s) \<and>
     callable (drv t) = callable (drv s) \<and> timer_ticks (drv t) = timer_ticks (drv s) \<and>
     (\<forall>j. j \<noteq> 14 \<longrightarrow> irq_routines (drv t) j = irq_routines (drv s) j) \<and>
     inb_val (hw t) = inb_val (hw s) \<and> insw_val (hw t) = insw_val (hw s) \<and> irqs (hw t) = irqs (hw s) \<and>
     if_flag (hw t) = if_flag (hw s)"

lemma drv_frame_refl [simp]: "drv_frame s s"
  by (simp add: drv_frame_def)

lemma drv_frame_trans: "drv_frame s t \<Longrightarrow> drv_frame t u \<Longrightarrow> drv_frame s u"
  by (simp add: drv_frame_def)

lemma quiet_fields:
  assumes "quiet_bh b = quiet_bh b'"
  shows "b_dev b = b_dev b'" "b_blocknr b = b_blocknr b'" "b_count b = b_count b'"
    "b_dirt b = b_dirt b'" "b_next b = b_next b'" "b_prev b = b_prev b'"
    "b_next_free b = b_next_free b'" "b_prev_free b = b_prev_free b'" "b_data b = b_data b'"
  using assms by (cases b; cases b'; simp add: quiet_bh_def)+

lemma drv_frame_fields:
  assumes "drv_frame s t"
  shows "b_dev (bh_of t p) = b_dev (bh_of s p)" "b_blocknr (bh_of t p) = b_blocknr (bh_of s p)"
    "b_count (bh_of t p) = b_count (bh_of s p)" "b_dirt (bh_of t p) = b_dirt (bh_of s p)"
    "buffers (cache t) = buffers (cache s)"
    "b_lock (bh_of s p) = 0 \<Longrightarrow> bh_of t p = bh_of s p \<and> bdata (cache t) p = bdata (cache s) p"
  using assms quiet_fields [of "bh_of t p" "bh_of s p"] by (auto simp: drv_frame_def buffers_def)

text \<open>The geometry the driver relies on: the drives found at boot have sectors and 1 to 16 heads.\<close>

definition geom_ok :: "kst \<Rightarrow> bool" where
  "geom_ok s \<longleftrightarrow> NR_HD (drv s) \<le> 2 \<and>
     (\<forall>d < NR_HD (drv s). hd_sect (hd_info (drv s) d) \<noteq> 0 \<and>
        1 \<le> hd_head (hd_info (drv s) d) \<and> hd_head (hd_info (drv s) d) \<le> 16)"

text \<open>
  How a request can stop the kernel where the geometry is none: by a division by zero if the drive of the request
  has no sectors or no heads, and otherwise by the check of \<open>hd_out\<close> if it has more than 16 heads or is not one
  of the first two drives.
\<close>

abbreviation bad_sector :: stop where
  "bad_sector \<equiv> Panic ''Trying to write bad sector''"

definition geom_stop :: "kst \<Rightarrow> stop \<Rightarrow> bool" where
  "geom_stop s e \<longleftrightarrow> (\<exists>d < NR_HD (drv s). let g = hd_info (drv s) d in
     if hd_sect g = 0 \<or> hd_head g = 0 then e = DivideError else e = bad_sector \<and> (1 < d \<or> 16 < hd_head g))"

lemma geom_stopI:
  assumes "d < NR_HD (drv s)" "g = hd_info (drv s) d"
  shows "hd_sect g = 0 \<or> hd_head g = 0 \<Longrightarrow> geom_stop s DivideError"
    "hd_sect g \<noteq> 0 \<Longrightarrow> hd_head g \<noteq> 0 \<Longrightarrow> 1 < d \<or> 16 < hd_head g \<Longrightarrow> geom_stop s bad_sector"
  using assms by (auto simp: geom_stop_def Let_def)

lemma geom_ok_stop: "geom_ok s \<Longrightarrow> \<not> geom_stop s e"
  unfolding geom_ok_def geom_stop_def Let_def
  by (auto split: if_splits dest: less_le_trans)

lemma geom_ok_frame: "drv_frame s t \<Longrightarrow> geom_ok t = geom_ok s" "drv_frame s t \<Longrightarrow> geom_stop t = geom_stop s"
  by (simp_all add: drv_frame_def geom_ok_def geom_stop_def fun_eq_iff)

text \<open>Steps that only talk to the hardware or write the log.\<close>

definition drv_core :: "driver \<Rightarrow> driver" where
  "drv_core d = d\<lparr>irq_routines := (irq_routines d)(14 := None), recalibrate := False, reset := False\<rparr>"

definition hw_core :: "hardware \<Rightarrow> hardware" where
  "hw_core h = h\<lparr>io_clock := 0, io_out := []\<rparr>"

definition io_only :: "kst \<Rightarrow> kst \<Rightarrow> bool" where
  "io_only s t \<longleftrightarrow> cache t = cache s \<and> drv_core (drv t) = drv_core (drv s) \<and> hw_core (hw t) = hw_core (hw s)"

lemma io_only_refl [simp]: "io_only s s"
  by (simp add: io_only_def)

lemma io_only_trans: "io_only s t \<Longrightarrow> io_only t u \<Longrightarrow> io_only s u"
  by (simp add: io_only_def)

lemma drv_core_fields:
  assumes "drv_core d = drv_core e"
  shows "request_list d = request_list e" "current_request d = current_request e"
    "request_fn d = request_fn e" "hd_info d = hd_info e" "NR_HD d = NR_HD e"
    "partition_info d = partition_info e" "callable d = callable e" "timer_ticks d = timer_ticks e"
    "\<And>j. j \<noteq> 14 \<Longrightarrow> irq_routines d j = irq_routines e j"
proof -
  show "irq_routines d j = irq_routines e j" if "j \<noteq> 14" for j
    using assms that by (cases d; cases e) (auto simp: drv_core_def dest!: fun_cong [where x = j] split: if_splits)
qed (use assms in \<open>cases d; cases e; simp add: drv_core_def\<close>)+

lemma hw_core_fields:
  assumes "hw_core d = hw_core e"
  shows "inb_val d = inb_val e" "insw_val d = insw_val e" "if_flag d = if_flag e" "irqs d = irqs e"
  using assms by (cases d; cases e; simp add: hw_core_def)+

lemma io_only_frame:
  assumes "io_only s t"
  shows "drv_frame s t" "same_queue t s" "CURRENT t = CURRENT s" "request_list (drv t) = request_list (drv s)"
    "cache t = cache s"
  using assms drv_core_fields [of "drv t" "drv s"] hw_core_fields [of "hw t" "hw s"]
  by (auto simp: io_only_def drv_frame_def same_queue_def CURRENT_def)

lemma io_only_inv: "io_only s t \<Longrightarrow> queue_inv L t q = queue_inv L s q"
  using io_only_frame(2) queue_inv_same by blast

named_theorems io_steps "operations that only talk to the hardware"

lemma io_inb [io_steps]: "io_only s (snd (inb p s))"
  by (simp add: io_only_def inb_def hw_core_def)

lemma io_outb [io_steps]: "io_only s (outb v p s)"
  by (simp add: io_only_def outb_def hw_core_def)

lemma io_printk [io_steps]: "io_only s (printk f a s)"
  by (simp add: io_only_def printk_def)

lemma io_port_write [io_steps]: "io_only s (port_write p b s)"
  by (cases b) (simp add: io_only_def port_write_def hw_core_def)

lemma io_install [io_steps]: "io_only s (irq_install_handler 14 h s)"
  by (simp add: io_only_def irq_install_handler_def drv_core_def)

lemma io_flags [io_steps]:
  "io_only s (s\<lparr>drv := (drv s)\<lparr>reset := a, recalibrate := b\<rparr>\<rparr>)"
  "io_only s (s\<lparr>drv := (drv s)\<lparr>recalibrate := b\<rparr>\<rparr>)"
  "io_only s (s\<lparr>drv := (drv s)\<lparr>reset := a\<rparr>\<rparr>)"
  by (simp_all add: io_only_def drv_core_def)

lemma io_inb_pair: "inb p s = (v, t) \<Longrightarrow> io_only s t"
  using io_inb [of s p] by simp

lemma io_win_result [io_steps]: "io_only s (snd (win_result s))"
proof -
  obtain i s1 where 1: "inb HD_STATUS s = (i, s1)" by (cases "inb HD_STATUS s")
  note a = io_inb_pair [OF 1] and b = io_inb [of s1 HD_ERROR]
  show ?thesis using a io_only_trans [OF a b] by (auto simp: win_result_def 1)
qed

lemma io_controller_poll [io_steps]: "io_only s (snd (controller_poll n s))"
proof (induction n s rule: controller_poll.induct)
  case (2 n s)
  obtain v s1 where 1: "inb HD_STATUS s = (v, s1)" by (cases "inb HD_STATUS s")
  note a = io_inb_pair [OF 1]
  show ?case using 2 [OF _ 1 [symmetric] refl] io_only_trans [OF a] a by (auto simp: 1)
qed simp

lemma io_busy_poll [io_steps]: "io_only s (busy_poll n s)"
proof (induction n s rule: busy_poll.induct)
  case (2 n s)
  obtain v s1 where 1: "inb HD_STATUS s = (v, s1)" by (cases "inb HD_STATUS s")
  note a = io_inb_pair [OF 1]
  show ?case using 2 [OF 1 [symmetric] refl] io_only_trans [OF a] a by (auto simp: 1)
qed simp

lemma io_drive_busy [io_steps]: "io_only s (snd (drive_busy s))"
proof -
  obtain i s1 where 1: "inb HD_STATUS (busy_poll 10000 s) = (i, s1)" by (cases "inb HD_STATUS (busy_poll 10000 s)")
  have a: "io_only s s1" by (rule io_only_trans [OF io_busy_poll io_inb_pair [OF 1]])
  show ?thesis using a io_only_trans [OF a io_printk] by (auto simp: drive_busy_def 1)
qed

lemma io_poll_drq [io_steps]: "io_only s (snd (poll_drq n s))"
proof (induction n s rule: poll_drq.induct)
  case (2 n s)
  obtain v s1 where 1: "inb HD_STATUS s = (v, s1)" by (cases "inb HD_STATUS s")
  note a = io_inb_pair [OF 1]
  show ?case using 2 [OF 1 [symmetric] refl] io_only_trans [OF a] a by (auto simp: 1)
qed simp

lemma io_print_failed [io_steps]: "io_only s (print_failed w s)"
  by (simp add: print_failed_def io_printk)

section \<open>Programming the controller\<close>

abbreviation not_ready :: stop where
  "not_ready \<equiv> Panic ''HD controller not ready''"

definition programmed :: "kst \<Rightarrow> handler \<Rightarrow> kst \<Rightarrow> bool" where
  "programmed s h t \<longleftrightarrow> io_only s t \<and> irq_routines (drv t) 14 = Some h"

lemma hd_out_io:
  "wp (hd_out drive nsect sect head cyl cmd h s)
     (\<lambda>e. e = not_ready \<or> e = bad_sector \<and> (1 < drive \<or> 15 < head)) (programmed s h)"
proof -
  obtain rdy s1 where 1: "controller_ready s = (rdy, s1)" by (cases "controller_ready s")
  then have a: "io_only s s1" using io_controller_poll [of s 1000000] by (simp add: controller_ready_def)
  define s2 where "s2 = irq_install_handler 14 h s1"
  have "io_only s s2" unfolding s2_def by (rule io_only_trans [OF a io_install])
  then have a2: "programmed s h s2" by (simp add: programmed_def s2_def irq_install_handler_def)
  have out: "programmed s h (outb v p t)" if "programmed s h t" for v p t
    using that io_only_trans [OF _ io_outb] by (auto simp: programmed_def outb_def)
  show ?thesis
    by (simp add: hd_out_def 1 Let_def s2_def [symmetric] out a2)
qed

lemma reset_controller_io:
  "wp (reset_controller dev s)
     (\<lambda>e. e = not_ready \<or> e = bad_sector \<and> (1 < (of_nat dev :: u32) \<or> 15 < hd_head (hd_info (drv s) dev) - 1))
     (programmed s Recal_intr)"
proof -
  define s1 where "s1 = outb 0 HD_CMD (outb 4 HD_CMD s)"
  obtain busy s2 where 2: "drive_busy s1 = (busy, s2)" by (cases "drive_busy s1")
  define s3 where "s3 = (if busy then printk (''HD-controller still busy'' @ NLCR) [] s2 else s2)"
  obtain i s4 where 4: "inb HD_ERROR s3 = (i, s4)" by (cases "inb HD_ERROR s3")
  define s5 where "s5 = (if i \<noteq> 1 then printk (''HD-controller reset failed: %02x'' @ NLCR) [ArgI (ucast i)] s4 else s4)"
  have a1: "io_only s s1" unfolding s1_def by (rule io_only_trans [OF io_outb io_outb])
  have "io_only s1 s2" using io_drive_busy [of s1] 2 by simp
  then have a3: "io_only s s3" using a1 io_printk by (auto simp: s3_def intro: io_only_trans)
  then have "io_only s s4" using io_inb_pair [OF 4] io_only_trans by blast
  then have a5: "io_only s s5" using io_printk by (auto simp: s5_def intro: io_only_trans)
  have g: "hd_info (drv s5) = hd_info (drv s)" using io_only_frame [OF a5] by (simp add: drv_frame_def)
  let ?g = "hd_info (drv s) dev"
  have "reset_controller dev s = hd_out (of_nat dev) (hd_sect ?g) (hd_sect ?g) (hd_head ?g - 1) (hd_cyl ?g) WIN_SPECIFY Recal_intr s5"
    by (simp add: reset_controller_def Let_def s1_def [symmetric] 2 s3_def [symmetric] 4 s5_def [symmetric] g)
  moreover have "wp (hd_out (of_nat dev) (hd_sect ?g) (hd_sect ?g) (hd_head ?g - 1) (hd_cyl ?g) WIN_SPECIFY Recal_intr s5)
      (\<lambda>e. e = not_ready \<or> e = bad_sector \<and> (1 < (of_nat dev :: u32) \<or> 15 < hd_head ?g - 1)) (programmed s Recal_intr)"
    by (rule wp_mono [OF hd_out_io]) (use io_only_trans [OF a5] in \<open>auto simp: programmed_def\<close>)
  ultimately show ?thesis by simp
qed

end
