(* ===== verification/Hd_Safe.thy ===== *)
theory Hd_Safe
  imports Hd_Inv
begin

text \<open>
  Every operation of the driver keeps the invariant of \<open>Hd_Inv\<close>, for every behaviour of the
  hardware, and the loop of \<open>do_hd_request\<close> ends.
\<close>

section \<open>Completing the head request\<close>

lemma end_request_proj:
  assumes "CURRENT t = i" "rq_bh (rq_of t i) = b" "b \<noteq> NULL" "b_lock (bh_of t b) \<noteq> 0"
  shows "cache (end_request u t) = upd_buf b (\<lambda>x. x\<lparr>b_lock := 0\<rparr>)
      (upd_buf b (\<lambda>x. x\<lparr>b_uptodate := (if u then 1 else 0)\<rparr>) (cache t))"
    and "drv (end_request u t) = (drv t)\<lparr>request_list := (request_list (drv t))(i := (rq_of t i)\<lparr>rq_dev := -1\<rparr>),
      current_request := (current_request (drv t))(MAJOR_NR := rq_next (rq_of t i))\<rparr>"
    and "hw (end_request u t) = hw t"
  using assms by (simp_all add: end_request_def Let_def unlock_buff_def machine_defs)

lemma end_request_inv:
  assumes q: "queue_inv L s (i # q)" and hu: "head_upd s t i r"
  shows "queue_inv L (end_request u t) q" and "drv_frame t (end_request u t)"
    and "bh_of (end_request u t) (rq_bh r) = (bh_of t (rq_bh r))\<lparr>b_uptodate := (if u then 1 else 0), b_lock := 0\<rparr>"
    and "j \<noteq> i \<Longrightarrow> rq_of (end_request u t) j = rq_of s j"
    and "p \<noteq> rq_bh r \<Longrightarrow> bh_of (end_request u t) p = bh_of t p"
    and "bdata (cache (end_request u t)) = bdata (cache t)"
proof -
  note Q = queue_invD [OF q] and H = queue_inv_head [OF q]
  note R = req_okD [OF H(3)]
  let ?t = "end_request u t" and ?b = "rq_bh (rq_of s i)"
  have U: "request_list (drv t) = (request_list (drv s))(i := r)" "rq_bh r = ?b"
    "rq_next r = rq_next (rq_of s i)" "rq_dev r = rq_dev (rq_of s i)"
    "current_request (drv t) = current_request (drv s)" "request_fn (drv t) = request_fn (drv s)"
    "NR_BUFFERS (cache t) = NR_BUFFERS (cache s)"
    "\<And>p. b_lock (bh_of t p) = b_lock (bh_of s p) \<and> b_dev (bh_of t p) = b_dev (bh_of s p) \<and>
          b_blocknr (bh_of t p) = b_blocknr (bh_of s p)"
    using hu by (auto simp: head_upd_def)
  have cur: "CURRENT t = i" using H(1) U(5) by (simp add: CURRENT_def)
  have bh: "rq_bh (rq_of t i) = ?b" using U by simp
  have lk: "b_lock (bh_of t ?b) \<noteq> 0" using R(2) U(8) by simp
  note P = end_request_proj [OF cur bh R(3) lk, where u = u]
  show oth: "rq_of ?t j = rq_of s j" if "j \<noteq> i" for j using that U(1) by (simp add: P)
  show "bh_of ?t (rq_bh r) = (bh_of t (rq_bh r))\<lparr>b_uptodate := (if u then 1 else 0), b_lock := 0\<rparr>"
    by (simp add: P U)
  show "bh_of ?t p = bh_of t p" if "p \<noteq> rq_bh r" using that by (simp add: P U)
  show "bdata (cache ?t) = bdata (cache t)" by (simp add: P)
  show "drv_frame t ?t" using lk by (auto simp: drv_frame_def P quiet_bh_def)
  have B: "buffers (cache ?t) = buffers (cache s)" using U(7) by (simp add: P buffers_def)
  have iq: "i \<notin> set q" "distinct q" using Q(2) by auto
  have bq: "rq_bh (rq_of s j) \<noteq> ?b" if "j \<in> set q" for j
    using inj_onD [OF Q(5), of j i] that iq by auto
  show "queue_inv L ?t q"
    unfolding queue_inv_def
  proof (intro conjI allI impI)
    have "slist (\<lambda>j. rq_next (rq_of ?t j)) (rq_next (rq_of s i)) q = slist (\<lambda>j. rq_next (rq_of s j)) (rq_next (rq_of s i)) q"
    proof (rule slist_cong)
      fix x assume "x \<in> set q"
      then have "x \<noteq> i" using iq by auto
      then show "rq_next (rq_of ?t x) = rq_next (rq_of s x)" by (simp add: oth)
    qed
    moreover have "CURRENT ?t = rq_next (rq_of s i)" using U by (simp add: CURRENT_def P)
    ultimately show "slist (\<lambda>j. rq_next (rq_of ?t j)) (CURRENT ?t) q" using Q(1) by simp
    show "distinct q" by (rule iq)
    have "0 \<le> rq_dev (rq_of ?t j) \<longleftrightarrow> j \<noteq> i \<and> 0 \<le> rq_dev (rq_of s j)" for j
      using oth [of j] by (cases "j = i") (auto simp: P)
    moreover have "insert i (set q) = {j \<in> {1..NR_REQUEST}. 0 \<le> rq_dev (rq_of s j)}" using Q(3) by simp
    ultimately show "set q = {j \<in> {1..NR_REQUEST}. 0 \<le> rq_dev (rq_of ?t j)}" using iq(1) by blast
    show "\<forall>j \<in> set q. req_ok ?t j"
    proof
      fix j assume j: "j \<in> set q"
      then have ji: "j \<noteq> i" using iq by auto
      have "req_ok s j" using Q(4) j by simp
      then show "req_ok ?t j"
        using U(8) bq [OF j] oth [OF ji] B by (auto simp: req_ok_def Let_def P)
    qed
    show "inj_on (\<lambda>j. rq_bh (rq_of ?t j)) (set q)"
    proof (rule inj_onI)
      fix x y assume "x \<in> set q" "y \<in> set q" "rq_bh (rq_of ?t x) = rq_bh (rq_of ?t y)"
      moreover have "x \<noteq> i" "y \<noteq> i" using calculation iq by auto
      ultimately show "x = y" using oth inj_onD [OF Q(5), of x y] by auto
    qed
    show "\<forall>p \<in> L. b_lock (bh_of ?t p) \<noteq> 0 \<and> (\<forall>j \<in> set q. rq_bh (rq_of ?t j) \<noteq> p)"
    proof
      fix p assume "p \<in> L"
      then have p: "b_lock (bh_of s p) \<noteq> 0" "\<forall>j \<in> set (i # q). rq_bh (rq_of s j) \<noteq> p" using Q(8) by auto
      then have "b_lock (bh_of ?t p) \<noteq> 0" using U(8) by (auto simp: P)
      moreover have "rq_bh (rq_of ?t j) \<noteq> p" if "j \<in> set q" for j
      proof -
        have "j \<noteq> i" using that iq by auto
        then show ?thesis using p that oth by simp
      qed
      ultimately show "b_lock (bh_of ?t p) \<noteq> 0 \<and> (\<forall>j \<in> set q. rq_bh (rq_of ?t j) \<noteq> p)" by blast
    qed
    show "\<forall>p \<in> buffers (cache ?t). b_lock (bh_of ?t p) \<noteq> 0 \<longrightarrow> p \<in> L \<or> (\<exists>j \<in> set q. rq_bh (rq_of ?t j) = p)"
    proof (intro ballI impI)
      fix p assume p: "p \<in> buffers (cache ?t)" "b_lock (bh_of ?t p) \<noteq> 0"
      then have pb: "p \<noteq> ?b" by (auto simp: P)
      then have "b_lock (bh_of s p) \<noteq> 0" using p U(8) by (simp add: P)
      then have "p \<in> L \<or> (\<exists>j \<in> set (i # q). rq_bh (rq_of s j) = p)" using Q(6) p B by auto
      then show "p \<in> L \<or> (\<exists>j \<in> set q. rq_bh (rq_of ?t j) = p)" using pb oth iq by (metis set_ConsD)
    qed
    fix m :: nat assume m: "m \<noteq> MAJOR_NR"
    show "current_request (drv ?t) m = NULL" "\<not> request_fn (drv ?t) m"
      using Q(7) [OF m] m U by (simp_all add: P)
  qed
qed

lemma head_upd_refl: "head_upd s s i (rq_of s i)"
  by (simp add: head_upd_def)

section \<open>How long the driver loop can run\<close>

definition cost :: "kst \<Rightarrow> ptr list \<Rightarrow> nat" where
  "cost s q = sum_list (map (\<lambda>i. nat (8 - rq_errors (rq_of s i))) q)"

lemma cost_cong: "(\<And>i. i \<in> set q \<Longrightarrow> rq_errors (rq_of s i) = rq_errors (rq_of t i)) \<Longrightarrow> cost s q = cost t q"
  by (simp add: cost_def cong: map_cong)

lemma cost_Cons: "cost s (i # q) = nat (8 - rq_errors (rq_of s i)) + cost s q"
  by (simp add: cost_def)

lemma cost_bound:
  assumes "queue_inv L s q"
  shows "cost s q \<le> 256"
proof -
  have "cost s q \<le> sum_list (map (\<lambda>_. 8) q)"
    unfolding cost_def
  proof (rule sum_list_mono)
    fix i assume "i \<in> set q"
    then have "0 \<le> rq_errors (rq_of s i)" using req_okD(6) queue_invD(4) [OF assms] by blast
    then show "nat (8 - rq_errors (rq_of s i)) \<le> 8" by simp
  qed
  also have "\<dots> = 8 * length q" by (simp add: sum_list_triv)
  also have "length q \<le> NR_REQUEST"
  proof -
    have "card (set q) \<le> card {1..NR_REQUEST}"
      by (rule card_mono) (use queue_invD(3) [OF assms] in auto)
    then show ?thesis using queue_invD(2) [OF assms] by (simp add: distinct_card)
  qed
  finally show ?thesis by simp
qed

lemma end_request_cost:
  assumes "queue_inv L s (i # q)"
  shows "cost (end_request u s) q < cost s (i # q)"
proof -
  have "cost (end_request u s) q = cost s q"
  proof (rule cost_cong)
    fix j assume "j \<in> set q"
    then have "j \<noteq> i" using queue_invD(2) [OF assms] by auto
    then show "rq_errors (rq_of (end_request u s) j) = rq_errors (rq_of s j)"
      using end_request_inv(4) [OF assms head_upd_refl] by simp
  qed
  moreover have "rq_errors (rq_of s i) < 7" using req_okD(7) [OF queue_inv_head(3) [OF assms]] by simp
  ultimately show ?thesis by (simp add: cost_Cons)
qed

text \<open>Requests leave the queue from its head only.\<close>

definition run_to :: "ptr set \<Rightarrow> kst \<Rightarrow> ptr list \<Rightarrow> kst \<Rightarrow> bool" where
  "run_to L s q t \<longleftrightarrow> drv_frame s t \<and> (\<exists>k. queue_inv L t (drop k q) \<and> cost t (drop k q) < cost s q)"

lemma run_toI: "drv_frame s t \<Longrightarrow> queue_inv L t (drop k q) \<Longrightarrow> cost t (drop k q) < cost s q \<Longrightarrow> run_to L s q t"
  by (auto simp: run_to_def)

lemma cost_io: "io_only s t \<Longrightarrow> cost t q = cost s q"
  by (rule cost_cong) (simp add: io_only_frame(4))

lemma run_to_io:
  assumes "run_to L s q t" "io_only t u"
  shows "run_to L s q u"
  using assms drv_frame_trans [OF _ io_only_frame(1) [OF assms(2)]]
  by (auto simp: run_to_def cost_io io_only_inv)

lemma run_to_io_pre: "io_only s s1 \<Longrightarrow> run_to L s1 q t \<Longrightarrow> run_to L s q t"
  using drv_frame_trans [OF io_only_frame(1)] by (auto simp: run_to_def cost_io)

lemma bad_rw_intr_run:
  assumes q: "queue_inv L s (i # q)"
  shows "wp (bad_rw_intr s) (\<lambda>e. False) (run_to L s (i # q))"
proof -
  note H = queue_inv_head [OF q] and Q = queue_invD [OF q]
  note R = req_okD [OF H(3)]
  define r where "r = (rq_of s i)\<lparr>rq_errors := rq_errors (rq_of s i) + 1\<rparr>"
  define s1 where "s1 = upd_rq i (\<lambda>r. r\<lparr>rq_errors := rq_errors r + 1\<rparr>) s"
  have hu: "head_upd s s1 i r" by (simp add: head_upd_def s1_def r_def upd_rq_def)
  have ri: "rq_of s1 i = r" by (simp add: s1_def r_def upd_rq_def)
  have c1: "CURRENT s1 = i" using H by (simp add: s1_def machine_defs)
  have f1: "drv_frame s s1" by (simp add: s1_def upd_rq_def drv_frame_def)
  have iq: "i \<notin> set q" using Q(2) by simp
  define s2 where "s2 = (if MAX_ERRORS \<le> rq_errors r then end_request False s1 else s1)"
  define s3 where "s3 = (if MAX_ERRORS div 2 < rq_errors (rq_of s2 (CURRENT s2))
     then s2\<lparr>drv := (drv s2)\<lparr>reset := True\<rparr>\<rparr> else s2)"
  have run2: "run_to L s (i # q) s2"
  proof (cases "MAX_ERRORS \<le> rq_errors r")
    case True
    note E = end_request_inv [OF q hu, where u = False]
    have "cost (end_request False s1) q = cost s q"
    proof (rule cost_cong)
      fix x assume "x \<in> set q"
      then have "x \<noteq> i" using iq by auto
      then show "rq_errors (rq_of (end_request False s1) x) = rq_errors (rq_of s x)" by (simp add: E(4))
    qed
    then have "cost (end_request False s1) q < cost s (i # q)" using R(7) by (simp add: cost_Cons)
    then show ?thesis
      using True E(1) drv_frame_trans [OF f1 E(2)] by (intro run_toI [where k = 1]) (simp_all add: s2_def)
  next
    case False
    have "req_ok s1 i"
      using H(3) False ri by (auto simp: req_ok_def Let_def r_def s1_def upd_rq_def)
    then have q1: "queue_inv L s1 (i # q)" by (rule queue_inv_progress [OF q hu])
    have "cost s1 q = cost s q"
      by (rule cost_cong) (use iq in \<open>auto simp: s1_def upd_rq_def\<close>)
    then have "cost s1 (i # q) < cost s (i # q)" using R(7) by (simp add: cost_Cons ri r_def)
    then show ?thesis using False q1 f1 by (intro run_toI [where k = 0]) (simp_all add: s2_def)
  qed
  have io: "io_only s2 s3" using io_flags(3) [of s2] by (simp add: s3_def)
  have "run_to L s (i # q) s3" by (rule run_to_io [OF run2 io])
  moreover have "bad_rw_intr s = Inr s3"
    using H c1 by (simp add: bad_rw_intr_def Let_def s1_def [symmetric] ri s2_def [symmetric] s3_def)
  ultimately show ?thesis by simp
qed

section \<open>Starting a request\<close>

text \<open>The handler that is installed while a request is in progress fits its command.\<close>

definition armed :: "kst \<Rightarrow> ptr list \<Rightarrow> bool" where
  "armed s q \<longleftrightarrow> q \<noteq> [] \<longrightarrow> irq_routines (drv s) 14 \<in>
     {Some Recal_intr, Some (if rq_cmd (rq_of s (hd q)) = READ then Read_intr else Write_intr)}"

definition started :: "ptr set \<Rightarrow> kst \<Rightarrow> ptr list \<Rightarrow> kst \<Rightarrow> bool" where
  "started L s q t \<longleftrightarrow> drv_frame s t \<and> (\<exists>k. queue_inv L t (drop k q) \<and> armed t (drop k q) \<and> cost t (drop k q) \<le> cost s q)"

lemma startedI:
  "drv_frame s t \<Longrightarrow> queue_inv L t (drop k q) \<Longrightarrow> armed t (drop k q) \<Longrightarrow> cost t (drop k q) \<le> cost s q \<Longrightarrow> started L s q t"
  by (auto simp: started_def)

lemma started_programmed:
  assumes "queue_inv L s q" "programmed s h t"
    and "q \<noteq> [] \<Longrightarrow> h = Recal_intr \<or> h = (if rq_cmd (rq_of s (hd q)) = READ then Read_intr else Write_intr)"
  shows "started L s q t"
proof -
  have io: "io_only s t" using assms(2) by (simp add: programmed_def)
  show ?thesis
    using assms io_only_frame(1,4) [OF io] io_only_inv [OF io] cost_io [OF io]
    by (intro startedI [where k = 0]) (auto simp: armed_def programmed_def)
qed

lemma started_io:
  assumes "started L s q t" "io_only t u" "irq_routines (drv u) = irq_routines (drv t)"
  shows "started L s q u"
  using assms drv_frame_trans [OF _ io_only_frame(1) [OF assms(2)]]
  by (auto simp: started_def cost_io io_only_inv io_only_frame(4) armed_def)

lemma head_bound: "1 \<le> (h :: u32) \<Longrightarrow> h \<le> 16 \<Longrightarrow> b mod h \<le> 15"
proof -
  assume h: "1 \<le> h" "h \<le> 16"
  then have "unat b mod unat h < unat h" by (simp add: word_le_nat_alt)
  then show ?thesis using h by (simp add: word_le_nat_alt unat_mod)
qed

lemma drive_bound: "d \<le> Suc 0 \<Longrightarrow> (of_nat d :: u32) \<le> 1"
  by (cases d) auto

text \<open>The same for a drive and a head that the geometry does not bound.\<close>

lemma geom_bounds:
  assumes "(h :: u32) \<noteq> 0"
  shows "15 < b mod h \<Longrightarrow> 16 < h" "15 < h - 1 \<Longrightarrow> 16 < h" "1 < (of_nat d :: u32) \<Longrightarrow> 1 < d"
proof -
  have h: "1 \<le> h" using assms by (simp add: word_le_nat_alt Suc_le_eq unat_gt_0)
  then show "15 < b mod h \<Longrightarrow> 16 < h" using head_bound [of h b] by (force simp: not_less [symmetric])
  show "15 < h - 1 \<Longrightarrow> 16 < h" using h by (simp add: word_less_nat_alt word_le_nat_alt unat_sub)
  show "1 < (of_nat d :: u32) \<Longrightarrow> 1 < d" using drive_bound [of d] by (force simp: not_less [symmetric])
qed

abbreviation hd_stop :: "kst \<Rightarrow> stop \<Rightarrow> bool" where
  "hd_stop s e \<equiv> e = not_ready \<or> geom_stop s e"

abbreviation round_ok :: "ptr set \<Rightarrow> kst \<Rightarrow> ptr list \<Rightarrow> kst + kst \<Rightarrow> bool" where
  "round_ok L s q r \<equiv> (case r of Inl t \<Rightarrow> run_to L s q t | Inr t \<Rightarrow> started L s q t)"

lemma programmed_started:
  assumes "wp m E (programmed s' h)" "io_only s s'" "queue_inv L s q"
    and "q \<noteq> [] \<Longrightarrow> h = Recal_intr \<or> h = (if rq_cmd (rq_of s (hd q)) = READ then Read_intr else Write_intr)"
  shows "wp m E (started L s q)"
proof (rule wp_mono [OF assms(1)])
  fix t assume "programmed s' h t"
  then have "programmed s h t" using io_only_trans [OF assms(2)] by (simp add: programmed_def)
  then show "started L s q t" by (rule started_programmed [OF assms(3)]) (rule assms(4))
qed

lemma write_round:
  assumes q: "queue_inv L s (i # q)" and cmd: "rq_cmd (rq_of s i) = WRITE"
    and s1: "programmed s Write_intr s1" and 2: "poll_drq 3000 s1 = (drq, s2)"
  shows "wp (if \<not> drq then bnd (bad_rw_intr s2) (\<lambda>s3. Inr (Inl (print_failed ''write'' s3)))
             else Inr (Inr (port_write HD_DATA (rq_buffer (rq_of s2 (CURRENT s2))) s2)))
           (\<lambda>e. e = not_ready) (round_ok L s (i # q))"
proof -
  have io1: "io_only s s1" using s1 by (simp add: programmed_def)
  have io2: "io_only s1 s2" using io_poll_drq [of s1 3000] 2 by simp
  have io: "io_only s s2" by (rule io_only_trans [OF io1 io2])
  have q2: "queue_inv L s2 (i # q)" using q io_only_inv [OF io] by simp
  show ?thesis
  proof (cases drq)
    case False
    have "wp (bad_rw_intr s2) (\<lambda>e. e = not_ready) (run_to L s2 (i # q))"
      by (rule wp_mono [OF bad_rw_intr_run [OF q2]]) auto
    then have "wp (bad_rw_intr s2) (\<lambda>e. e = not_ready) (\<lambda>t. run_to L s (i # q) (print_failed ''write'' t))"
      by (rule wp_mono) (auto intro: run_to_io [OF run_to_io_pre [OF io] io_print_failed])
    then show ?thesis using False by simp
  next
    case True
    have irq: "irq_routines (drv t) = irq_routines (drv u)" if "poll_drq n u = (b, t)" for n b t u
      using that by (induction n u rule: poll_drq.induct) (auto simp: inb_def Let_def split: if_splits)
    have "programmed s Write_intr s2"
      using s1 io irq [OF 2] by (simp add: programmed_def)
    then have st: "started L s (i # q) s2"
      by (rule started_programmed [OF q]) (simp add: cmd)
    have "started L s (i # q) (port_write HD_DATA b s2)" for b
      by (rule started_io [OF st io_port_write]) (cases b; simp add: port_write_def)
    then show ?thesis using True by simp
  qed
qed

lemma do_hd_body_ok:
  assumes q: "queue_inv L s q"
  shows "wp (do_hd_body s) (hd_stop s) (round_ok L s q)"
proof (cases q)
  case Nil
  have "started L s q s" by (rule startedI [where k = 0]) (use q Nil in \<open>auto simp: armed_def\<close>)
  then show ?thesis using Nil queue_inv_current [OF q] by (simp add: do_hd_body_def)
next
  case (Cons i q')
  note q = q [unfolded Cons]
  note H = queue_inv_head [OF q]
  note R = req_okD [OF H(3)]
  let ?r = "rq_of s i"
  let ?p = "MINOR (rq_dev ?r)"
  let ?part = "partition_info (drv s) ?p" and ?g = "hd_info (drv s) (?p div 5)"
  let ?bad = "NR_HD (drv s) * 5 \<le> ?p \<or> nr_sects ?part < rq_sector ?r + 2"
  have start: "CURRENT s \<noteq> NULL" "MAJOR (rq_dev ?r) = MAJOR_NR"
    "b_lock (bh_of s (rq_bh ?r)) \<noteq> 0"
    using H R by auto
  show ?thesis
  proof (cases ?bad)
    case True
    note E = end_request_inv [OF q head_upd_refl, where u = False]
    have "run_to L s (i # q') (end_request False s)"
      by (rule run_toI [where k = 1]) (use E(1,2) end_request_cost [OF q] in simp_all)
    then show ?thesis using start H(1) True Cons unfolding do_hd_body_def Let_def by simp
  next
    case False
    then have p: "?p div 5 < NR_HD (drv s)" by auto
    show ?thesis
    proof (cases "hd_sect ?g = 0 \<or> hd_head ?g = 0")
      case True
      then have "geom_stop s DivideError" using geom_stopI(1) [OF p refl] by blast
      then show ?thesis using start H(1) False True unfolding do_hd_body_def Let_def by simp
    next
    case g0: False
    let ?b = "rq_sector ?r + start_sect ?part"
    have bs: "geom_stop s bad_sector" if "1 < (of_nat (?p div 5) :: u32) \<or> 16 < hd_head ?g"
      using geom_stopI(2) [OF p refl] geom_bounds(3) [of "hd_head ?g"] that g0 by blast
    show ?thesis
    proof (cases "reset (drv s)")
      case True
      let ?s = "s\<lparr>drv := (drv s)\<lparr>reset := False, recalibrate := True\<rparr>\<rparr>"
      have "wp (reset_controller (?p div 5) ?s) (hd_stop s) (programmed ?s Recal_intr)"
        by (rule wp_mono [OF reset_controller_io]) (use bs geom_bounds(2) [of "hd_head ?g"] g0 in auto)
      then have "wp (reset_controller (?p div 5) ?s) (hd_stop s) (started L s q)"
        by (rule programmed_started [OF _ io_flags(1) q [folded Cons]]) simp
      then show ?thesis using start H(1) False g0 True Cons unfolding do_hd_body_def Let_def by simp
    next
      case nores: False
      show ?thesis
      proof (cases "recalibrate (drv s)")
        case True
        let ?s = "s\<lparr>drv := (drv s)\<lparr>recalibrate := False\<rparr>\<rparr>"
        have "wp (hd_out (of_nat (?p div 5)) (hd_sect ?g) 0 0 0 WIN_RESTORE Recal_intr ?s)
            (hd_stop s) (programmed ?s Recal_intr)"
          by (rule wp_mono [OF hd_out_io]) (use bs in auto)
        then have "wp (hd_out (of_nat (?p div 5)) (hd_sect ?g) 0 0 0 WIN_RESTORE Recal_intr ?s) (hd_stop s) (started L s q)"
          by (rule programmed_started [OF _ io_flags(2) q [folded Cons]]) simp_all
        then show ?thesis using start H(1) False g0 nores True Cons unfolding do_hd_body_def Let_def by simp
      next
        case norec: False
        let ?sec = "?b mod hd_sect ?g + 1" and ?hd = "?b div hd_sect ?g mod hd_head ?g"
          and ?cyl = "?b div hd_sect ?g div hd_head ?g"
        have hb: "geom_stop s bad_sector" if "1 < (of_nat (?p div 5) :: u32) \<or> 15 < ?hd"
          using bs geom_bounds(1) [of "hd_head ?g"] that g0 by blast
        show ?thesis
        proof (cases "rq_cmd ?r = WRITE")
          case True
          have "wp (hd_out (of_nat (?p div 5)) (rq_nr_sectors ?r) ?sec ?hd ?cyl WIN_WRITE Write_intr s)
              (hd_stop s) (\<lambda>s1. wp (let (drq, s2) = poll_drq 3000 s1
              in if \<not> drq then bnd (bad_rw_intr s2) (\<lambda>s3. Inr (Inl (print_failed ''write'' s3)))
                 else Inr (Inr (port_write HD_DATA (rq_buffer (rq_of s2 (CURRENT s2))) s2)))
              (hd_stop s) (round_ok L s q))"
          proof (rule wp_mono [OF hd_out_io], goal_cases)
            case (2 s1)
            obtain drq s2 where "poll_drq 3000 s1 = (drq, s2)" by (cases "poll_drq 3000 s1")
            then have "wp (let (drq, s2) = poll_drq 3000 s1
              in if \<not> drq then bnd (bad_rw_intr s2) (\<lambda>s3. Inr (Inl (print_failed ''write'' s3)))
                 else Inr (Inr (port_write HD_DATA (rq_buffer (rq_of s2 (CURRENT s2))) s2)))
                (\<lambda>e. e = not_ready) (round_ok L s q)"
              using write_round [OF q True 2] Cons by (cases drq) simp_all
            then show ?case by (rule wp_mono) simp_all
          qed (use hb in auto)
          then show ?thesis using start H(1) False g0 nores norec True Cons unfolding do_hd_body_def Let_def by simp
        next
          case nw: False
          then have r: "rq_cmd ?r = READ" using R by auto
          have "wp (hd_out (of_nat (?p div 5)) (rq_nr_sectors ?r) ?sec ?hd ?cyl WIN_READ Read_intr s)
              (hd_stop s) (started L s q)"
            by (rule wp_mono [OF hd_out_io]) (use hb started_programmed [OF q [folded Cons]] r Cons in auto)
          then show ?thesis using start H(1) False g0 nores norec r Cons unfolding do_hd_body_def Let_def by simp
        qed
      qed
    qed
  qed
  qed
qed

lemma do_hd_loop_ok:
  assumes "queue_inv L s q" "cost s q < n"
  shows "wp (do_hd_loop n s) (hd_stop s) (started L s q)"
  using assms
proof (induction n arbitrary: s q)
  case (Suc n)
  have "wp (do_hd_body s) (hd_stop s)
     (\<lambda>r. wp (case r of Inl t \<Rightarrow> do_hd_loop n t | Inr t \<Rightarrow> Inr t) (hd_stop s) (started L s q))"
  proof (rule wp_mono [OF do_hd_body_ok [OF Suc.prems(1)]])
    fix r assume r: "round_ok L s q r"
    show "wp (case r of Inl t \<Rightarrow> do_hd_loop n t | Inr t \<Rightarrow> Inr t) (hd_stop s) (started L s q)"
    proof (cases r)
      case (Inl t)
      then obtain k where f: "drv_frame s t" and k: "queue_inv L t (drop k q)" "cost t (drop k q) < cost s q"
        using r by (auto simp: run_to_def)
      have "wp (do_hd_loop n t) (hd_stop t) (started L t (drop k q))"
        using k Suc.prems by (intro Suc.IH) auto
      then have "wp (do_hd_loop n t) (hd_stop s) (started L t (drop k q))" unfolding geom_ok_frame(2) [OF f] .
      then have "wp (do_hd_loop n t) (hd_stop s) (started L s q)"
      proof (rule wp_mono)
        fix u assume "started L t (drop k q) u"
        then obtain m where "drv_frame t u" "queue_inv L u (drop (m + k) q)" "armed u (drop (m + k) q)"
            "cost u (drop (m + k) q) \<le> cost t (drop k q)"
          by (auto simp: started_def)
        then show "started L s q u" using k(2) drv_frame_trans [OF f] by (intro startedI) auto
      qed
      then show ?thesis using Inl by simp
    qed (use r in simp)
  qed simp
  then show ?case by simp
qed simp

lemma do_hd_request_any:
  assumes "queue_inv L s q"
  shows "wp (do_hd_request s) (hd_stop s) (started L s q)"
  unfolding do_hd_request_def by (rule do_hd_loop_ok [OF assms]) (use cost_bound [OF assms(1)] in simp)

lemma do_hd_request_ok:
  assumes "queue_inv L s q" "geom_ok s"
  shows "wp (do_hd_request s) (\<lambda>e. e = not_ready) (started L s q)"
  by (rule wp_mono [OF do_hd_request_any [OF assms(1)]]) (use geom_ok_stop [OF assms(2)] in auto)

section \<open>The state between two events\<close>

definition disk_frame :: "kst \<Rightarrow> kst \<Rightarrow> bool" where
  "disk_frame s t \<longleftrightarrow>
     (\<forall>p. quiet_bh (bh_of t p) = quiet_bh (bh_of s p)) \<and>
     (\<forall>p. b_lock (bh_of s p) = 0 \<longrightarrow> bh_of t p = bh_of s p \<and> bdata (cache t) p = bdata (cache s) p) \<and>
     hash_table (cache t) = hash_table (cache s) \<and> free_list (cache t) = free_list (cache s) \<and>
     NR_BUFFERS (cache t) = NR_BUFFERS (cache s) \<and>
     hd_info (drv t) = hd_info (drv s) \<and> NR_HD (drv t) = NR_HD (drv s) \<and>
     partition_info (drv t) = partition_info (drv s) \<and> request_fn (drv t) = request_fn (drv s) \<and>
     (\<forall>j. j \<noteq> 14 \<longrightarrow> irq_routines (drv t) j = irq_routines (drv s) j)"

lemma disk_frame_refl [simp]: "disk_frame s s"
  by (simp add: disk_frame_def)

lemma disk_frame_trans: "disk_frame s t \<Longrightarrow> disk_frame t u \<Longrightarrow> disk_frame s u"
  by (simp add: disk_frame_def)

lemma drv_disk_frame: "drv_frame s t \<Longrightarrow> disk_frame s t"
  by (simp add: drv_frame_def disk_frame_def)

lemma geom_ok_disk: "disk_frame s t \<Longrightarrow> geom_ok t = geom_ok s"
  by (simp add: disk_frame_def geom_ok_def)

definition irqs_ok :: "kst \<Rightarrow> bool" where
  "irqs_ok s \<longleftrightarrow> (\<forall>j. j \<noteq> 14 \<longrightarrow> irq_routines (drv s) j \<in> {None, Some Timer_handler})"

definition drv_inv :: "ptr set \<Rightarrow> kst \<Rightarrow> ptr list \<Rightarrow> bool" where
  "drv_inv L s q \<longleftrightarrow> queue_inv L s q \<and> armed s q \<and> geom_ok s \<and> irqs_ok s"

definition settled :: "ptr set \<Rightarrow> kst \<Rightarrow> ptr list \<Rightarrow> kst \<Rightarrow> bool" where
  "settled L s q t \<longleftrightarrow> disk_frame s t \<and> (\<exists>k. drv_inv L t (drop k q))"

lemma settledI: "disk_frame s t \<Longrightarrow> drv_inv L t (drop k q) \<Longrightarrow> settled L s q t"
  by (auto simp: settled_def)

lemma drv_inv_frame:
  assumes "disk_frame s t" "geom_ok s" "irqs_ok s" "queue_inv L t q" "armed t q"
  shows "drv_inv L t q"
  using assms geom_ok_disk [OF assms(1)] by (auto simp: drv_inv_def irqs_ok_def disk_frame_def)

text \<open>Running \<open>do_hd_request\<close> after the first \<open>k\<close> requests are gone.\<close>

lemma do_hd_request_settled:
  assumes f: "disk_frame s t" and g: "geom_ok s" "irqs_ok s" and q: "queue_inv L t (drop k q)"
  shows "wp (do_hd_request t) (\<lambda>e. e = not_ready) (settled L s q)"
proof (rule wp_mono [OF do_hd_request_ok [OF q]])
  show "geom_ok t" using g geom_ok_disk [OF f] by simp
  fix u assume "started L t (drop k q) u"
  then obtain m where m: "drv_frame t u" "queue_inv L u (drop (m + k) q)" "armed u (drop (m + k) q)"
    by (auto simp: started_def)
  have fu: "disk_frame s u" by (rule disk_frame_trans [OF f drv_disk_frame [OF m(1)]])
  show "settled L s q u" by (rule settledI [OF fu drv_inv_frame [OF fu g m(2,3)]])
qed

lemma failed_settled:
  assumes q: "queue_inv L t (i # q)" and f: "disk_frame s t" and g: "geom_ok s" "irqs_ok s"
  shows "wp (bnd (bad_rw_intr t) (\<lambda>u. do_hd_request (print_failed w u))) (\<lambda>e. e = not_ready) (settled L s (i # q))"
proof -
  have "wp (bad_rw_intr t) (\<lambda>e. e = not_ready)
      (\<lambda>u. wp (do_hd_request (print_failed w u)) (\<lambda>e. e = not_ready) (settled L s (i # q)))"
  proof (rule wp_mono [OF bad_rw_intr_run [OF q]])
    fix u assume "run_to L t (i # q) u"
    then have "run_to L t (i # q) (print_failed w u)" by (rule run_to_io [OF _ io_print_failed])
    then obtain k where k: "drv_frame t (print_failed w u)" "queue_inv L (print_failed w u) (drop k (i # q))"
      by (auto simp: run_to_def)
    show "wp (do_hd_request (print_failed w u)) (\<lambda>e. e = not_ready) (settled L s (i # q))"
      by (rule do_hd_request_settled [OF disk_frame_trans [OF f drv_disk_frame [OF k(1)]] g k(2)])
  qed simp
  then show ?thesis by simp
qed

end
