(* ===== verification/Hd_Irq.thy ===== *)
theory Hd_Irq
  imports Hd_Safe
begin

text \<open>
  The interrupt handlers: each keeps the driver's invariant, for every behaviour of the disk, and
  serves the requests from the head of the queue on.
\<close>

abbreviation spurious_or_dead :: "ptr list \<Rightarrow> stop \<Rightarrow> bool" where
  "spurious_or_dead q e \<equiv> e = not_ready \<or> e = Fault \<and> q = []"

lemma win_result_pair: "win_result s = (b, t) \<Longrightarrow> io_only s t"
  using io_win_result [of s] by simp

lemma io_disk_frame: "io_only s t \<Longrightarrow> disk_frame s t"
  by (rule drv_disk_frame [OF io_only_frame(1)])

lemma failed_handler:
  assumes "queue_inv L s q" "geom_ok s" "irqs_ok s" "io_only s t"
  shows "wp (bnd (bad_rw_intr t) (\<lambda>u. do_hd_request (print_failed w u))) (spurious_or_dead q) (settled L s q)"
proof (cases q)
  case Nil
  then have "CURRENT t = NULL" using queue_inv_current [OF assms(1)] io_only_frame(3) [OF assms(4)] by simp
  then show ?thesis using Nil by (simp add: bad_rw_intr_def)
next
  case (Cons i q')
  have "queue_inv L t (i # q')" using assms(1) Cons io_only_inv [OF assms(4)] by simp
  from failed_settled [OF this io_disk_frame [OF assms(4)] assms(2,3)] show ?thesis
    by (rule wp_mono) (auto simp: Cons)
qed

lemma recal_intr_ok:
  assumes "queue_inv L s q" "geom_ok s" "irqs_ok s"
  shows "wp (recal_intr s) (spurious_or_dead q) (settled L s q)"
proof -
  obtain bad t where w: "win_result s = (bad, t)" by (cases "win_result s")
  note io = win_result_pair [OF w]
  have "wp (do_hd_request t) (spurious_or_dead q) (settled L s q)"
    by (rule wp_mono [OF do_hd_request_settled [OF io_disk_frame [OF io] assms(2,3), where k = 0 and q = q]])
       (use assms(1) io_only_inv [OF io] in auto)
  then show ?thesis using failed_handler [OF assms io] by (simp add: recal_intr_def w)
qed

text \<open>The request at the head, after one sector.\<close>

definition advance :: "int \<Rightarrow> request \<Rightarrow> request" where
  "advance e r = r\<lparr>rq_errors := e, rq_buffer := (fst (rq_buffer r), snd (rq_buffer r) + 512), rq_sector := rq_sector r + 1,
     rq_nr_sectors := rq_nr_sectors r - 1\<rparr>"

lemma req_ok_advance:
  assumes "req_ok s i" "rq_nr_sectors (rq_of s i) \<noteq> 1"
    and "rq_of t i = r" "r = advance e (rq_of s i)" "0 \<le> e" "e < MAX_ERRORS"
    and "buffers (cache t) = buffers (cache s)"
    and "b_lock (bh_of t (rq_bh r)) = b_lock (bh_of s (rq_bh r))" "b_dev (bh_of t (rq_bh r)) = b_dev (bh_of s (rq_bh r))"
      "b_blocknr (bh_of t (rq_bh r)) = b_blocknr (bh_of s (rq_bh r))"
  shows "req_ok t i"
  using assms by (auto simp: req_ok_def Let_def advance_def)

text \<open>\<open>port_read\<close> only changes the 512 bytes at its target.\<close>

lemma port_read_proj:
  "drv (port_read b s) = drv s" "bh_of (port_read b s) = bh_of s"
  "NR_BUFFERS (cache (port_read b s)) = NR_BUFFERS (cache s)"
  "p \<noteq> fst b \<Longrightarrow> bdata (cache (port_read b s)) p = bdata (cache s) p"
  "bdata (cache (port_read b s)) (fst b) j = (if snd b \<le> j \<and> j < snd b + 512
     then insw_val (hw s) (io_clock (hw s)) (j - snd b) else bdata (cache s) (fst b) j)"
  "hash_table (cache (port_read b s)) = hash_table (cache s)"
  "free_list (cache (port_read b s)) = free_list (cache s)"
  "hw (port_read b s) = (hw s)\<lparr>io_clock := io_clock (hw s) + 1\<rparr>"
  by (cases b; simp add: port_read_def)+

definition read_done :: "kst \<Rightarrow> kst" where
  "read_done s = upd_rq (CURRENT s) (advance 0)
     (port_read (rq_buffer (rq_of s (CURRENT s))) s)"

lemma read_intr_steps:
  "win_result s = (False, t) \<Longrightarrow> CURRENT t \<noteq> NULL \<Longrightarrow>
   read_intr s = (if rq_nr_sectors (rq_of t (CURRENT t)) \<noteq> 1 then Inr (irq_install_handler 14 Read_intr (read_done t))
     else do_hd_request (end_request True (read_done t)))"
  by (simp add: read_intr_def read_done_def upd_rq_def advance_def Let_def port_read_proj)

lemma read_done_head:
  assumes "queue_inv L s (i # q)"
  shows "head_upd s (read_done s) i (advance 0 (rq_of s i))" "disk_frame s (read_done s)"
proof -
  note H = queue_inv_head [OF assms] and R = req_okD [OF queue_inv_head(3) [OF assms]]
  show "head_upd s (read_done s) i (advance 0 (rq_of s i))"
    using H(1) by (simp add: head_upd_def read_done_def upd_rq_def port_read_proj advance_def)
  have p: "fst (rq_buffer (rq_of s i)) \<noteq> p" if "b_lock (bh_of s p) = 0" for p
    using that R by auto
  have "bdata (cache (read_done s)) p = bdata (cache s) p" if "b_lock (bh_of s p) = 0" for p
    using p [OF that] H(1) port_read_proj(4) [of p "rq_buffer (rq_of s i)" s] by (auto simp: read_done_def upd_rq_def)
  then show "disk_frame s (read_done s)"
    by (simp add: disk_frame_def read_done_def upd_rq_def port_read_proj)
qed

text \<open>What happens once the head request has moved on by a sector.\<close>

lemma progress_settled:
  assumes q: "queue_inv L s (i # q)" and g: "geom_ok s" "irqs_ok s" and f: "disk_frame s t"
    and r: "r = advance e (rq_of s i)" "0 \<le> e" "e < MAX_ERRORS" "rq_nr_sectors (rq_of s i) \<noteq> 1"
    and hu: "head_upd s t i r" and h: "h = (if rq_cmd (rq_of s i) = READ then Read_intr else Write_intr)"
  shows "settled L s (i # q) (irq_install_handler 14 h t)"
proof -
  note H = queue_inv_head [OF q]
  let ?u = "irq_install_handler 14 h t"
  have U: "request_list (drv t) = (request_list (drv s))(i := r)" "NR_BUFFERS (cache t) = NR_BUFFERS (cache s)"
    "\<And>p. b_lock (bh_of t p) = b_lock (bh_of s p) \<and> b_dev (bh_of t p) = b_dev (bh_of s p) \<and>
          b_blocknr (bh_of t p) = b_blocknr (bh_of s p)"
    using hu by (auto simp: head_upd_def)
  have "req_ok t i"
    by (rule req_ok_advance [OF H(3) r(4) _ r(1) r(2,3)]) (use U in \<open>auto simp: buffers_def\<close>)
  from queue_inv_progress [OF q hu this] have "queue_inv L ?u (i # q)" by (simp add: io_only_inv [OF io_install])
  moreover have "armed ?u (i # q)"
    using U(1) r(1) h by (simp add: armed_def irq_install_handler_def advance_def)
  moreover have fu: "disk_frame s ?u" by (rule disk_frame_trans [OF f io_disk_frame [OF io_install]])
  ultimately show ?thesis using drv_inv_frame [OF fu g] by (intro settledI [where k = 0]) simp_all
qed

lemma complete_settled:
  assumes q: "queue_inv L s (i # q)" and g: "geom_ok s" "irqs_ok s" and f: "disk_frame s t" and hu: "head_upd s t i r"
  shows "wp (do_hd_request (end_request u t)) (\<lambda>e. e = not_ready) (settled L s (i # q))"
proof -
  note E = end_request_inv [OF q hu, where u = u]
  show ?thesis
    by (rule do_hd_request_settled [OF disk_frame_trans [OF f drv_disk_frame [OF E(2)]] g, where k = 1]) (simp add: E(1))
qed

lemma settled_io:
  assumes "settled L s q t" "io_only t u" "irq_routines (drv u) = irq_routines (drv t)"
  shows "settled L s q u"
proof -
  obtain k where k: "disk_frame s t" "drv_inv L t (drop k q)" using assms(1) by (auto simp: settled_def)
  note f = io_disk_frame [OF assms(2)]
  have "drv_inv L u (drop k q)"
    by (rule drv_inv_frame [OF f])
       (use k(2) io_only_inv [OF assms(2)] io_only_frame(4) [OF assms(2)] assms(3) in \<open>auto simp: drv_inv_def armed_def\<close>)
  then show ?thesis by (rule settledI [OF disk_frame_trans [OF k(1) f]])
qed

lemma settled_io_pre:
  assumes "io_only s s1" "settled L s1 q t"
  shows "settled L s q t"
  using assms disk_frame_trans [OF io_disk_frame [OF assms(1)]] by (auto simp: settled_def)

text \<open>A handler whose good case is \<open>m\<close>, run on the state after the status was read.\<close>

lemma handler_ok:
  assumes inv: "queue_inv L s q" "geom_ok s" "irqs_ok s" and w: "win_result s = (bad, t)"
    and good: "\<And>i q'. q = i # q' \<Longrightarrow> queue_inv L t (i # q') \<Longrightarrow> wp m (\<lambda>e. e = not_ready) (settled L t (i # q'))"
  shows "wp (if bad then bnd (bad_rw_intr t) (\<lambda>s2. do_hd_request (print_failed w s2))
      else if CURRENT t = NULL then Inl Fault else m) (spurious_or_dead q) (settled L s q)"
proof -
  note io = win_result_pair [OF w]
  have qt: "queue_inv L t q" using inv io_only_inv [OF io] by simp
  show ?thesis
  proof (cases q)
    case Nil
    then have "CURRENT t = NULL" using queue_inv_current [OF qt] by simp
    then show ?thesis using failed_handler [OF inv io] Nil by simp
  next
    case (Cons i q')
    have "CURRENT t \<noteq> NULL" using queue_inv_head [OF qt [unfolded Cons]] by simp
    moreover have "wp m (spurious_or_dead q) (settled L s q)"
      by (rule wp_mono [OF good [OF Cons qt [unfolded Cons]]]) (use Cons settled_io_pre [OF io] in auto)
    ultimately show ?thesis using failed_handler [OF inv io] by simp
  qed
qed

lemma read_intr_ok:
  assumes inv: "queue_inv L s q" "geom_ok s" "irqs_ok s" and cmd: "q \<noteq> [] \<Longrightarrow> rq_cmd (rq_of s (hd q)) = READ"
  shows "wp (read_intr s) (spurious_or_dead q) (settled L s q)"
proof -
  obtain bad t where w: "win_result s = (bad, t)" by (cases "win_result s")
  note io = win_result_pair [OF w]
  note f = io_disk_frame [OF io]
  have g: "geom_ok t" "irqs_ok t" using inv geom_ok_disk [OF f] f by (auto simp: irqs_ok_def disk_frame_def)
  let ?m = "if rq_nr_sectors (rq_of t (CURRENT t)) \<noteq> 1 then Inr (irq_install_handler 14 Read_intr (read_done t))
     else do_hd_request (end_request True (read_done t))"
  have "wp ?m (\<lambda>e. e = not_ready) (settled L t (i # q'))" if q: "q = i # q'" "queue_inv L t (i # q')" for i q'
  proof -
    note H = queue_inv_head [OF q(2)] and D = read_done_head [OF q(2)]
    have "rq_cmd (rq_of t i) = READ" using cmd q(1) io_only_frame(4) [OF io] by simp
    then show ?thesis
      using progress_settled [OF q(2) g D(2) refl _ _ _ D(1), of Read_intr] complete_settled [OF q(2) g D(2,1)] H(1)
      by simp
  qed
  from handler_ok [OF inv w this] show ?thesis
    using read_intr_steps [of s t] w by (cases bad; cases "CURRENT t = NULL") (auto simp: read_intr_def)
qed

definition write_done :: "kst \<Rightarrow> kst" where
  "write_done s = upd_rq (CURRENT s) (\<lambda>r. r\<lparr>rq_nr_sectors := rq_nr_sectors r - 1\<rparr>) s"

definition write_next :: "kst \<Rightarrow> kst" where
  "write_next s = upd_rq (CURRENT s) (\<lambda>r. advance (rq_errors r) r) s"

lemma advance_write:
  "r\<lparr>rq_nr_sectors := rq_nr_sectors r - 1, rq_sector := rq_sector r + 1,
     rq_buffer := (fst (rq_buffer r), snd (rq_buffer r) + 512)\<rparr> = advance (rq_errors r) r"
  by (cases r) (simp add: advance_def)

lemma write_intr_steps:
  assumes "win_result s = (False, t)" "CURRENT t \<noteq> NULL"
  shows "write_intr s =
    (if rq_nr_sectors (rq_of t (CURRENT t)) \<noteq> 1
     then let u = irq_install_handler 14 Write_intr (write_next t)
          in Inr (port_write HD_DATA (rq_buffer (rq_of u (CURRENT t))) u)
     else do_hd_request (end_request True (write_done t)))"
  using assms by (simp add: write_intr_def write_done_def write_next_def upd_rq_def advance_write Let_def)

lemma write_intr_ok:
  assumes inv: "queue_inv L s q" "geom_ok s" "irqs_ok s" and cmd: "q \<noteq> [] \<Longrightarrow> rq_cmd (rq_of s (hd q)) = WRITE"
  shows "wp (write_intr s) (spurious_or_dead q) (settled L s q)"
proof -
  obtain bad t where w: "win_result s = (bad, t)" by (cases "win_result s")
  note io = win_result_pair [OF w]
  note f = io_disk_frame [OF io]
  have g: "geom_ok t" "irqs_ok t" using inv geom_ok_disk [OF f] f by (auto simp: irqs_ok_def disk_frame_def)
  let ?u = "irq_install_handler 14 Write_intr (write_next t)"
  let ?m = "if rq_nr_sectors (rq_of t (CURRENT t)) \<noteq> 1 then Inr (port_write HD_DATA (rq_buffer (rq_of ?u (CURRENT t))) ?u)
     else do_hd_request (end_request True (write_done t))"
  have "wp ?m (\<lambda>e. e = not_ready) (settled L t (i # q'))" if q: "q = i # q'" "queue_inv L t (i # q')" for i q'
  proof -
    note H = queue_inv_head [OF q(2)] and R = req_okD [OF queue_inv_head(3) [OF q(2)]]
    have c: "rq_cmd (rq_of t i) = WRITE" using cmd q(1) io_only_frame(4) [OF io] by simp
    have hn: "head_upd t (write_next t) i (advance (rq_errors (rq_of t i)) (rq_of t i))" "disk_frame t (write_next t)"
      using H(1) by (simp_all add: head_upd_def write_next_def upd_rq_def advance_def disk_frame_def)
    have hd: "head_upd t (write_done t) i ((rq_of t i)\<lparr>rq_nr_sectors := rq_nr_sectors (rq_of t i) - 1\<rparr>)" "disk_frame t (write_done t)"
      using H(1) by (simp_all add: head_upd_def write_done_def upd_rq_def disk_frame_def)
    have "settled L t (i # q') ?u" if "rq_nr_sectors (rq_of t i) \<noteq> 1"
      by (rule progress_settled [OF q(2) g hn(2) refl R(6,7) that hn(1)]) (simp add: c)
    then have "settled L t (i # q') (port_write HD_DATA b ?u)" if "rq_nr_sectors (rq_of t i) \<noteq> 1" for b
      by (rule settled_io [OF _ io_port_write]) (use that in \<open>cases b; simp add: port_write_def\<close>)+
    then show ?thesis using complete_settled [OF q(2) g hd(2,1)] H(1) by simp
  qed
  from handler_ok [OF inv w this] show ?thesis
    using write_intr_steps [of s t] w by (cases bad; cases "CURRENT t = NULL") (auto simp: write_intr_def Let_def)
qed

section \<open>Taking an interrupt\<close>

lemma run_handler_ok:
  assumes inv: "drv_inv L s q" and h: "irq_routines (drv s) i = Some h"
  shows "wp (run_handler h s) (\<lambda>e. i = 14 \<and> spurious_or_dead q e) (settled L s q)"
proof -
  have I: "queue_inv L s q" "geom_ok s" "irqs_ok s" "armed s q" using inv by (auto simp: drv_inv_def)
  have timer: "settled L s q (timer_handler s)"
  proof -
    have f: "disk_frame s (timer_handler s)" by (simp add: disk_frame_def timer_handler_def)
    have "same_queue s (timer_handler s)" by (simp add: same_queue_def timer_handler_def)
    then have "queue_inv L (timer_handler s) q" using I(1) queue_inv_same by blast
    moreover have "armed (timer_handler s) q" using I(4) by (simp add: armed_def timer_handler_def)
    ultimately show ?thesis using drv_inv_frame [OF f I(2,3)] by (intro settledI [OF f, where k = 0]) simp
  qed
  show ?thesis
  proof (cases "i = 14")
    case False
    then have "h = Timer_handler" using I(3) h by (auto simp: irqs_ok_def dest!: spec [where x = i])
    then show ?thesis using timer by simp
  next
    case True
    note H = read_intr_ok [OF I(1-3)] write_intr_ok [OF I(1-3)] recal_intr_ok [OF I(1-3)]
    show ?thesis
    proof (cases "q = []")
      case True
      then show ?thesis using H timer \<open>i = 14\<close> by (cases h) auto
    next
      case False
      have "rq_cmd (rq_of s (hd q)) = READ \<or> rq_cmd (rq_of s (hd q)) = WRITE"
        using queue_invD(4) [OF I(1)] False req_okD(4) by auto
      then show ?thesis using H I(4) h \<open>i = 14\<close> False by (cases h) (auto simp: armed_def split: if_splits)
    qed
  qed
qed

lemma drv_inv_hw: "drv_inv L (s\<lparr>hw := h\<rparr>) q = drv_inv L s q"
proof -
  have "same_queue (s\<lparr>hw := h\<rparr>) s" by (simp add: same_queue_def)
  then show ?thesis using queue_inv_same by (auto simp: drv_inv_def armed_def geom_ok_def irqs_ok_def)
qed

lemma disk_frame_hw: "disk_frame s (t\<lparr>hw := h\<rparr>) = disk_frame s t" "disk_frame (s\<lparr>hw := h\<rparr>) t = disk_frame s t"
  by (simp_all add: disk_frame_def)

lemma settled_hw: "settled L s q (t\<lparr>hw := h\<rparr>) = settled L s q t" "settled L (s\<lparr>hw := h\<rparr>) q t = settled L s q t"
  by (simp_all add: settled_def disk_frame_hw drv_inv_hw)

lemma settled_refl: "drv_inv L s q \<Longrightarrow> settled L s q s"
  by (rule settledI [where k = 0]) simp_all

lemma settled_trans: "drv_inv L t (drop k q) \<Longrightarrow> disk_frame s t \<Longrightarrow> settled L t (drop k q) u \<Longrightarrow> settled L s q u"
  by (auto simp: settled_def intro: disk_frame_trans)

lemma interrupt_settled:
  assumes "drv_inv L s q"
  shows "wp (interrupt i s) (\<lambda>e. i = 14 \<and> spurious_or_dead q e) (\<lambda>t. settled L s q t \<and> if_flag (hw t))"
proof -
  define s1 where "s1 = outb 0x20 0x20 (if 40 \<le> 32 + i then outb 0x20 0xA0 (cli s) else cli s)"
  define h where "h = hw s1"
  have h: "s1 = s\<lparr>hw := h\<rparr>" by (simp add: h_def s1_def outb_def cli_def)
  have inv: "drv_inv L s1 q" using assms by (simp add: h drv_inv_hw)
  have sti: "settled L s q t \<Longrightarrow> settled L s q (sti t) \<and> if_flag (hw (sti t))" for t
    by (simp add: sti_def settled_hw)
  have st: "settled L s1 q t \<longleftrightarrow> settled L s q t" for t by (simp add: h settled_hw)
  have eq: "interrupt i s = bnd (case irq_routines (drv s1) i of None \<Rightarrow> Inr s1 | Some h \<Rightarrow> run_handler h s1) (\<lambda>t. Inr (sti t))"
    unfolding s1_def interrupt_def irq_handler_def Let_def by simp
  show ?thesis
  proof (cases "irq_routines (drv s1) i")
    case None
    then show ?thesis using eq sti [of s1] settled_refl [OF inv] st by simp
  next
    case (Some r)
    have "wp (run_handler r s1) (\<lambda>e. i = 14 \<and> spurious_or_dead q e) (\<lambda>t. settled L s q (sti t) \<and> if_flag (hw (sti t)))"
      by (rule wp_mono [OF run_handler_ok [OF inv Some]]) (use sti st in auto)
    then show ?thesis using eq Some by simp
  qed
qed

section \<open>Spinning until an interrupt changes something\<close>

lemma spin_settled:
  assumes "drv_inv L s q" and body: "\<And>u. \<exists>h. body u = u\<lparr>hw := h\<rparr>"
    and busy: "\<And>u r. drv_inv L u r \<Longrightarrow> \<not> done u \<Longrightarrow> r \<noteq> []"
  shows "wp (spin done body is s) (\<lambda>e. e = Hang \<or> e = not_ready)
     (\<lambda>t. settled L s q t \<and> (\<exists>u h. done u \<and> t = u\<lparr>hw := h\<rparr>))"
  using assms(1)
proof (induction "is" arbitrary: s q)
  case Nil
  then show ?case using settled_refl [OF Nil] by (auto simp: settled_hw)
next
  case (Cons i "is")
  show ?case
  proof (cases "done s")
    case True
    then show ?thesis using settled_refl [OF Cons.prems] by (auto simp: settled_hw)
  next
    case False
    obtain h where h: "body s = s\<lparr>hw := h\<rparr>" using body by blast
    have inv: "drv_inv L (body s) q" using Cons.prems by (simp add: h drv_inv_hw)
    have "wp (interrupt i (body s)) (\<lambda>e. e = Hang \<or> e = not_ready)
        (\<lambda>t. wp (spin done body is t) (\<lambda>e. e = Hang \<or> e = not_ready)
           (\<lambda>t. settled L s q t \<and> (\<exists>u h. done u \<and> t = u\<lparr>hw := h\<rparr>)))"
    proof (rule wp_mono [OF interrupt_settled [OF inv]])
      fix t assume "settled L (body s) q t \<and> if_flag (hw t)"
      then obtain k where k: "disk_frame s t" "drv_inv L t (drop k q)"
        by (auto simp: h settled_def disk_frame_hw)
      show "wp (spin done body is t) (\<lambda>e. e = Hang \<or> e = not_ready)
           (\<lambda>t. settled L s q t \<and> (\<exists>u h. done u \<and> t = u\<lparr>hw := h\<rparr>))"
        by (rule wp_mono [OF Cons.IH [OF k(2)]]) (use settled_trans [OF k(2,1)] in auto)
    qed (use busy [OF Cons.prems False] in auto)
    then show ?thesis using False by (simp add: Let_def)
  qed
qed

end
