(* ===== verification/Request_Inv.thy ===== *)
theory Request_Inv
  imports Hd_Irq
begin

text \<open>
  Queueing a request: the place the elevator chooses, the slots reads and writes may take, and the
  proof that \<open>ll_rw_block\<close> keeps the driver's invariant.
\<close>

section \<open>Free slots\<close>

lemma free_slot_le: "free_slot rl n \<le> n"
  by (induction n) auto

lemma free_slot_free: "free_slot rl n \<noteq> NULL \<Longrightarrow> rq_dev (rl (free_slot rl n)) < 0"
  by (induction n) auto

lemma free_slot_none: "free_slot rl n = NULL \<longleftrightarrow> (\<forall>i \<in> {1..n}. 0 \<le> rq_dev (rl i))"
proof (induction n)
  case (Suc n)
  have "{1..Suc n} = insert (Suc n) {1..n}" by auto
  then show ?case using Suc by auto
qed simp

lemma slots_for_le: "slots_for rw \<le> NR_REQUEST"
  by (simp add: slots_for_def)

lemma slots_for_pos: "0 < slots_for rw"
  by (simp add: slots_for_def)

lemma busy_without_slot:
  assumes "drv_inv L s q" "\<not> has_slot rw s"
  shows "q \<noteq> []"
proof -
  have "\<forall>i \<in> {1..slots_for rw}. 0 \<le> rq_dev (rq_of s i)"
    using assms(2) free_slot_none by (auto simp: has_slot_def)
  then have "0 \<le> rq_dev (rq_of s 1)" using slots_for_pos [of rw] by simp
  then have "1 \<in> set q" using queue_invD(3) [of L s q] assms(1) by (simp add: drv_inv_def)
  then show ?thesis by auto
qed

section \<open>The elevator\<close>

definition goes_between :: "request \<Rightarrow> request \<Rightarrow> request \<Rightarrow> bool" where
  "goes_between a x b \<longleftrightarrow> (IN_ORDER a x \<or> \<not> IN_ORDER a b) \<and> IN_ORDER x b"

fun place :: "(ptr \<Rightarrow> request) \<Rightarrow> ptr \<Rightarrow> ptr list \<Rightarrow> ptr list" where
  "place rl x [] = [x]"
| "place rl x [a] = [a, x]"
| "place rl x (a # b # r) =
     (if goes_between (rl a) (rl x) (rl b) then a # x # b # r else a # place rl x (b # r))"

lemma elevator_place:
  assumes "slist (\<lambda>i. rq_next (rl i)) tmp q" "q \<noteq> []" "length q \<le> n"
  shows "\<exists>as a bs. elevator rl n tmp x = Inr a \<and> q = as @ a # bs \<and> place rl x q = as @ a # x # bs"
  using assms
proof (induction rl x q arbitrary: tmp n rule: place.induct)
  case (2 rl x a)
  then obtain m where "n = Suc m" by (cases n) auto
  then show ?case using 2 by (intro exI [where x = "[]"]) (auto simp: Let_def)
next
  case (3 rl x a b r)
  obtain m where n: "n = Suc m" using 3 by (cases n) auto
  have t: "tmp = a" "rq_next (rl a) = b" "b \<noteq> NULL" using 3 by auto
  show ?case
  proof (cases "goes_between (rl a) (rl x) (rl b)")
    case True
    then show ?thesis using t n by (intro exI [where x = "[]"]) (auto simp: Let_def goes_between_def)
  next
    case False
    then have e: "elevator rl n tmp x = elevator rl m b x" using t n by (auto simp: Let_def goes_between_def)
    have "\<exists>as c bs. elevator rl m b x = Inr c \<and> b # r = as @ c # bs \<and> place rl x (b # r) = as @ c # x # bs"
      by (rule 3(1)) (use 3 n t False in auto)
    then obtain as c bs where w: "elevator rl m b x = Inr c" "b # r = as @ c # bs" "place rl x (b # r) = as @ c # x # bs"
      by blast
    have "place rl x (a # b # r) = (a # as) @ c # x # bs" using False w(3) by simp
    moreover have "a # b # r = (a # as) @ c # bs" using w(2) by simp
    ultimately show ?thesis using e w(1) by metis
  qed
qed simp

lemma place_set: "set (place rl x q) = insert x (set q)"
  by (induction rl x q rule: place.induct) auto

lemma place_distinct: "distinct q \<Longrightarrow> x \<notin> set q \<Longrightarrow> distinct (place rl x q)"
  by (induction rl x q rule: place.induct) (auto simp: place_set)

lemma place_hd: "q \<noteq> [] \<Longrightarrow> hd (place rl x q) = hd q \<and> place rl x q \<noteq> []"
  by (cases "(rl, x, q)" rule: place.cases) auto

lemma place_length: "length (place rl x q) = Suc (length q)"
  by (induction rl x q rule: place.induct) auto

text \<open>
  The order of service. \<open>turns rl q\<close> counts the places where the queue turns back to a smaller
  request: a queue with at most one is served in two sweeps.
\<close>

fun turns :: "(ptr \<Rightarrow> request) \<Rightarrow> ptr list \<Rightarrow> nat" where
  "turns rl (a # b # r) = (if IN_ORDER (rl a) (rl b) then 0 else 1) + turns rl (b # r)"
| "turns rl q = 0"

text \<open>The keys by which requests are ordered form a linear order, of which \<open>IN_ORDER\<close> is the strict part.\<close>

datatype rq_key = Rq_key (key_cmd: int) (key_dev: int) (key_sector: u32)

instantiation rq_key :: linorder
begin

definition less_rq_key :: "rq_key \<Rightarrow> rq_key \<Rightarrow> bool" where
  "less_rq_key a b \<longleftrightarrow> key_cmd a < key_cmd b \<or> (key_cmd a = key_cmd b \<and>
     (key_dev a < key_dev b \<or> (key_dev a = key_dev b \<and> key_sector a < key_sector b)))"

definition less_eq_rq_key :: "rq_key \<Rightarrow> rq_key \<Rightarrow> bool" where
  "less_eq_rq_key a b \<longleftrightarrow> a < b \<or> a = (b :: rq_key)"

instance
  by standard (auto simp: less_rq_key_def less_eq_rq_key_def intro: rq_key.expand)

end

definition key_of :: "request \<Rightarrow> rq_key" where
  "key_of r = Rq_key (rq_cmd r) (rq_dev r) (rq_sector r)"

lemma IN_ORDER_less: "IN_ORDER a b \<longleftrightarrow> key_of a < key_of b"
  by (simp add: IN_ORDER_def key_of_def less_rq_key_def)

text \<open>The queue is served in at most two sweeps.\<close>

definition two_sweeps :: "(ptr \<Rightarrow> request) \<Rightarrow> ptr list \<Rightarrow> bool" where
  "two_sweeps rl q \<longleftrightarrow> (\<exists>as bs. q = as @ bs \<and> sorted (map (\<lambda>i. key_of (rl i)) as) \<and> sorted (map (\<lambda>i. key_of (rl i)) bs))"

lemma turns_sorted: "distinct (map (\<lambda>i. key_of (rl i)) q) \<Longrightarrow> turns rl q = 0 \<longleftrightarrow> sorted (map (\<lambda>i. key_of (rl i)) q)"
proof (induction rl q rule: turns.induct)
  case (1 rl a b r)
  then show ?case by (auto simp: IN_ORDER_less le_less intro: less_trans)
qed auto

lemma turns_sweeps: "distinct (map (\<lambda>i. key_of (rl i)) q) \<Longrightarrow> turns rl q \<le> 1 \<longleftrightarrow> two_sweeps rl q"
proof (induction rl q rule: turns.induct)
  case (1 rl a b r)
  have d: "distinct (map (\<lambda>i. key_of (rl i)) (b # r))" using 1(2) by simp
  note D = 1(2) and IH = 1(1) [OF d]
  show ?case
  proof
    assume t: "turns rl (a # b # r) \<le> 1"
    show "two_sweeps rl (a # b # r)"
    proof (cases "IN_ORDER (rl a) (rl b)")
      case False
      then have "turns rl (b # r) = 0" using t by simp
      then show ?thesis unfolding two_sweeps_def using turns_sorted [OF d] by (intro exI [of _ "[a]"] exI [of _ "b # r"]) simp
    next
      case True
      then obtain as bs where s: "b # r = as @ bs" "sorted (map (\<lambda>i. key_of (rl i)) as)" "sorted (map (\<lambda>i. key_of (rl i)) bs)"
        using IH t by (auto simp: two_sweeps_def)
      have ab: "key_of (rl a) \<le> key_of (rl b)" using True by (simp add: IN_ORDER_less less_imp_le)
      show ?thesis
      proof (cases as)
        case Nil
        then have "sorted (map (\<lambda>i. key_of (rl i)) (a # b # r))" using s ab by (auto dest!: order_trans [OF ab] bspec)
        then show ?thesis unfolding two_sweeps_def by (intro exI [of _ "[]"] exI [of _ "a # b # r"]) simp
      next
        case (Cons c as')
        then have "sorted (map (\<lambda>i. key_of (rl i)) (a # as))" using s ab by (auto dest!: order_trans [OF ab] bspec)
        then show ?thesis unfolding two_sweeps_def using s(1,3) by (intro exI [of _ "a # as"] exI [of _ bs]) simp
      qed
    qed
  next
    assume "two_sweeps rl (a # b # r)"
    then obtain as bs where s: "a # b # r = as @ bs" "sorted (map (\<lambda>i. key_of (rl i)) as)" "sorted (map (\<lambda>i. key_of (rl i)) bs)"
      by (auto simp: two_sweeps_def)
    consider "as = []" | "as = [a]" | as' where "as = a # b # as'" "r = as' @ bs"
      using s(1) by (cases as; cases "tl as") auto
    then show "turns rl (a # b # r) \<le> 1"
    proof cases
      case 1
      then show ?thesis using s turns_sorted [OF D] by simp
    next
      case 2
      then have "turns rl (b # r) = 0" using s turns_sorted [OF d] by simp
      then show ?thesis by simp
    next
      case 3
      have "IN_ORDER (rl a) (rl b)" using s(2) 3(1) D
        by (auto simp: IN_ORDER_less less_le)
      moreover have "two_sweeps rl (b # r)" unfolding two_sweeps_def using s(2,3) 3
        by (intro exI [of _ "b # as'"] exI [of _ bs]) auto
      ultimately show ?thesis using IH by simp
    qed
  qed
qed (simp_all add: two_sweeps_def, (rule exI [of _ "[]"], simp)+)

lemma place_sorted:
  assumes "turns rl (a # r) = 0" "IN_ORDER (rl a) (rl x)" "key_of (rl x) \<notin> key_of ` rl ` set (a # r)"
  shows "turns rl (place rl x (a # r)) = 0"
  using assms
proof (induction r arbitrary: a)
  case (Cons b r)
  show ?case
  proof (cases "IN_ORDER (rl x) (rl b)")
    case True
    then show ?thesis using Cons.prems by (auto simp: goes_between_def split: if_splits)
  next
    case False
    then have "IN_ORDER (rl b) (rl x)" using Cons.prems by (auto simp: IN_ORDER_less)
    then have "turns rl (place rl x (b # r)) = 0" using Cons by (auto split: if_splits)
    moreover obtain q where "place rl x (b # r) = b # q" using place_hd [of "b # r" rl x]
      by (cases "place rl x (b # r)") auto
    ultimately show ?thesis using False Cons.prems by (auto simp: goes_between_def split: if_splits)
  qed
qed simp

lemma place_turns:
  assumes "turns rl q \<le> 1" "key_of (rl x) \<notin> key_of ` rl ` set q"
  shows "turns rl (place rl x q) \<le> 1"
  using assms
proof (induction rl x q rule: place.induct)
  case (3 rl x a b r)
  obtain q where pq: "place rl x (b # r) = b # q" using place_hd [of "b # r" rl x]
    by (cases "place rl x (b # r)") auto
  consider "goes_between (rl a) (rl x) (rl b)"
    | "\<not> goes_between (rl a) (rl x) (rl b)" "IN_ORDER (rl a) (rl b)"
    | "\<not> goes_between (rl a) (rl x) (rl b)" "\<not> IN_ORDER (rl a) (rl b)" by blast
  then show ?case
  proof cases
    case 1
    then show ?thesis using 3(2) by (auto simp: goes_between_def IN_ORDER_less split: if_splits)
  next
    case 2
    then show ?thesis using 3 pq by (auto split: if_splits)
  next
    case c: 3
    then have "IN_ORDER (rl b) (rl x)" using 3(3) by (auto simp: goes_between_def IN_ORDER_less)
    then have "turns rl (place rl x (b # r)) = 0" using c 3 by (intro place_sorted) (auto split: if_splits)
    then show ?thesis using c pq by simp
  qed
qed auto

lemma elevator_sweeps:
  assumes "two_sweeps rl q" "distinct (map (\<lambda>i. key_of (rl i)) (x # q))"
    and "slist (\<lambda>i. rq_next (rl i)) tmp q" "q \<noteq> []" "length q \<le> n"
  shows "\<exists>as a bs. elevator rl n tmp x = Inr a \<and> q = as @ a # bs \<and> two_sweeps rl (as @ a # x # bs)"
proof -
  obtain as a bs where e: "elevator rl n tmp x = Inr a" "q = as @ a # bs" "place rl x q = as @ a # x # bs"
    using elevator_place [OF assms(3-5), of x] by blast
  have "turns rl q \<le> 1" using turns_sweeps [of rl q] assms(1,2) by simp
  then have "turns rl (as @ a # x # bs) \<le> 1" using place_turns [of rl q x] assms(2) e(3) by (simp add: image_image)
  moreover have "distinct (map (\<lambda>i. key_of (rl i)) (as @ a # x # bs))" using assms(2) by (auto simp: e(2))
  ultimately show ?thesis using turns_sweeps e(1,2) by blast
qed

section \<open>Linking a request in\<close>

text \<open>
  The state after the new request \<open>x\<close>, for buffer \<open>bh\<close>, is linked in gives the queue \<open>q'\<close>.
\<close>

lemma queue_inv_enqueue:
  assumes q: "queue_inv (insert bh L) s q" and L: "bh \<notin> L" "bh \<in> buffers (cache s)"
    and x: "x \<in> {1..NR_REQUEST}" "rq_dev (rq_of s x) < 0" "rq_bh (rq_of t x) = bh" "0 \<le> rq_dev (rq_of t x)"
    and ok: "req_ok t x"
    and nx: "slist (\<lambda>i. rq_next (rq_of t i)) (CURRENT t) q'" "set q' = insert x (set q)" "distinct q'"
    and oth: "\<And>j. j \<noteq> x \<Longrightarrow> \<exists>n. rq_of t j = (rq_of s j)\<lparr>rq_next := n\<rparr>"
    and same: "\<And>m. m \<noteq> MAJOR_NR \<Longrightarrow> current_request (drv t) m = current_request (drv s) m"
      "request_fn (drv t) = request_fn (drv s)" "NR_BUFFERS (cache t) = NR_BUFFERS (cache s)"
      "\<And>p. b_lock (bh_of t p) = b_lock (bh_of s p) \<and> b_dev (bh_of t p) = b_dev (bh_of s p) \<and>
          b_blocknr (bh_of t p) = b_blocknr (bh_of s p)"
  shows "queue_inv L t q'"
proof -
  note Q = queue_invD [OF q]
  have xq: "x \<notin> set q" using Q(3) x(2) by auto
  have B: "buffers (cache t) = buffers (cache s)" using same by (simp add: buffers_def)
  have bh: "rq_bh (rq_of t j) = rq_bh (rq_of s j)" "rq_dev (rq_of t j) = rq_dev (rq_of s j)" if "j \<noteq> x" for j
    using oth [OF that] by auto
  have bhq: "rq_bh (rq_of t j) = rq_bh (rq_of s j)" if "j \<in> set q" for j
    using bh that xq by metis
  have new: "rq_bh (rq_of s j) \<noteq> bh" if "j \<in> set q" for j using Q(8) [of bh] that by simp
  show ?thesis
    unfolding queue_inv_def B nx(2)
  proof (intro conjI)
    show "insert x (set q) = {i \<in> {1..NR_REQUEST}. 0 \<le> rq_dev (rq_of t i)}"
    proof (rule set_eqI)
      fix j show "j \<in> insert x (set q) \<longleftrightarrow> j \<in> {i \<in> {1..NR_REQUEST}. 0 \<le> rq_dev (rq_of t i)}"
        using Q(3) bh [of j] x by (cases "j = x") auto
    qed
    show "\<forall>i \<in> insert x (set q). req_ok t i"
    proof
      fix j assume j: "j \<in> insert x (set q)"
      show "req_ok t j"
      proof (cases "j = x")
        case False
        then obtain n where n: "rq_of t j = (rq_of s j)\<lparr>rq_next := n\<rparr>" using oth by blast
        have "req_ok s j" using Q(4) j False by auto
        then show ?thesis using n same(4) B by (auto simp: req_ok_def Let_def)
      qed (use ok in simp)
    qed
    show "inj_on (\<lambda>i. rq_bh (rq_of t i)) (insert x (set q))"
    proof (rule inj_onI)
      fix i j assume ij: "i \<in> insert x (set q)" "j \<in> insert x (set q)" "rq_bh (rq_of t i) = rq_bh (rq_of t j)"
      have "rq_bh (rq_of t k) \<noteq> bh" if "k \<in> insert x (set q)" "k \<noteq> x" for k
        using bhq [of k] new [of k] that by simp
      then have "i = x \<longleftrightarrow> j = x" using ij x(3) by metis
      moreover have "i = j" if "i \<noteq> x" "j \<noteq> x"
      proof (rule inj_onD [OF Q(5)])
        show "rq_bh (rq_of s i) = rq_bh (rq_of s j)" using ij(3) bh(1) [OF that(1)] bh(1) [OF that(2)] by simp
      qed (use ij that in auto)
      ultimately show "i = j" by blast
    qed
    show "\<forall>p \<in> buffers (cache s). b_lock (bh_of t p) \<noteq> 0 \<longrightarrow> p \<in> L \<or> (\<exists>i \<in> insert x (set q). rq_bh (rq_of t i) = p)"
    proof (intro ballI impI)
      fix p assume "p \<in> buffers (cache s)" "b_lock (bh_of t p) \<noteq> 0"
      then have "p = bh \<or> p \<in> L \<or> (\<exists>i \<in> set q. rq_bh (rq_of s i) = p)" using Q(6) [of p] same(4) [of p] by auto
      then show "p \<in> L \<or> (\<exists>i \<in> insert x (set q). rq_bh (rq_of t i) = p)" using bhq x(3) by auto
    qed
    show "\<forall>p \<in> L. b_lock (bh_of t p) \<noteq> 0 \<and> (\<forall>i \<in> insert x (set q). rq_bh (rq_of t i) \<noteq> p)"
    proof (intro ballI conjI)
      fix p i assume p: "p \<in> L"
      show "b_lock (bh_of t p) \<noteq> 0" using Q(8) [of p] p same(4) [of p] by simp
      assume i: "i \<in> insert x (set q)"
      show "rq_bh (rq_of t i) \<noteq> p"
        using Q(8) [of p] p i bhq [of i] x(3) L(1) by (cases "i = x") auto
    qed
    show "\<forall>m. m \<noteq> MAJOR_NR \<longrightarrow> current_request (drv t) m = NULL \<and> \<not> request_fn (drv t) m"
      using Q(7) same by simp
  qed (fact nx)+
qed

definition rw_frame :: "ptr \<Rightarrow> kst \<Rightarrow> kst \<Rightarrow> bool" where
  "rw_frame bh s t \<longleftrightarrow>
     quiet_bh ((bh_of t bh)\<lparr>b_dirt := 0\<rparr>) = quiet_bh ((bh_of s bh)\<lparr>b_dirt := 0\<rparr>) \<and>
     (\<forall>p. p \<noteq> bh \<longrightarrow> quiet_bh (bh_of t p) = quiet_bh (bh_of s p)) \<and>
     (\<forall>p. p \<noteq> bh \<longrightarrow> b_lock (bh_of s p) = 0 \<longrightarrow> bh_of t p = bh_of s p \<and> bdata (cache t) p = bdata (cache s) p) \<and>
     hash_table (cache t) = hash_table (cache s) \<and> free_list (cache t) = free_list (cache s) \<and>
     NR_BUFFERS (cache t) = NR_BUFFERS (cache s) \<and>
     hd_info (drv t) = hd_info (drv s) \<and> NR_HD (drv t) = NR_HD (drv s) \<and>
     partition_info (drv t) = partition_info (drv s) \<and> request_fn (drv t) = request_fn (drv s) \<and>
     (\<forall>j. j \<noteq> 14 \<longrightarrow> irq_routines (drv t) j = irq_routines (drv s) j)"

lemma quiet_dirt: "quiet_bh b = quiet_bh b' \<Longrightarrow> quiet_bh (b\<lparr>b_dirt := 0\<rparr>) = quiet_bh (b'\<lparr>b_dirt := 0\<rparr>)"
  by (cases b; cases b') (simp add: quiet_bh_def)

lemma rw_frame_refl [simp]: "rw_frame bh s s"
  by (simp add: rw_frame_def)

lemma rw_frame_trans: "rw_frame bh s t \<Longrightarrow> rw_frame bh t u \<Longrightarrow> rw_frame bh s u"
  by (simp add: rw_frame_def)

lemma disk_rw_frame:
  assumes "disk_frame s t"
  shows "rw_frame bh s t"
proof -
  have "quiet_bh (bh_of t bh) = quiet_bh (bh_of s bh)" using assms by (simp add: disk_frame_def)
  from quiet_dirt [OF this] show ?thesis using assms unfolding rw_frame_def disk_frame_def by blast
qed

lemma rw_frame_geom: "rw_frame bh s t \<Longrightarrow> geom_ok t = geom_ok s \<and> irqs_ok t = irqs_ok s"
  by (simp add: rw_frame_def geom_ok_def irqs_ok_def)

definition queued :: "ptr set \<Rightarrow> ptr \<Rightarrow> kst \<Rightarrow> kst \<Rightarrow> bool" where
  "queued L bh s t \<longleftrightarrow> rw_frame bh s t \<and> (\<exists>q. drv_inv L t q)"

text \<open>The request that \<open>fill_request\<close> makes, and the state \<open>add_request\<close> starts from.\<close>

lemma fill_request_proj:
  "cache (fill_request rw bh x s) = cache s" "hw (fill_request rw bh x s) = hw s"
  "drv (fill_request rw bh x s) = (drv s)\<lparr>request_list := (request_list (drv s))(x := (rq_of s x)\<lparr>
     rq_dev := uint (b_dev (bh_of s bh)), rq_cmd := rw, rq_errors := 0,
     rq_sector := push_bit 1 (b_blocknr (bh_of s bh)), rq_nr_sectors := 2,
     rq_buffer := (bh, 0), rq_bh := bh, rq_next := NULL\<rparr>)\<rparr>"
  by (simp_all add: fill_request_def upd_rq_def)

definition entering :: "ptr set \<Rightarrow> int \<Rightarrow> ptr \<Rightarrow> ptr \<Rightarrow> kst \<Rightarrow> ptr list \<Rightarrow> bool" where
  "entering L rw bh x s q \<longleftrightarrow>
     drv_inv (insert bh L) s q \<and> bh \<notin> L \<and> bh \<in> buffers (cache s) \<and>
     x \<in> {1..NR_REQUEST} \<and> rq_dev (rq_of s x) < 0 \<and> (rw = READ \<or> rw = WRITE) \<and>
     MAJOR (uint (b_dev (bh_of s bh))) = MAJOR_NR \<and> request_fn (drv s) MAJOR_NR"

text \<open>\<open>t\<close> is \<open>s\<close> with the new request written to its slot and linked by \<open>next\<close>.\<close>

definition linked :: "int \<Rightarrow> ptr \<Rightarrow> ptr \<Rightarrow> kst \<Rightarrow> kst \<Rightarrow> bool" where
  "linked rw bh x s t \<longleftrightarrow>
     (\<exists>n. rq_of t x = (rq_of (fill_request rw bh x s) x)\<lparr>rq_next := n\<rparr>) \<and>
     (\<forall>j. j \<noteq> x \<longrightarrow> (\<exists>n. rq_of t j = (rq_of s j)\<lparr>rq_next := n\<rparr>)) \<and>
     cache t = upd_buf bh (\<lambda>b. b\<lparr>b_dirt := 0\<rparr>) (cache s) \<and>
     (\<forall>m. m \<noteq> MAJOR_NR \<longrightarrow> current_request (drv t) m = current_request (drv s) m) \<and>
     hd_info (drv t) = hd_info (drv s) \<and> NR_HD (drv t) = NR_HD (drv s) \<and>
     partition_info (drv t) = partition_info (drv s) \<and> request_fn (drv t) = request_fn (drv s) \<and>
     irq_routines (drv t) = irq_routines (drv s) \<and> recalibrate (drv t) = recalibrate (drv s) \<and>
     reset (drv t) = reset (drv s) \<and> hw t = (hw s)\<lparr>if_flag := True\<rparr>"

lemma same_but_next: "\<exists>n. r = (r :: request)\<lparr>rq_next := n\<rparr>"
  by (rule exI [where x = "rq_next r"]) simp

lemma linked_frame: "linked rw bh x s t \<Longrightarrow> rw_frame bh s t"
  by (simp add: linked_def rw_frame_def quiet_bh_def)

lemma linked_queue:
  assumes e: "entering L rw bh x s q" and l: "linked rw bh x s t"
    and nx: "slist (\<lambda>i. rq_next (rq_of t i)) (CURRENT t) q'" "set q' = insert x (set q)" "distinct q'"
  shows "queue_inv L t q'"
proof -
  have q: "queue_inv (insert bh L) s q" using e by (simp add: entering_def drv_inv_def)
  have lk: "b_lock (bh_of s bh) \<noteq> 0" using queue_invD(8) [OF q, of bh] by simp
  have c: "cache t = upd_buf bh (\<lambda>b. b\<lparr>b_dirt := 0\<rparr>) (cache s)" using l by (simp add: linked_def)
  obtain n where n: "rq_of t x = (rq_of (fill_request rw bh x s) x)\<lparr>rq_next := n\<rparr>"
    using l by (auto simp: linked_def)
  have "req_ok t x"
    using n lk e c by (auto simp: req_ok_def Let_def fill_request_proj entering_def buffers_def)
  then show ?thesis
    using e l n c nx
    by (intro queue_inv_enqueue [OF q, of x t q']) (auto simp: entering_def linked_def fill_request_proj)
qed

lemma add_request_idle:
  assumes e: "entering L rw bh x s []"
  shows "\<exists>t. add_request_irq w MAJOR_NR x (fill_request rw bh x s) = bnd (interrupts (at_start w) t)
       (\<lambda>u. if request_fn (drv u) MAJOR_NR then do_hd_request u else Inl Fault) \<and>
     linked rw bh x s t \<and> queue_inv L t [x] \<and> request_fn (drv t) MAJOR_NR"
proof -
  define t where "t = sti (set_current MAJOR_NR x (upd_bh bh (\<lambda>b. b\<lparr>b_dirt := 0\<rparr>)
      (cli (upd_rq x (\<lambda>r. r\<lparr>rq_next := NULL\<rparr>) (fill_request rw bh x s)))))"
  have q: "queue_inv (insert bh L) s []" and bh: "bh \<noteq> NULL" and fn: "request_fn (drv s) MAJOR_NR"
    using e by (auto simp: entering_def drv_inv_def buffers_def)
  have cur: "current_request (drv s) MAJOR_NR = NULL" using queue_inv_current [OF q] by (simp add: CURRENT_def)
  have l: "linked rw bh x s t"
    by (auto simp: t_def linked_def machine_defs fill_request_proj same_but_next)
  have "slist (\<lambda>i. rq_next (rq_of t i)) (CURRENT t) [x]"
    using e by (simp add: t_def machine_defs fill_request_proj entering_def)
  then have "queue_inv L t [x]" by (intro linked_queue [OF e l]) auto
  moreover have "add_request_irq w MAJOR_NR x (fill_request rw bh x s) = bnd (interrupts (at_start w) t)
       (\<lambda>u. if request_fn (drv u) MAJOR_NR then do_hd_request u else Inl Fault)"
    using bh cur by (simp add: add_request_irq_def t_def Let_def CURRENT_def fill_request_proj) (simp add: machine_defs fill_request_proj)
  moreover have "request_fn (drv t) MAJOR_NR" using l fn by (simp add: linked_def)
  ultimately show ?thesis using l by blast
qed

lemma slist_length:
  assumes "queue_inv L s q"
  shows "length q \<le> NR_REQUEST"
proof -
  have "card (set q) \<le> card {1..NR_REQUEST}"
    by (rule card_mono) (use queue_invD(3) [OF assms] in auto)
  then show ?thesis using queue_invD(2) [OF assms] by (simp add: distinct_card)
qed

lemma add_request_busy:
  assumes e: "entering L rw bh x s q" and ne: "q \<noteq> []"
  shows "\<exists>t. add_request MAJOR_NR x (fill_request rw bh x s) = Inr t \<and> linked rw bh x s t \<and>
     current_request (drv t) = current_request (drv s) \<and>
     queue_inv L t (place (request_list (drv (fill_request rw bh x s))) x q)"
proof -
  define s2 where "s2 = upd_bh bh (\<lambda>b. b\<lparr>b_dirt := 0\<rparr>)
      (cli (upd_rq x (\<lambda>r. r\<lparr>rq_next := NULL\<rparr>) (fill_request rw bh x s)))"
  let ?rl = "request_list (drv (fill_request rw bh x s))"
  have q: "queue_inv (insert bh L) s q" and bh: "bh \<noteq> NULL" and x0: "x \<noteq> NULL" "rq_dev (rq_of s x) < 0"
    using e by (auto simp: entering_def drv_inv_def buffers_def)
  note Q = queue_invD [OF q]
  have xq: "x \<notin> set q" using Q(3) x0 by auto
  have rl: "request_list (drv s2) = ?rl" by (simp add: s2_def machine_defs fill_request_proj fun_eq_iff)
  have cur: "current_request (drv s2) = current_request (drv s)" by (simp add: s2_def machine_defs fill_request_proj)
  have "slist (\<lambda>i. rq_next (?rl i)) (CURRENT s) q = slist (\<lambda>i. rq_next (rq_of s i)) (CURRENT s) q"
    by (rule slist_cong) (use xq in \<open>auto simp: fill_request_proj\<close>)
  then have sl: "slist (\<lambda>i. rq_next (?rl i)) (CURRENT s) q" using Q(1) by simp
  obtain as a bs where el: "elevator ?rl NR_REQUEST (CURRENT s) x = Inr a" "q = as @ a # bs"
      "place ?rl x q = as @ a # x # bs"
    using elevator_place [OF sl ne slist_length [OF q], of x] by blast
  define t where "t = sti (upd_rq a (\<lambda>r. r\<lparr>rq_next := x\<rparr>) (upd_rq x (\<lambda>r. r\<lparr>rq_next := rq_next (rq_of s2 a)\<rparr>) s2))"
  have ax: "a \<noteq> x" using xq el by auto
  have l: "linked rw bh x s t"
    using ax rl by (auto simp: t_def s2_def linked_def machine_defs fill_request_proj same_but_next)
  have nxt: "(\<lambda>i. rq_next (rq_of t i)) = (\<lambda>i. rq_next (?rl i))(x := rq_next (?rl a), a := x)"
    using rl ax by (auto simp: t_def machine_defs fun_eq_iff)
  have cur_t: "current_request (drv t) = current_request (drv s)" using cur by (simp add: t_def machine_defs)
  then have "slist (\<lambda>i. rq_next (rq_of t i)) (CURRENT t) (place ?rl x q)"
    unfolding nxt el(3) using slist_insert_after [OF sl [unfolded el(2)], of x] Q(2) xq el(2) x0
    by (simp add: CURRENT_def)
  then have "queue_inv L t (place ?rl x q)"
    by (rule linked_queue [OF e l]) (use Q(2) xq place_set place_distinct in auto)
  moreover have "CURRENT s \<noteq> NULL" using queue_inv_current [OF q] ne Q(1) by (cases q) auto
  then have "add_request MAJOR_NR x (fill_request rw bh x s) = Inr t"
    using bh el(1) cur rl
    by (simp add: add_request_eq Let_def t_def s2_def CURRENT_def) (simp add: machine_defs fill_request_proj)
  ultimately show ?thesis using l cur_t by blast
qed

lemma add_request_ok:
  assumes e: "entering L rw bh x s q"
  shows "wp (add_request MAJOR_NR x (fill_request rw bh x s)) (\<lambda>e. e = not_ready) (queued L bh s)"
proof -
  have g: "geom_ok s" "irqs_ok s" "armed s q" using e by (auto simp: entering_def drv_inv_def)
  show ?thesis
  proof (cases "q = []")
    case True
    obtain t where t: "add_request MAJOR_NR x (fill_request rw bh x s) = do_hd_request t"
        "linked rw bh x s t" "queue_inv L t [x]"
      using add_request_idle [OF e [unfolded True], of no_irqs] by (auto simp: add_request_def no_irqs_def)
    note f = linked_frame [OF t(2)]
    have "wp (do_hd_request t) (\<lambda>e. e = not_ready) (settled L t [x])"
      by (rule do_hd_request_settled [OF disk_frame_refl, where k = 0]) (use t(3) g rw_frame_geom [OF f] in simp_all)
    then have "wp (do_hd_request t) (\<lambda>e. e = not_ready) (queued L bh s)"
      by (rule wp_mono) (auto simp: settled_def queued_def intro: rw_frame_trans [OF f disk_rw_frame])
    then show ?thesis using t(1) by simp
  next
    case False
    let ?q = "place (request_list (drv (fill_request rw bh x s))) x q"
    obtain t where t: "add_request MAJOR_NR x (fill_request rw bh x s) = Inr t" "linked rw bh x s t" "queue_inv L t ?q"
      using add_request_busy [OF e False] by blast
    note f = linked_frame [OF t(2)]
    have h: "hd ?q = hd q" "?q \<noteq> []" using place_hd [OF False] by auto
    have "hd q \<in> set q" using False by simp
    moreover have "x \<notin> set q"
      using e queue_invD(3) [of "insert bh L" s q] by (auto simp: entering_def drv_inv_def)
    ultimately have "hd q \<noteq> x" by auto
    then obtain n where "rq_of t (hd q) = (rq_of s (hd q))\<lparr>rq_next := n\<rparr>" using t(2) by (auto simp: linked_def)
    then have "armed t ?q" using g(3) h False t(2) by (simp add: armed_def linked_def)
    then have "drv_inv L t ?q" using t(3) g rw_frame_geom [OF f] by (simp add: drv_inv_def)
    then show ?thesis using t(1) f by (auto simp: queued_def)
  qed
qed

section \<open>\<open>ll_rw_block\<close>\<close>

lemma disk_frame_fields:
  assumes "disk_frame s t"
  shows "b_dev (bh_of t p) = b_dev (bh_of s p)" "b_blocknr (bh_of t p) = b_blocknr (bh_of s p)"
    "b_count (bh_of t p) = b_count (bh_of s p)" "b_dirt (bh_of t p) = b_dirt (bh_of s p)"
    "buffers (cache t) = buffers (cache s)" "request_fn (drv t) = request_fn (drv s)"
  using assms quiet_fields [of "bh_of t p" "bh_of s p"] by (simp_all add: disk_frame_def buffers_def)

text \<open>Waiting for a slot, and the state in which the slot is filled.\<close>

lemma spin_slot:
  assumes inv: "drv_inv L s q"
  shows "wp (spin_until (has_slot rw) (\<lambda>s. s) s) (\<lambda>e. e = not_ready \<or> e = Hang \<and> \<not> has_slot rw s)
    (\<lambda>t. settled L s q t \<and> has_slot rw t)"
proof (cases "has_slot rw s")
  case True
  then have "spin_until (has_slot rw) (\<lambda>s. s) s = Inr (s\<lparr>hw := (hw s)\<lparr>irqs := irqs (hw s)\<rparr>\<rparr>)"
    by (cases "irqs (hw s)") (simp_all add: spin_until_def)
  then show ?thesis using True settled_refl [OF inv] by simp
next
  case False
  have "wp (spin (has_slot rw) (\<lambda>s. s) (irqs (hw s)) s) (\<lambda>e. e = Hang \<or> e = not_ready)
     (\<lambda>t. settled L s q t \<and> (\<exists>u h. has_slot rw u \<and> t = u\<lparr>hw := h\<rparr>))"
  proof (rule spin_settled [OF inv])
    show "\<exists>h. u = u\<lparr>hw := h\<rparr>" for u :: kst by (rule exI [where x = "hw u"]) simp
  qed (rule busy_without_slot)
  then have "wp (spin (has_slot rw) (\<lambda>s. s) (irqs (hw s)) s) (\<lambda>e. e = not_ready \<or> e = Hang \<and> \<not> has_slot rw s)
      (\<lambda>t. settled L s q t \<and> has_slot rw t)"
    by (rule wp_mono) (use False in \<open>auto simp: has_slot_def\<close>)
  then show ?thesis by (simp add: spin_until_def)
qed

lemma slot_entering:
  assumes t: "drv_inv (insert bh L) t q" "disk_frame s t" and x: "free_slot (request_list (drv t)) (slots_for rw) = x" "x \<noteq> NULL"
    and bh: "bh \<notin> L" "bh \<in> buffers (cache s)" and rw: "rw = READ \<or> rw = WRITE"
    and dev: "MAJOR (uint (b_dev (bh_of s bh))) = MAJOR_NR" "request_fn (drv s) MAJOR_NR"
  shows "entering L rw bh x t q"
proof -
  have "x \<in> {1..NR_REQUEST}"
    using free_slot_le [of "request_list (drv t)" "slots_for rw"] slots_for_le [of rw] x by simp
  moreover have "rq_dev (rq_of t x) < 0" using free_slot_free [of "request_list (drv t)" "slots_for rw"] x by simp
  ultimately show ?thesis using t(1) bh rw dev disk_frame_fields [OF t(2)] by (simp add: entering_def)
qed

lemma queue_block_ok:
  assumes inv: "drv_inv (insert bh L) s q" and bh: "bh \<notin> L" "bh \<in> buffers (cache s)"
    and rw: "rw = READ \<or> rw = WRITE" and dev: "MAJOR (uint (b_dev (bh_of s bh))) = MAJOR_NR" "request_fn (drv s) MAJOR_NR"
    and slot: "has_slot rw s \<or> \<not> ahead"
  shows "wp (queue_block rw ahead MAJOR_NR bh s) (\<lambda>e. e = not_ready \<or> e = Hang \<and> \<not> has_slot rw s) (queued L bh s)"
proof -
  have "wp (spin_until (has_slot rw) (\<lambda>s. s) s) (\<lambda>e. e = not_ready \<or> e = Hang \<and> \<not> has_slot rw s)
     (\<lambda>t. wp (let req = free_slot (request_list (drv t)) (slots_for rw)
           in add_request MAJOR_NR req (fill_request rw bh req t))
        (\<lambda>e. e = not_ready \<or> e = Hang \<and> \<not> has_slot rw s) (queued L bh s))"
  proof (rule wp_mono [OF spin_slot [OF inv]])
    fix t assume t: "settled (insert bh L) s q t \<and> has_slot rw t"
    let ?x = "free_slot (request_list (drv t)) (slots_for rw)"
    obtain k where k: "disk_frame s t" "drv_inv (insert bh L) t (drop k q)" using t by (auto simp: settled_def)
    have "entering L rw bh ?x t (drop k q)"
      by (rule slot_entering [OF k(2,1) refl _ bh rw dev]) (use t in \<open>simp add: has_slot_def\<close>)
    from add_request_ok [OF this]
    show "wp (let req = ?x in add_request MAJOR_NR req (fill_request rw bh req t))
        (\<lambda>e. e = not_ready \<or> e = Hang \<and> \<not> has_slot rw s) (queued L bh s)"
      unfolding Let_def
      by (rule wp_mono) (auto simp: queued_def intro: rw_frame_trans [OF disk_rw_frame [OF k(1)]])
  qed
  then show ?thesis using slot by (auto simp: queue_block_eq)
qed

lemma lock_buff_inv:
  assumes inv: "drv_inv L s q" and bh: "bh \<in> buffers (cache s)" "b_lock (bh_of s bh) = 0" "bh \<notin> L"
  shows "drv_inv (insert bh L) (lock_buff bh s) q"
proof -
  let ?t = "lock_buff bh s"
  have q: "queue_inv L s q" using inv by (simp add: drv_inv_def)
  note Q = queue_invD [OF q]
  have t: "drv ?t = drv s" "\<And>p. p \<noteq> bh \<Longrightarrow> bh_of ?t p = bh_of s p" "bh_of ?t bh = (bh_of s bh)\<lparr>b_lock := 1\<rparr>"
    "NR_BUFFERS (cache ?t) = NR_BUFFERS (cache s)"
    by (simp_all add: lock_buff_def machine_defs)
  have nq: "rq_bh (rq_of s i) \<noteq> bh" if "i \<in> set q" for i
    using req_okD(2) [OF Q(4) [OF that]] bh by auto
  have B: "buffers (cache ?t) = buffers (cache s)" "CURRENT ?t = CURRENT s" using t by (simp_all add: buffers_def CURRENT_def)
  have "queue_inv (insert bh L) ?t q"
    unfolding queue_inv_def B t(1)
  proof (intro conjI)
    show "\<forall>i \<in> set q. req_ok ?t i"
    proof
      fix i assume i: "i \<in> set q"
      then have "bh_of ?t (rq_bh (rq_of s i)) = bh_of s (rq_bh (rq_of s i))" by (rule t(2) [OF nq])
      then have "req_ok ?t i = req_ok s i" using B(1) by (simp add: req_ok_def Let_def t(1))
      then show "req_ok ?t i" using Q(4) [OF i] by simp
    qed
    show "\<forall>p \<in> buffers (cache s). b_lock (bh_of ?t p) \<noteq> 0 \<longrightarrow> p \<in> insert bh L \<or> (\<exists>i \<in> set q. rq_bh (rq_of s i) = p)"
      using Q(6) t(2) by (metis insert_iff)
    show "\<forall>p \<in> insert bh L. b_lock (bh_of ?t p) \<noteq> 0 \<and> (\<forall>i \<in> set q. rq_bh (rq_of s i) \<noteq> p)"
    proof
      fix p assume "p \<in> insert bh L"
      then show "b_lock (bh_of ?t p) \<noteq> 0 \<and> (\<forall>i \<in> set q. rq_bh (rq_of s i) \<noteq> p)"
        using Q(8) [of p] t(2) [of p] t(3) nq by (cases "p = bh") auto
    qed
  qed (use Q in blast)+
  then show ?thesis using inv t(1) by (simp add: drv_inv_def armed_def geom_ok_def irqs_ok_def)
qed

lemma unlock_buff_inv:
  assumes inv: "drv_inv (insert bh L) s q" and bh: "bh \<notin> L"
  shows "drv_inv L (unlock_buff bh s) q" "rw_frame bh s (unlock_buff bh s)"
proof -
  let ?t = "unlock_buff bh s"
  have q: "queue_inv (insert bh L) s q" using inv by (simp add: drv_inv_def)
  note Q = queue_invD [OF q]
  have t: "drv ?t = drv s" "\<And>p. p \<noteq> bh \<Longrightarrow> bh_of ?t p = bh_of s p" "bh_of ?t bh = (bh_of s bh)\<lparr>b_lock := 0\<rparr>"
    "NR_BUFFERS (cache ?t) = NR_BUFFERS (cache s)"
    by (simp_all add: unlock_buff_def Let_def machine_defs)
  have B: "buffers (cache ?t) = buffers (cache s)" "CURRENT ?t = CURRENT s" using t by (simp_all add: buffers_def CURRENT_def)
  have nq: "rq_bh (rq_of s i) \<noteq> bh" if "i \<in> set q" for i using Q(8) [of bh] that by simp
  have "queue_inv L ?t q"
    unfolding queue_inv_def B t(1)
  proof (intro conjI)
    show "\<forall>i \<in> set q. req_ok ?t i"
    proof
      fix i assume i: "i \<in> set q"
      then have "bh_of ?t (rq_bh (rq_of s i)) = bh_of s (rq_bh (rq_of s i))" by (rule t(2) [OF nq])
      then have "req_ok ?t i = req_ok s i" using B(1) by (simp add: req_ok_def Let_def t(1))
      then show "req_ok ?t i" using Q(4) [OF i] by simp
    qed
    show "\<forall>p \<in> buffers (cache s). b_lock (bh_of ?t p) \<noteq> 0 \<longrightarrow> p \<in> L \<or> (\<exists>i \<in> set q. rq_bh (rq_of s i) = p)"
    proof (intro ballI impI)
      fix p assume "p \<in> buffers (cache s)" "b_lock (bh_of ?t p) \<noteq> 0"
      then show "p \<in> L \<or> (\<exists>i \<in> set q. rq_bh (rq_of s i) = p)" using Q(6) [of p] t(2) [of p] t(3) by (cases "p = bh") auto
    qed
    show "\<forall>p \<in> L. b_lock (bh_of ?t p) \<noteq> 0 \<and> (\<forall>i \<in> set q. rq_bh (rq_of s i) \<noteq> p)"
      using Q(8) t(2) bh by (metis insert_iff)
  qed (use Q in blast)+
  then show "drv_inv L ?t q" using inv t(1) by (simp add: drv_inv_def armed_def geom_ok_def irqs_ok_def)
  show "rw_frame bh s ?t" by (simp add: rw_frame_def unlock_buff_def Let_def machine_defs quiet_bh_def)
qed

text \<open>Unlocking again a buffer that was only locked gives back the buffer cache.\<close>

lemma unlock_lock:
  assumes "b_lock (bh_of s bh) = 0" "bufs (cache t) = bufs (cache (lock_buff bh s))" "drv t = drv s"
    "NR_BUFFERS (cache t) = NR_BUFFERS (cache s)" "hash_table (cache t) = hash_table (cache s)"
    "free_list (cache t) = free_list (cache s)" "bdata (cache t) = bdata (cache s)"
  shows "cache (unlock_buff bh t) = cache s" "drv (unlock_buff bh t) = drv s"
  using assms by (auto simp: unlock_buff_def lock_buff_def machine_defs upd_buf_def Let_def intro!: cache.equality)

lemma drv_inv_same:
  assumes "drv_inv L s q" "cache t = cache s" "drv t = drv s"
  shows "drv_inv L t q" "disk_frame s t"
proof -
  have "same_queue s t" using assms by (simp add: same_queue_def)
  then show "drv_inv L t q" using assms queue_inv_same by (auto simp: drv_inv_def armed_def geom_ok_def irqs_ok_def)
  show "disk_frame s t" using assms by (simp add: disk_frame_def)
qed

lemma queued_same: "drv_inv L s q \<Longrightarrow> cache t = cache s \<Longrightarrow> drv t = drv s \<Longrightarrow> queued L bh s t"
  using drv_inv_same [of L s q t] disk_rw_frame [of s t bh] unfolding queued_def by blast

definition is_rw :: "int \<Rightarrow> bool" where
  "is_rw rw \<longleftrightarrow> rw \<in> {READ, WRITE, READA, WRITEA}"

lemma ll_rw_block_queued:
  assumes inv: "drv_inv L s q" and bh: "bh \<in> buffers (cache s)" "b_lock (bh_of s bh) = 0" "bh \<notin> L"
    and rw: "is_rw rw"
  shows "wp (ll_rw_block rw bh s) (\<lambda>e. e = not_ready \<or> e = Hang \<and> \<not> has_slot rw s) (queued L bh s)"
proof -
  let ?m = "MAJOR (uint (b_dev (bh_of s bh)))"
  let ?ahead = "rw = READA \<or> rw = WRITEA"
  define rw' where "rw' = (if ?ahead then (if rw = READA then READ else WRITE) else rw)"
  have rw': "rw' = READ \<or> rw' = WRITE" "?ahead \<or> rw' = rw" using rw by (auto simp: rw'_def is_rw_def)
  show ?thesis
  proof (cases "NR_BLK_DEV \<le> ?m \<or> \<not> request_fn (drv s) ?m")
    case True
    have "queued L bh s (printk f a s)" for f a by (rule queued_same [OF inv]) (simp_all add: printk_def)
    then show ?thesis using True by (simp add: ll_rw_block_eq)
  next
    case False
    have m1: "?m = MAJOR_NR"
      using False queue_invD(7) [of L s q ?m] inv by (auto simp: drv_inv_def)
    then have m: "?m = MAJOR_NR" "request_fn (drv s) MAJOR_NR" using False by simp_all
    define s1 where "s1 = lock_buff bh s"
    have inv1: "drv_inv (insert bh L) s1 q" unfolding s1_def by (rule lock_buff_inv [OF inv bh])
    have s1: "drv s1 = drv s" "buffers (cache s1) = buffers (cache s)" "b_dev (bh_of s1 bh) = b_dev (bh_of s bh)"
      by (simp_all add: s1_def lock_buff_def machine_defs buffers_def)
    have f1: "rw_frame bh s s1"
      by (simp add: s1_def rw_frame_def lock_buff_def machine_defs quiet_bh_def)
    have un: "queued L bh s (unlock_buff bh t)" if "cache t = cache s1" "drv t = drv s" for t
    proof -
      have "cache (unlock_buff bh t) = cache s" "drv (unlock_buff bh t) = drv s"
        by (rule unlock_lock; use that bh s1 in \<open>simp add: s1_def; simp add: lock_buff_def machine_defs\<close>)+
      then show ?thesis by (rule queued_same [OF inv])
    qed
    have qb: "wp (queue_block rw' ?ahead ?m bh s1) (\<lambda>e. e = not_ready \<or> e = Hang \<and> \<not> has_slot rw s) (queued L bh s)"
    proof (cases "?ahead \<and> \<not> has_slot rw' s1")
      case True
      then show ?thesis using un [of s1] s1(1) by (simp add: queue_block_eq)
    next
      case nope: False
      have slot: "has_slot rw' s1 \<or> \<not> ?ahead" using nope by blast
      have hs: "has_slot rw' s1 = has_slot rw' s" using s1 by (simp add: has_slot_def)
      have "wp (queue_block rw' ?ahead MAJOR_NR bh s1) (\<lambda>e. e = not_ready \<or> e = Hang \<and> \<not> has_slot rw' s1) (queued L bh s1)"
        by (rule queue_block_ok [OF inv1 bh(3) _ rw'(1) _ _ slot]) (use bh s1 m in simp_all)
      then show ?thesis
        unfolding m(1)
        by (rule wp_mono) (use nope rw'(2) hs in \<open>auto simp: queued_def intro: rw_frame_trans [OF f1]\<close>)
    qed
    have "ll_rw_block rw bh s =
       (if (rw' = WRITE \<and> b_dirt (bh_of s1 bh) = 0) \<or> (rw' = READ \<and> b_uptodate (bh_of s1 bh) \<noteq> 0)
         then Inr (unlock_buff bh (printk (''read|write:%d dirt:%d uptodate:%d'' @ NLCR)
                     [ArgI (word_of_int rw'), ArgI (ucast (b_dirt (bh_of s1 bh))), ArgI (ucast (b_uptodate (bh_of s1 bh)))] s1))
         else queue_block rw' ?ahead ?m bh s1)"
      using False bh rw' unfolding ll_rw_block_eq Let_def rw'_def [symmetric] s1_def [symmetric] by auto
    moreover have "queued L bh s (unlock_buff bh (printk f a s1))" for f a
      by (rule un) (simp_all add: printk_def s1)
    ultimately show ?thesis using qb by simp
  qed
qed

end
