(* ===== verification/Buffer_Inv.thy ===== *)
theory Buffer_Inv
  imports Buffer Request_Inv
begin

text \<open>
  What the buffer operations promise while the disk works in the background: they keep the
  invariants of the cache and of the driver, and stop only when the disk does.
\<close>

section \<open>The parts of the cache the disk leaves alone\<close>

text \<open>\<open>calm b\<close> is \<open>b\<close> without the fields the disk and its queue may change.\<close>

definition calm :: "buffer_head \<Rightarrow> buffer_head" where
  "calm b = b\<lparr>b_uptodate := 0, b_lock := 0, b_dirt := 0\<rparr>"

definition same_index :: "kst \<Rightarrow> kst \<Rightarrow> bool" where
  "same_index s t \<longleftrightarrow> (\<forall>p. calm (bh_of t p) = calm (bh_of s p)) \<and>
     hash_table (cache t) = hash_table (cache s) \<and> free_list (cache t) = free_list (cache s) \<and>
     NR_BUFFERS (cache t) = NR_BUFFERS (cache s)"

lemma same_index_refl [simp]: "same_index s s"
  by (simp add: same_index_def)

lemma same_index_trans: "same_index s t \<Longrightarrow> same_index t u \<Longrightarrow> same_index s u"
  by (simp add: same_index_def)

lemma calm_quiet: "calm b = quiet_bh (b\<lparr>b_dirt := 0\<rparr>)"
  by (simp add: calm_def quiet_bh_def)

lemma same_index_rw:
  assumes "rw_frame bh s t"
  shows "same_index s t"
proof -
  have "calm (bh_of t p) = calm (bh_of s p)" for p
    using assms quiet_dirt [of "bh_of t p" "bh_of s p"]
    by (cases "p = bh") (auto simp: calm_quiet rw_frame_def)
  then show ?thesis using assms by (simp add: same_index_def rw_frame_def)
qed

lemma same_index_disk: "disk_frame s t \<Longrightarrow> same_index s t"
  by (rule same_index_rw [OF disk_rw_frame])

lemma calm_fields:
  assumes "calm b = calm b'"
  shows "b_dev b = b_dev b'" "b_blocknr b = b_blocknr b'" "b_count b = b_count b'"
    "b_next b = b_next b'" "b_prev b = b_prev b'" "b_next_free b = b_next_free b'"
    "b_prev_free b = b_prev_free b'" "b_data b = b_data b'"
  using assms by (cases b; cases b'; simp add: calm_def)+

lemma same_index_fields:
  assumes "same_index s t"
  shows "b_dev (bh_of t p) = b_dev (bh_of s p)" "b_blocknr (bh_of t p) = b_blocknr (bh_of s p)"
    "b_count (bh_of t p) = b_count (bh_of s p)" "buf_key (bh_of t p) = buf_key (bh_of s p)"
    "buffers (cache t) = buffers (cache s)"
  using assms calm_fields [of "bh_of t p" "bh_of s p"] by (simp_all add: same_index_def buffers_def buf_key_def)

lemma same_index_queues:
  assumes "same_index s t" "queues_ok (cache s) l ch"
  shows "queues_ok (cache t) l ch"
proof (rule queues_ok_cong [OF _ _ _ _ assms(2)])
  fix p
  have "calm (bh_of t p) = calm (bh_of s p)" using assms(1) by (simp add: same_index_def)
  note calm_fields [OF this]
  then show "b_next (bh_of s p) = b_next (bh_of t p) \<and> b_prev (bh_of s p) = b_prev (bh_of t p) \<and>
      b_next_free (bh_of s p) = b_next_free (bh_of t p) \<and> b_prev_free (bh_of s p) = b_prev_free (bh_of t p) \<and>
      b_dev (bh_of s p) = b_dev (bh_of t p) \<and> b_blocknr (bh_of s p) = b_blocknr (bh_of t p)" by simp
qed (use assms(1) in \<open>simp_all add: same_index_def\<close>)

lemma same_index_cmap:
  assumes "same_index s t"
  shows "cmap (cache t) k = cmap (cache s) k"
  unfolding cmap_def using assms same_index_fields [OF assms] by (simp add: same_index_def)

section \<open>The invariant of the kernel's block layer\<close>

definition kinv :: "kst \<Rightarrow> bool" where
  "kinv s \<longleftrightarrow> cache_inv (cache s) \<and> (\<exists>q. drv_inv {} s q)"

abbreviation disk_stop :: "stop \<Rightarrow> bool" where
  "disk_stop e \<equiv> e = Hang \<or> e = not_ready"

lemma kinv_index:
  assumes "kinv s" "same_index s t" "drv_inv {} t q"
  shows "kinv t"
  using assms same_index_queues [OF assms(2)] unfolding kinv_def cache_inv_def by blast

lemma kinv_settled: "kinv s \<Longrightarrow> settled {} s q t \<Longrightarrow> kinv t \<and> same_index s t"
  using kinv_index [of s t] same_index_disk [of s t] unfolding settled_def by blast

lemma locked_queue:
  assumes "drv_inv {} s q" "bh \<in> buffers (cache s)" "b_lock (bh_of s bh) \<noteq> 0"
  shows "q \<noteq> []"
  using queue_invD(6) [of "{}" s q bh] assms by (auto simp: drv_inv_def)

section \<open>\<open>wait_on_buff\<close>\<close>

text \<open>A buffer that is not locked is not waited for, but interrupts stay off.\<close>

lemma wait_unlocked:
  "b_lock (bh_of s bh) = 0 \<Longrightarrow> wait_on_buff bh s = Inr (s\<lparr>hw := (hw s)\<lparr>if_flag := False\<rparr>\<rparr>)"
  by (cases "irqs (hw s)") (simp_all add: wait_on_buff_def spin_until_def cli_def)

text \<open>The condition of the loop only looks at one buffer, which may not exist in the table.\<close>

lemma spin_settled_buff:
  assumes "drv_inv {} s q" "bh \<in> buffers (cache s)"
  shows "wp (spin (\<lambda>s. b_lock (bh_of s bh) = 0) sti is s) disk_stop
     (\<lambda>t. settled {} s q t \<and> b_lock (bh_of t bh) = 0)"
  using assms
proof (induction "is" arbitrary: s q)
  case Nil
  then show ?case using settled_refl [OF Nil(1)] by (simp add: settled_hw)
next
  case (Cons i "is")
  let ?Q = "\<lambda>s q t. settled {} s q t \<and> b_lock (bh_of t bh) = 0"
  show ?case
  proof (cases "b_lock (bh_of s bh) = 0")
    case True
    then show ?thesis using settled_refl [OF Cons.prems(1)] by (simp add: settled_hw)
  next
    case False
    have inv: "drv_inv {} (sti s) q" using Cons.prems by (simp add: sti_def drv_inv_hw)
    have "wp (interrupt i (sti s)) disk_stop
        (\<lambda>t. wp (spin (\<lambda>s. b_lock (bh_of s bh) = 0) sti is t) disk_stop (?Q s q))"
    proof (rule wp_mono [OF interrupt_settled [OF inv]])
      fix t assume "settled {} (sti s) q t \<and> if_flag (hw t)"
      then obtain k where k: "disk_frame s t" "drv_inv {} t (drop k q)"
        by (auto simp: sti_def settled_def disk_frame_hw)
      have "bh \<in> buffers (cache t)" using disk_frame_fields(5) [OF k(1)] Cons.prems by simp
      from Cons.IH [OF k(2) this]
      show "wp (spin (\<lambda>s. b_lock (bh_of s bh) = 0) sti is t) disk_stop (?Q s q)"
        by (rule wp_mono) (use settled_trans [OF k(2,1)] in auto)
    qed (use locked_queue [OF Cons.prems False] in auto)
    moreover have "if_flag (hw (sti s))" by (simp add: sti_def)
    ultimately show ?thesis using False by (simp add: Let_def)
  qed
qed

lemma wait_on_buff_settled:
  assumes "drv_inv {} s q" "bh \<in> buffers (cache s)"
  shows "wp (wait_on_buff bh s) disk_stop (\<lambda>t. settled {} s q t \<and> b_lock (bh_of t bh) = 0)"
proof -
  have c: "drv_inv {} (cli s) q" "bh \<in> buffers (cache (cli s))" using assms by (simp_all add: cli_def drv_inv_hw)
  show ?thesis
    unfolding wait_on_buff_def spin_until_def
    by (rule wp_mono [OF spin_settled_buff [OF c]]) (auto simp: cli_def settled_hw)
qed

lemma wait_on_buff_ok:
  assumes "kinv s" "bh \<in> buffers (cache s)"
  shows "wp (wait_on_buff bh s) disk_stop (\<lambda>t. kinv t \<and> same_index s t \<and> b_lock (bh_of t bh) = 0)"
proof -
  obtain q where q: "drv_inv {} s q" using assms(1) by (auto simp: kinv_def)
  show ?thesis
    by (rule wp_mono [OF wait_on_buff_settled [OF q assms(2)]]) (use kinv_settled [OF assms(1)] in auto)
qed

lemma ll_rw_block_ok:
  assumes "kinv s" "bh \<in> buffers (cache s)" "b_lock (bh_of s bh) = 0" "is_rw rw"
  shows "wp (ll_rw_block rw bh s) disk_stop (\<lambda>t. kinv t \<and> same_index s t)"
proof -
  obtain q where q: "drv_inv {} s q" using assms(1) by (auto simp: kinv_def)
  show ?thesis
    by (rule wp_mono [OF ll_rw_block_queued [OF q assms(2,3) _ assms(4)]])
      (use kinv_index [OF assms(1) same_index_rw] same_index_rw in \<open>auto simp: queued_def\<close>)
qed

section \<open>\<open>sync_dev\<close>\<close>

definition calm_step :: "kst \<Rightarrow> kst \<Rightarrow> bool" where
  "calm_step s t \<longleftrightarrow> kinv t \<and> same_index s t"

lemma calm_step_trans: "same_index s t \<Longrightarrow> calm_step t u \<Longrightarrow> calm_step s u"
  using same_index_trans by (auto simp: calm_step_def)

lemma sync_loop_ok:
  assumes "kinv s" "1 \<le> bh" "bh + n \<le> Suc (NR_BUFFERS (cache s))"
  shows "wp (sync_loop n bh dev s) disk_stop (calm_step s)"
  using assms
proof (induction n arbitrary: bh s)
  case 0
  then show ?case by (simp add: calm_step_def)
next
  case (Suc n)
  have b: "bh \<in> buffers (cache s)" using Suc.prems by (simp add: buffers_def)
  have next_ok: "wp (sync_loop n (bh + 1) dev t) disk_stop (calm_step s)" if "kinv t" "same_index s t" for t
  proof (rule wp_mono [OF Suc.IH [OF that(1)]])
    show "bh + 1 + n \<le> Suc (NR_BUFFERS (cache t))" using Suc.prems that(2) by (simp add: same_index_def)
  qed (use calm_step_trans [OF that(2)] in auto)
  show ?case
  proof (cases "ucast (b_dev (bh_of s bh)) = dev")
    case True
    have "wp (wait_on_buff bh s) disk_stop
       (\<lambda>t. wp (if ucast (b_dev (bh_of t bh)) = dev \<and> b_dirt (bh_of t bh) \<noteq> 0 then ll_rw_block WRITE bh t else Inr t)
           disk_stop (\<lambda>u. wp (sync_loop n (bh + 1) dev u) disk_stop (calm_step s)))"
    proof (rule wp_mono [OF wait_on_buff_ok [OF Suc.prems(1) b]])
      fix t assume t: "kinv t \<and> same_index s t \<and> b_lock (bh_of t bh) = 0"
      then have bt: "bh \<in> buffers (cache t)" using same_index_fields(5) [of s t] b by auto
      have "wp (ll_rw_block WRITE bh t) disk_stop (\<lambda>u. wp (sync_loop n (bh + 1) dev u) disk_stop (calm_step s))"
        by (rule wp_mono [OF ll_rw_block_ok [OF _ bt]])
          (use t next_ok same_index_trans [of s t] in \<open>auto simp: is_rw_def\<close>)
      then show "wp (if ucast (b_dev (bh_of t bh)) = dev \<and> b_dirt (bh_of t bh) \<noteq> 0 then ll_rw_block WRITE bh t else Inr t)
           disk_stop (\<lambda>u. wp (sync_loop n (bh + 1) dev u) disk_stop (calm_step s))"
        using next_ok t by simp
    qed simp
    then show ?thesis using True by simp
  next
    case False
    then show ?thesis using next_ok [of s] Suc.prems by simp
  qed
qed

lemma sync_dev_ok: "kinv s \<Longrightarrow> wp (sync_dev dev s) disk_stop (calm_step s)"
  unfolding sync_dev_def by (rule sync_loop_ok) simp_all

section \<open>Changing the fields of a buffer\<close>

lemma kinv_upd_bh:
  assumes "kinv s" and f: "\<And>b. b_next (f b) = b_next b \<and> b_prev (f b) = b_prev b \<and>
      b_next_free (f b) = b_next_free b \<and> b_prev_free (f b) = b_prev_free b \<and>
      b_dev (f b) = b_dev b \<and> b_blocknr (f b) = b_blocknr b \<and> b_lock (f b) = b_lock b"
  shows "kinv (upd_bh p f s)"
proof -
  obtain q where q: "drv_inv {} s q" using assms(1) by (auto simp: kinv_def)
  have "same_queue s (upd_bh p f s)" using f by (simp add: same_queue_def upd_bh_def)
  then have "drv_inv {} (upd_bh p f s) q"
    using q queue_inv_same by (auto simp: drv_inv_def armed_def geom_ok_def irqs_ok_def upd_bh_def)
  moreover have "cache_inv (upd_buf p f (cache s))"
  proof -
    obtain l ch where l: "queues_ok (cache s) l ch" using assms(1) by (auto simp: kinv_def cache_inv_def)
    have "queues_ok (upd_buf p f (cache s)) l ch" by (rule queues_ok_upd_core [OF l]) (use f in simp)
    then show ?thesis unfolding cache_inv_def by blast
  qed
  ultimately show ?thesis by (auto simp: kinv_def upd_bh_def)
qed

section \<open>\<open>retain_buff\<close> and \<open>put_buff\<close>\<close>

text \<open>\<open>t\<close> is \<open>s\<close> after the disk has worked and the count of \<open>bh\<close> has changed by \<open>d\<close>.\<close>

definition counted :: "u8 \<Rightarrow> ptr \<Rightarrow> kst \<Rightarrow> kst \<Rightarrow> bool" where
  "counted d bh s t \<longleftrightarrow> kinv t \<and> b_lock (bh_of t bh) = 0 \<and>
     (\<forall>p. b_count (bh_of t p) = b_count (bh_of s p) + (if p = bh then d else 0)) \<and>
     (\<forall>k. cmap (cache t) k = cmap (cache s) k) \<and> NR_BUFFERS (cache t) = NR_BUFFERS (cache s)"

lemma cmap_upd_bh:
  assumes "\<And>b. b_dev (f b) = b_dev b \<and> b_blocknr (f b) = b_blocknr b"
  shows "cmap (cache (upd_bh p f s)) k = cmap (cache s) k"
proof -
  have "(\<lambda>r. b_dev (bufs (upd_buf p f (cache s)) r) \<noteq> 0 \<and> buf_key (bufs (upd_buf p f (cache s)) r) = k) =
      (\<lambda>r. b_dev (bh_of s r) \<noteq> 0 \<and> buf_key (bh_of s r) = k)"
    using assms by (auto simp: buf_key_def fun_eq_iff)
  then show ?thesis by (simp add: cmap_def upd_bh_def)
qed

lemma counted_upd:
  assumes "kinv t" "same_index s t" "b_lock (bh_of t bh) = 0"
  shows "counted d bh s (upd_bh bh (\<lambda>b. b\<lparr>b_count := b_count b + d\<rparr>) t)"
  using assms same_index_cmap [OF assms(2)] same_index_fields(3) [OF assms(2)]
  by (auto simp: counted_def kinv_upd_bh cmap_upd_bh) (auto simp: upd_bh_def same_index_def)

lemma kinv_lookup:
  assumes "kinv s"
  shows "find_buff dev block (cache s) = Inr (or_null (cmap (cache s) (dev, block)))"
  using assms find_buff_cmap by (auto simp: kinv_def cache_inv_def)

lemma cmap_Some_buffers: "cmap c k = Some p \<Longrightarrow> p \<in> buffers c \<and> p \<noteq> NULL \<and> buf_key (bufs c p) = k"
  by (auto dest!: cmap_SomeD simp: hashed_def buffers_def)

lemma retain_buff_ok:
  assumes "kinv s"
  shows "wp (retain_buff dev block s) disk_stop (\<lambda>(bh, t). case cmap (cache s) (dev, block) of
       None \<Rightarrow> bh = NULL \<and> t = s | Some p \<Rightarrow> bh = p \<and> counted 1 p s t)"
proof (cases "cmap (cache s) (dev, block)")
  case None
  then show ?thesis using kinv_lookup [OF assms] by (simp add: retain_buff_def numeral_2_eq_2)
next
  case (Some p)
  note P = cmap_Some_buffers [OF Some]
  have "wp (wait_on_buff p s) disk_stop
     (\<lambda>t. ucast (b_dev (bh_of t p)) = dev \<and> b_blocknr (bh_of t p) = block \<and>
          counted 1 p s (upd_bh p (\<lambda>b. b\<lparr>b_count := b_count b + 1\<rparr>) t))"
  proof (rule wp_mono [OF wait_on_buff_ok [OF assms]])
    fix t assume t: "kinv t \<and> same_index s t \<and> b_lock (bh_of t p) = 0"
    have "buf_key (bh_of t p) = (dev, block)" using same_index_fields(4) [of s t p] t P by simp
    then show "ucast (b_dev (bh_of t p)) = dev \<and> b_blocknr (bh_of t p) = block \<and>
          counted 1 p s (upd_bh p (\<lambda>b. b\<lparr>b_count := b_count b + 1\<rparr>) t)"
      using counted_upd t unfolding buf_key_def by simp
  qed (use P in simp_all)
  then show ?thesis
    using kinv_lookup [OF assms] Some P unfolding retain_buff_def numeral_2_eq_2
    by (cases "wait_on_buff p s") auto
qed

lemma put_buff_ok:
  assumes "kinv s" "buf \<in> buffers (cache s)" "b_count (bh_of s buf) \<noteq> 0"
  shows "wp (put_buff buf s) disk_stop (counted (-1) buf s)"
proof -
  have "wp (wait_on_buff buf s) disk_stop
     (\<lambda>t. b_count (bh_of t buf) \<noteq> 0 \<and> counted (-1) buf s (upd_bh buf (\<lambda>b. b\<lparr>b_count := b_count b + -1\<rparr>) t))"
  proof (rule wp_mono [OF wait_on_buff_ok [OF assms(1,2)]])
    fix t assume t: "kinv t \<and> same_index s t \<and> b_lock (bh_of t buf) = 0"
    show "b_count (bh_of t buf) \<noteq> 0 \<and> counted (-1) buf s (upd_bh buf (\<lambda>b. b\<lparr>b_count := b_count b + -1\<rparr>) t)"
      using counted_upd [of t s buf "-1"] same_index_fields(3) [of s t buf] t assms(3) by simp
  qed simp
  then show ?thesis using assms(2) by (cases "wait_on_buff buf s") (auto simp: put_buff_def)
qed

section \<open>\<open>new_buff\<close>\<close>

lemma clean_loop_ok:
  assumes "kinv s" "bh \<in> buffers (cache s)" "b_count (bh_of s bh) = 0" "b_lock (bh_of s bh) = 0"
  shows "wp (clean_loop n bh s) disk_stop
     (\<lambda>(c, t). c \<and> calm_step s t \<and> b_lock (bh_of t bh) = 0 \<and> b_dirt (bh_of t bh) = 0)"
  using assms
proof (induction n arbitrary: s)
  case (Suc n)
  let ?Q = "\<lambda>s (c, t). c \<and> calm_step s t \<and> b_lock (bh_of t bh) = 0 \<and> b_dirt (bh_of t bh) = 0"
  show ?case
  proof (cases "b_dirt (bh_of s bh) = 0")
    case True
    then show ?thesis using Suc.prems by (simp add: calm_step_def)
  next
    case False
    let ?rest = "\<lambda>t. if b_count (bh_of t bh) \<noteq> 0 then Inr (False, t) else clean_loop n bh t"
    have rest: "wp (?rest t) disk_stop (?Q s)" if t: "kinv t" "same_index s t" "b_lock (bh_of t bh) = 0" for t
    proof -
      have "bh \<in> buffers (cache t)" "b_count (bh_of t bh) = 0"
        using same_index_fields [OF t(2)] Suc.prems by auto
      then have "wp (clean_loop n bh t) disk_stop (?Q t)" using Suc.IH t by blast
      then show ?thesis
        using \<open>b_count (bh_of t bh) = 0\<close> by (auto elim!: wp_mono simp: calm_step_trans [OF t(2)])
    qed
    have w: "wp (wait_on_buff bh u) disk_stop (\<lambda>t. wp (?rest t) disk_stop (?Q s))" if u: "calm_step s u" for u
    proof (rule wp_mono [OF wait_on_buff_ok])
      show "kinv u" "bh \<in> buffers (cache u)"
        using u Suc.prems(2) same_index_fields(5) [of s u] by (auto simp: calm_step_def)
      show "wp (?rest t) disk_stop (?Q s)" if "kinv t \<and> same_index u t \<and> b_lock (bh_of t bh) = 0" for t
        by (rule rest) (use u that same_index_trans in \<open>auto simp: calm_step_def\<close>)
    qed
    have "wp (sync_dev (ucast (b_dev (bh_of s bh))) s) disk_stop
        (\<lambda>u. wp (wait_on_buff bh u) disk_stop (\<lambda>t. wp (?rest t) disk_stop (?Q s)))"
      by (rule wp_mono [OF sync_dev_ok [OF Suc.prems(1)]]) (simp, rule w)
    then show ?thesis using False by simp
  qed
qed simp

lemma drv_inv_reused:
  assumes inv: "drv_inv {} s q" and b: "b_lock (bh_of s b) = 0"
    and sc: "same_core c (upd_buf b (reused dev block) (cache s))"
  shows "drv_inv {} (set_cache c s) q"
proof -
  have q: "queue_inv {} s q" using inv by (simp add: drv_inv_def)
  note Q = queue_invD [OF q] and S = same_core_fields [OF sc]
  let ?t = "set_cache c s"
  have t: "drv ?t = drv s" "CURRENT ?t = CURRENT s" "cache ?t = c" by (simp_all add: set_cache_def CURRENT_def)
  have B: "buffers c = buffers (cache s)" using S(9) by simp
  have f: "b_lock (bufs c p) = b_lock (bh_of s p)" for p using S(4) [of p] by (auto simp: reused_def)
  have g: "b_dev (bufs c p) = b_dev (bh_of s p)" "b_blocknr (bufs c p) = b_blocknr (bh_of s p)" if "p \<noteq> b" for p
    using S(1,2) [of p] that by auto
  have "queue_inv {} ?t q"
    unfolding queue_inv_def t B f
  proof (intro conjI)
    show "\<forall>i \<in> set q. req_ok ?t i"
    proof
      fix i assume i: "i \<in> set q"
      then have "rq_bh (rq_of s i) \<noteq> b" using req_okD(2) [OF Q(4) [OF i]] b by auto
      then have "req_ok ?t i = req_ok s i" using f g B by (simp add: req_ok_def Let_def t)
      then show "req_ok ?t i" using Q(4) [OF i] by simp
    qed
  qed (use Q in blast)+
  then show ?thesis using inv t by (simp add: drv_inv_def armed_def geom_ok_def irqs_ok_def)
qed

text \<open>A buffer that was not in use has been given to block \<open>block\<close> of device \<open>dev\<close>.\<close>

definition renewed :: "u32 \<Rightarrow> u32 \<Rightarrow> ptr \<Rightarrow> kst \<Rightarrow> kst \<Rightarrow> bool" where
  "renewed dev block bh s t \<longleftrightarrow> kinv t \<and> bh \<in> buffers (cache t) \<and> NR_BUFFERS (cache t) = NR_BUFFERS (cache s) \<and>
     b_count (bh_of s bh) = 0 \<and> b_count (bh_of t bh) = 1 \<and> b_lock (bh_of t bh) = 0 \<and>
     b_dirt (bh_of t bh) = 0 \<and> b_uptodate (bh_of t bh) = 0 \<and>
     (\<forall>p. p \<noteq> bh \<longrightarrow> b_count (bh_of t p) = b_count (bh_of s p)) \<and>
     cmap (cache t) (dev, block) = Some bh \<and>
     (\<forall>k. k \<noteq> (dev, block) \<longrightarrow>
        cmap (cache t) k = (if cmap (cache s) k = Some bh then None else cmap (cache s) k))"

lemma reuse_renewed:
  assumes inv: "kinv t" and si: "same_index s t" and b: "bh \<in> buffers (cache t)"
    and free: "b_count (bh_of t bh) = 0" "b_lock (bh_of t bh) = 0" "b_dirt (bh_of t bh) = 0"
    and dev: "dev \<noteq> 0" "unat dev < 65536" and new: "cmap (cache t) (dev, block) = None"
  shows "\<exists>c. reuse_buff bh dev block (cache t) = Inr c \<and> renewed dev block bh s (set_cache c t)"
proof -
  obtain l ch where q: "queues_ok (cache t) l ch" using inv by (auto simp: kinv_def cache_inv_def)
  obtain r where r: "drv_inv {} t r" using inv by (auto simp: kinv_def)
  have nw: "\<And>p. hashed (cache t) p \<Longrightarrow> buf_key (bh_of t p) \<noteq> (dev, block)" using new by (simp add: cmap_None)
  obtain c ch' where c: "reuse_buff bh dev block (cache t) = Inr c" "queues_ok c (remove1 bh l @ [bh]) ch'"
      "same_core c (upd_buf bh (reused dev block) (cache t))"
    using reuse_buff_ok [OF q b dev(2) nw] by blast
  note S = same_core_fields [OF c(3)] and M = cmap_reused [OF q c(2) b dev c(3)]
  have "kinv (set_cache c t)"
    using drv_inv_reused [OF r free(2) c(3)] c(2) by (auto simp: kinv_def cache_inv_def set_cache_def)
  moreover have "b_count (bufs c p) = (if p = bh then 1 else b_count (bh_of s p))" for p
    using S(3) [of p] same_index_fields(3) [OF si, of p] by (simp add: reused_def)
  moreover have "NR_BUFFERS c = NR_BUFFERS (cache s)" "buffers c = buffers (cache t)"
    using S(9,11) si by (simp_all add: same_index_def)
  moreover have "b_lock (bufs c bh) = 0" "b_dirt (bufs c bh) = 0" "b_uptodate (bufs c bh) = 0"
    using S(4-6) [of bh] free by (simp_all add: reused_def)
  ultimately have "renewed dev block bh s (set_cache c t)"
    using M b free(1) same_index_fields(3) [OF si, of bh] same_index_cmap [OF si]
    by (simp add: renewed_def set_cache_def)
  then show ?thesis using c(1) by blast
qed

lemma new_buff_ok:
  assumes inv: "kinv s" and q: "queues_ok (cache s) l ch"
    and dev: "dev \<noteq> 0" "unat dev < 65536" and new: "cmap (cache s) (dev, block) = None"
  shows "wp (new_buff dev block s) disk_stop (\<lambda>(bh, t). is_best (cache s) l bh \<and>
     (if bh = NULL then t = s else renewed dev block bh s t))"
proof -
  obtain bh where bh: "scan_free (cache s) (NR_BUFFERS (cache s)) (free_list (cache s)) NULL = Inr bh"
      "is_best (cache s) l bh"
    using scan_free_best [OF q] by blast
  show ?thesis
  proof (cases "bh = NULL")
    case True
    then show ?thesis using bh by (simp add: new_buff_def)
  next
    case False
    then have b: "bh \<in> buffers (cache s)" "b_count (bh_of s bh) = 0"
      using bh(2) queues_okD(3) [OF q] by (auto simp: is_best_def)
    let ?Q = "\<lambda>(bh, t). is_best (cache s) l bh \<and> (if bh = NULL then t = s else renewed dev block bh s t)"
    let ?m3 = "\<lambda>s2. bnd (find_buff dev block (cache s2)) (\<lambda>other.
       if other \<noteq> NULL then Inr (NULL, printk ''buff bad luck'' [] s2)
       else bnd (reuse_buff bh dev block (cache s2)) (\<lambda>c. Inr (bh, set_cache c s2)))"
    let ?m2 = "\<lambda>(clean, s2). if \<not> clean then Inr (NULL, s2) else ?m3 s2"
    let ?m1 = "\<lambda>s1. if b_count (bh_of s1 bh) \<noteq> 0 then Inr (NULL, s1) else bnd (clean_loop 2 bh s1) ?m2"
    have m3: "wp (?m3 t) disk_stop ?Q" if t: "kinv t" "same_index s t" "b_lock (bh_of t bh) = 0" "b_dirt (bh_of t bh) = 0" for t
    proof -
      have n: "cmap (cache t) (dev, block) = None" using same_index_cmap [OF t(2)] new by simp
      have "bh \<in> buffers (cache t)" "b_count (bh_of t bh) = 0" using same_index_fields [OF t(2)] b by auto
      then obtain c where "reuse_buff bh dev block (cache t) = Inr c" "renewed dev block bh s (set_cache c t)"
        using reuse_renewed [OF t(1,2) _ _ t(3,4) dev n] by blast
      then show ?thesis using kinv_lookup [OF t(1)] n False bh(2) by simp
    qed
    have m1: "wp (?m1 t) disk_stop ?Q" if t: "kinv t" "same_index s t" "b_lock (bh_of t bh) = 0" for t
    proof -
      have bt: "bh \<in> buffers (cache t)" "b_count (bh_of t bh) = 0" using same_index_fields [OF t(2)] b by auto
      have "wp (clean_loop 2 bh t) disk_stop (\<lambda>r. wp (?m2 r) disk_stop ?Q)"
      proof (rule wp_mono [OF clean_loop_ok [OF t(1) bt t(3)]])
        fix r assume r: "case r of (c, u) \<Rightarrow> c \<and> calm_step t u \<and> b_lock (bh_of u bh) = 0 \<and> b_dirt (bh_of u bh) = 0"
        obtain c u where cu: "r = (c, u)" by (cases r)
        then have "wp (?m3 u) disk_stop ?Q"
          using r by (intro m3) (auto simp: calm_step_def intro: same_index_trans [OF t(2)])
        then show "wp (?m2 r) disk_stop ?Q" using cu r by simp
      qed
      then show ?thesis using bt by simp
    qed
    have "wp (wait_on_buff bh s) disk_stop (\<lambda>t. wp (?m1 t) disk_stop ?Q)"
      by (rule wp_mono [OF wait_on_buff_ok [OF inv b(1)]]) (use m1 in blast)+
    then show ?thesis using bh(1) False by (simp add: new_buff_def)
  qed
qed

section \<open>\<open>get_buff\<close> and \<open>read_buff\<close>\<close>

definition got :: "u32 \<Rightarrow> u32 \<Rightarrow> kst \<Rightarrow> ptr \<times> kst \<Rightarrow> bool" where
  "got dev block s r \<longleftrightarrow> (case r of (bh, t) \<Rightarrow> bh \<in> buffers (cache t) \<and>
     (case cmap (cache s) (dev, block) of
        Some p \<Rightarrow> bh = p \<and> counted 1 p s t
      | None \<Rightarrow> renewed dev block bh s t))"

lemma got_fields:
  assumes "got dev block s (bh, t)"
  shows "kinv t" "bh \<in> buffers (cache t)" "bh \<noteq> NULL" "b_lock (bh_of t bh) = 0" "cmap (cache t) (dev, block) = Some bh"
    "b_count (bh_of t bh) = b_count (bh_of s bh) + 1" "NR_BUFFERS (cache t) = NR_BUFFERS (cache s)"
    "p \<noteq> bh \<Longrightarrow> b_count (bh_of t p) = b_count (bh_of s p)"
proof -
  consider "cmap (cache s) (dev, block) = Some bh" "counted 1 bh s t" "bh \<in> buffers (cache t)"
    | "cmap (cache s) (dev, block) = None" "renewed dev block bh s t"
    using assms by (auto simp: got_def split: option.splits)
  note c = this
  show "kinv t" "bh \<in> buffers (cache t)" "b_lock (bh_of t bh) = 0" "cmap (cache t) (dev, block) = Some bh"
    "b_count (bh_of t bh) = b_count (bh_of s bh) + 1" "NR_BUFFERS (cache t) = NR_BUFFERS (cache s)"
    by (cases rule: c; simp add: counted_def renewed_def)+
  show "bh \<noteq> NULL" by (cases rule: c) (auto simp: renewed_def buffers_def)
  show "p \<noteq> bh \<Longrightarrow> b_count (bh_of t p) = b_count (bh_of s p)"
    by (cases rule: c; simp add: counted_def renewed_def)
qed

lemma get_loop_ok:
  assumes inv: "kinv s" and dev: "dev \<noteq> 0" "unat dev < 65536"
  shows "wp (get_loop n dev block s) disk_stop (got dev block s)"
proof (induction n)
  case (Suc n)
  show ?case
  proof (cases "cmap (cache s) (dev, block)")
    case None
    have r: "retain_buff dev block s = Inr (NULL, s)"
      using kinv_lookup [OF inv] None by (simp add: retain_buff_def numeral_2_eq_2)
    obtain l ch where q: "queues_ok (cache s) l ch" using inv by (auto simp: kinv_def cache_inv_def)
    have "wp (new_buff dev block s) disk_stop
       (\<lambda>x. wp (case x of (bh, t) \<Rightarrow> if bh = NULL then get_loop n dev block t else Inr (bh, t)) disk_stop (got dev block s))"
    proof (rule wp_mono [OF new_buff_ok [OF inv q dev None]])
      fix x assume x: "case x of (bh, t) \<Rightarrow> is_best (cache s) l bh \<and> (if bh = NULL then t = s else renewed dev block bh s t)"
      obtain bh t where bt: "x = (bh, t)" by (cases x)
      have "got dev block s (bh, t)" if "bh \<noteq> NULL"
        using x that unfolding bt by (simp add: got_def None) (simp add: renewed_def)
      then show "wp (case x of (bh, t) \<Rightarrow> if bh = NULL then get_loop n dev block t else Inr (bh, t)) disk_stop (got dev block s)"
        using x Suc.IH by (cases "bh = NULL") (simp_all add: bt)
    qed simp
    then show ?thesis using r by (simp add: bnd_assoc case_prod_unfold)
  next
    case (Some p)
    note P = cmap_Some_buffers [OF Some]
    have "wp (retain_buff dev block s) disk_stop (\<lambda>x. fst x \<noteq> NULL \<and> got dev block s x)"
      by (rule wp_mono [OF retain_buff_ok [OF inv]])
        (use P in \<open>auto simp: Some got_def counted_def buffers_def\<close>)
    then show ?thesis by (cases "retain_buff dev block s") auto
  qed
qed simp

lemma get_buff_got:
  assumes "kinv s" "dev \<noteq> 0" "unat dev < 65536"
  shows "wp (get_buff dev block s) disk_stop (got dev block s)"
  unfolding get_buff_def by (rule get_loop_ok [OF assms])

text \<open>With every buffer in use and the block not cached, \<open>get_buff\<close> spins for ever.\<close>

lemma get_loop_full:
  assumes inv: "kinv s" and new: "cmap (cache s) (dev, block) = None"
    and full: "\<forall>p \<in> buffers (cache s). b_count (bh_of s p) \<noteq> 0"
  shows "get_loop n dev block s = Inl Hang"
proof (induction n)
  case (Suc n)
  obtain l ch where q: "queues_ok (cache s) l ch" using inv by (auto simp: kinv_def cache_inv_def)
  obtain bh where bh: "scan_free (cache s) (NR_BUFFERS (cache s)) (free_list (cache s)) NULL = Inr bh"
      "is_best (cache s) l bh"
    using scan_free_best [OF q] by blast
  have "bh = NULL" using bh(2) full queues_okD(3) [OF q] by (auto simp: is_best_def split: if_splits)
  then have "new_buff dev block s = Inr (NULL, s)" using bh(1) by (simp add: new_buff_def)
  moreover have "retain_buff dev block s = Inr (NULL, s)"
    using kinv_lookup [OF inv] new by (simp add: retain_buff_def numeral_2_eq_2)
  ultimately show ?case using Suc by simp
qed simp

lemma read_buff_got:
  assumes inv: "kinv s" and dev: "dev \<noteq> 0" "unat dev < 65536" and few: "\<And>p. b_count (bh_of s p) \<noteq> 255"
  shows "wp (read_buff dev block s) disk_stop (\<lambda>(bh, t). kinv t \<and>
     (\<forall>p. p \<noteq> bh \<longrightarrow> b_count (bh_of t p) = b_count (bh_of s p)) \<and>
     (bh \<noteq> NULL \<longrightarrow> bh \<in> buffers (cache t) \<and> cmap (cache t) (dev, block) = Some bh \<and> b_uptodate (bh_of t bh) \<noteq> 0 \<and>
        b_lock (bh_of t bh) = 0 \<and> b_count (bh_of t bh) = b_count (bh_of s bh) + 1))"
    (is "wp _ _ ?Q")
proof -
  let ?tail = "\<lambda>bh s2. bnd (wait_on_buff bh s2) (\<lambda>s3.
          if b_uptodate (bh_of s3 bh) = 0 then bnd (put_buff bh s3) (\<lambda>s4. Inr (NULL, s4)) else Inr (bh, s3))"
  let ?rest = "\<lambda>(bh, s1). if bh = NULL then Inl (Panic (''read_buff: get_buff returned NULL'' @ NL))
     else if b_uptodate (bh_of s1 bh) \<noteq> 0 then Inr (bh, s1)
     else bnd (ll_rw_block READ bh s1) (?tail bh)"
  have tail: "wp (?tail bh t) disk_stop ?Q" if g: "got dev block s (bh, s1)" and t: "kinv t" "same_index s1 t"
      and cnt: "b_count (bh_of s1 bh) \<noteq> 0" for bh s1 t
  proof -
    note G = got_fields [OF g]
    have bt: "bh \<in> buffers (cache t)" using G(2) same_index_fields(5) [OF t(2)] by simp
    have fin: "wp (if b_uptodate (bh_of u bh) = 0 then bnd (put_buff bh u) (\<lambda>s4. Inr (NULL, s4)) else Inr (bh, u)) disk_stop ?Q"
      if u: "kinv u" "same_index t u" "b_lock (bh_of u bh) = 0" for u
    proof -
      have si: "same_index s1 u" by (rule same_index_trans [OF t(2) u(2)])
      note F = same_index_fields [OF si] same_index_cmap [OF si]
      have bu: "bh \<in> buffers (cache u)" using F(5) G(2) by simp
      have cu: "b_count (bh_of u bh) \<noteq> 0" using F(3) cnt by simp
      have "b_count (bh_of v p) = b_count (bh_of s p)" if "counted (-1) bh u v" for v p
        using that F(3) [of p] G(6) G(8) [of p] by (cases "p = bh") (auto simp: counted_def)
      then have "wp (put_buff bh u) disk_stop (\<lambda>v. ?Q (NULL, v))"
        by (intro wp_mono [OF put_buff_ok [OF u(1) bu cu]]) (auto simp: counted_def)
      then show ?thesis using u bu F G by auto
    qed
    have "wp (wait_on_buff bh t) disk_stop (\<lambda>u. wp (if b_uptodate (bh_of u bh) = 0 then bnd (put_buff bh u) (\<lambda>s4. Inr (NULL, s4)) else Inr (bh, u)) disk_stop ?Q)"
      by (rule wp_mono [OF wait_on_buff_ok [OF t(1) bt]]) (use fin in blast)+
    then show ?thesis by simp
  qed
  have "wp (get_buff dev block s) disk_stop (\<lambda>r. wp (?rest r) disk_stop ?Q)"
  proof (rule wp_mono [OF get_buff_got [OF inv dev]])
    fix r assume r: "got dev block s r"
    obtain bh s1 where rr: "r = (bh, s1)" by (cases r)
    note g = r [unfolded rr] and G = got_fields [OF r [unfolded rr]]
    have cnt: "b_count (bh_of s1 bh) \<noteq> 0" 
    proof
      assume "b_count (bh_of s1 bh) = 0"
      then have "b_count (bh_of s bh) = -1" using G(6) by (simp add: eq_neg_iff_add_eq_0)
      then show False using few [of bh] by simp
    qed
    show "wp (?rest r) disk_stop ?Q"
    proof (cases "b_uptodate (bh_of s1 bh) = 0")
      case True
      have "wp (ll_rw_block READ bh s1) disk_stop (\<lambda>t. wp (?tail bh t) disk_stop ?Q)"
        by (rule wp_mono [OF ll_rw_block_ok [OF G(1,2,4)]])
          (use tail [OF g _ _ cnt] in \<open>auto simp: is_rw_def\<close>)
      then show ?thesis using True G(3) by (simp add: rr)
    next
      case False
      then show ?thesis using G by (simp add: rr)
    qed
  qed simp
  then show ?thesis by (simp add: read_buff_def case_prod_unfold)
qed

end
