(* ===== verification/Windows.thy ===== *)
theory Windows
  imports Request_Inv
begin

text \<open>
  Interrupts inside \<open>ll_rw_block\<close> (\<open>src/blk/blk_main.c\<close>), in the places outside its wait loop in which they are
  enabled. The driver never looks at a request that is not queued: an interrupt that arrives while such a request is
  being filled in has the effect it would have had before (\<open>interrupts_upd_rq\<close>).
\<close>

section \<open>The driver does not see a request that is not queued\<close>

text \<open>\<open>off x s\<close>: request \<open>x\<close> is not on the queue that starts at the current request.\<close>

definition off :: "ptr \<Rightarrow> kst \<Rightarrow> bool" where
  "off x s \<longleftrightarrow> x \<noteq> NULL \<and> (\<exists>q. slist (\<lambda>i. rq_next (rq_of s i)) (CURRENT s) q \<and> x \<notin> set q)"

lemma off_current: "off x s \<Longrightarrow> CURRENT s \<noteq> x"
  by (auto simp: off_def elim: slist.elims)

lemma off_next:
  assumes "off x s" "CURRENT s \<noteq> NULL"
  shows "rq_next (rq_of s (CURRENT s)) \<noteq> x"
proof -
  obtain q where q: "slist (\<lambda>i. rq_next (rq_of s i)) (CURRENT s) q" "x \<notin> set q" "x \<noteq> NULL" using assms(1) by (auto simp: off_def)
  obtain i r where "q = i # r" using q(1) assms(2) by (cases q) auto
  then have "slist (\<lambda>i. rq_next (rq_of s i)) (rq_next (rq_of s (CURRENT s))) r" "x \<notin> set r" using q by auto
  then show ?thesis using q(3) by (cases r) auto
qed

lemma off_same:
  assumes "off x s" "CURRENT t = CURRENT s" "\<And>j. rq_next (rq_of t j) = rq_next (rq_of s j)"
  shows "off x t"
  using assms by (simp add: off_def)

lemma off_advance:
  assumes "off x s" "CURRENT s \<noteq> NULL" "CURRENT t = rq_next (rq_of s (CURRENT s))" "\<And>j. rq_next (rq_of t j) = rq_next (rq_of s j)"
  shows "off x t"
proof -
  obtain q where q: "slist (\<lambda>i. rq_next (rq_of s i)) (CURRENT s) q" "x \<notin> set q" "x \<noteq> NULL" using assms(1) by (auto simp: off_def)
  obtain i r where "q = i # r" using q(1) assms(2) by (cases q) auto
  then show ?thesis using q assms(3,4) by (auto simp: off_def)
qed

lemma queue_inv_off:
  assumes "queue_inv L s q" "x \<noteq> NULL" "rq_dev (rq_of s x) < 0"
  shows "off x s"
proof -
  have "x \<notin> set q" using queue_invD(3) [OF assms(1)] assms(3) by auto
  then show ?thesis using queue_invD(1) [OF assms(1)] assms(2) by (auto simp: off_def)
qed

named_theorems rq_commute "operations that commute with a change of another request"

lemma upd_rq_sel [simp]:
  "cache (upd_rq x f s) = cache s" "hw (upd_rq x f s) = hw s" "klog (upd_rq x f s) = klog s"
  "CURRENT (upd_rq x f s) = CURRENT s" "current_request (drv (upd_rq x f s)) = current_request (drv s)"
  "request_fn (drv (upd_rq x f s)) = request_fn (drv s)" "recalibrate (drv (upd_rq x f s)) = recalibrate (drv s)"
  "reset (drv (upd_rq x f s)) = reset (drv s)" "hd_info (drv (upd_rq x f s)) = hd_info (drv s)"
  "NR_HD (drv (upd_rq x f s)) = NR_HD (drv s)" "partition_info (drv (upd_rq x f s)) = partition_info (drv s)"
  "irq_routines (drv (upd_rq x f s)) = irq_routines (drv s)" "timer_ticks (drv (upd_rq x f s)) = timer_ticks (drv s)"
  by (simp_all add: upd_rq_def CURRENT_def)

lemma upd_rq_of: "rq_of (upd_rq x f s) j = (if j = x then f (rq_of s x) else rq_of s j)"
  by (simp add: upd_rq_def)

lemma commute_basic [rq_commute]:
  "cli (upd_rq x f s) = upd_rq x f (cli s)" "sti (upd_rq x f s) = upd_rq x f (sti s)"
  "outb v p (upd_rq x f s) = upd_rq x f (outb v p s)" "printk g a (upd_rq x f s) = upd_rq x f (printk g a s)"
  "irq_install_handler i h (upd_rq x f s) = upd_rq x f (irq_install_handler i h s)"
  "upd_bh p u (upd_rq x f s) = upd_rq x f (upd_bh p u s)" "set_current m r (upd_rq x f s) = upd_rq x f (set_current m r s)"
  "port_read b (upd_rq x f s) = upd_rq x f (port_read b s)" "port_write p b (upd_rq x f s) = upd_rq x f (port_write p b s)"
  "timer_handler (upd_rq x f s) = upd_rq x f (timer_handler s)"
  by (simp_all add: machine_defs port_read_def timer_handler_def case_prod_beta cong: if_cong)

lemma commute_inb [rq_commute]: "inb p (upd_rq x f s) = (fst (inb p s), upd_rq x f (snd (inb p s)))"
  by (simp add: machine_defs)

lemma commute_upd_rq [rq_commute]: "j \<noteq> x \<Longrightarrow> upd_rq j g (upd_rq x f s) = upd_rq x f (upd_rq j g s)"
  by (simp add: upd_rq_def fun_upd_twist)

lemma commute_flags [rq_commute]:
  "(upd_rq x f s)\<lparr>drv := (drv (upd_rq x f s))\<lparr>reset := a\<rparr>\<rparr> = upd_rq x f (s\<lparr>drv := (drv s)\<lparr>reset := a\<rparr>\<rparr>)"
  "(upd_rq x f s)\<lparr>drv := (drv (upd_rq x f s))\<lparr>recalibrate := b\<rparr>\<rparr> = upd_rq x f (s\<lparr>drv := (drv s)\<lparr>recalibrate := b\<rparr>\<rparr>)"
  "(upd_rq x f s)\<lparr>drv := (drv (upd_rq x f s))\<lparr>reset := a, recalibrate := b\<rparr>\<rparr> =
     upd_rq x f (s\<lparr>drv := (drv s)\<lparr>reset := a, recalibrate := b\<rparr>\<rparr>)"
  by (simp_all add: upd_rq_def)

lemma commute_unlock [rq_commute]: "unlock_buff p (upd_rq x f s) = upd_rq x f (unlock_buff p s)"
  by (simp add: unlock_buff_def Let_def rq_commute)

lemma commute_win_result [rq_commute]: "win_result (upd_rq x f s) = (fst (win_result s), upd_rq x f (snd (win_result s)))"
  by (simp add: win_result_def rq_commute case_prod_beta Let_def)

lemma commute_controller_poll [rq_commute]:
  "controller_poll n (upd_rq x f s) = (fst (controller_poll n s), upd_rq x f (snd (controller_poll n s)))"
  by (induction n arbitrary: s) (simp_all add: rq_commute case_prod_beta Let_def)

lemma commute_busy_poll [rq_commute]: "busy_poll n (upd_rq x f s) = upd_rq x f (busy_poll n s)"
  by (induction n arbitrary: s) (simp_all add: rq_commute case_prod_beta Let_def)

lemma commute_drive_busy [rq_commute]: "drive_busy (upd_rq x f s) = (fst (drive_busy s), upd_rq x f (snd (drive_busy s)))"
  by (simp add: drive_busy_def rq_commute case_prod_beta Let_def)

lemma commute_poll_drq [rq_commute]: "poll_drq n (upd_rq x f s) = (fst (poll_drq n s), upd_rq x f (snd (poll_drq n s)))"
  by (induction n arbitrary: s) (simp_all add: rq_commute case_prod_beta Let_def)

lemma commute_hd_out [rq_commute]:
  "hd_out d n sect head cyl cmd h (upd_rq x f s) = bnd (hd_out d n sect head cyl cmd h s) (\<lambda>t. Inr (upd_rq x f t))"
  by (simp add: hd_out_def controller_ready_def rq_commute case_prod_beta Let_def)

lemma commute_reset_controller [rq_commute]:
  "reset_controller d (upd_rq x f s) = bnd (reset_controller d s) (\<lambda>t. Inr (upd_rq x f t))"
proof -
  have i: "(if c then upd_rq x f a else upd_rq x f b) = upd_rq x f (if c then a else b)" for c a b by simp
  show ?thesis by (simp add: reset_controller_def rq_commute case_prod_beta Let_def i)
qed

lemma commute_end_request:
  assumes "off x s"
  shows "end_request u (upd_rq x f s) = upd_rq x f (end_request u s)"
proof -
  have i: "(if c then upd_rq x f a else upd_rq x f b) = upd_rq x f (if c then a else b)" for c a b by simp
  show ?thesis
    using off_current [OF assms]
    by (simp add: end_request_def Let_def rq_commute upd_rq_of i)
qed

lemma end_request_fields:
  "CURRENT (end_request u s) = rq_next (rq_of s (CURRENT s))" "rq_next (rq_of (end_request u s) j) = rq_next (rq_of s j)"
  "rq_errors (rq_of (end_request u s) j) = rq_errors (rq_of s j)"
  by (simp_all add: end_request_def Let_def unlock_buff_def machine_defs)

lemma off_end_request: "off x s \<Longrightarrow> CURRENT s \<noteq> NULL \<Longrightarrow> off x (end_request u s)"
  by (erule off_advance) (simp_all add: end_request_fields)

lemma commute_bad_rw_intr:
  assumes "off x s"
  shows "bad_rw_intr (upd_rq x f s) = bnd (bad_rw_intr s) (\<lambda>t. Inr (upd_rq x f t))"
    "bad_rw_intr s = Inr t \<Longrightarrow> off x t"
proof -
  let ?s1 = "upd_rq (CURRENT s) (\<lambda>r. r\<lparr>rq_errors := rq_errors r + 1\<rparr>) s"
  have cx: "CURRENT s \<noteq> x" by (rule off_current [OF assms])
  have o1: "off x ?s1" by (rule off_same [OF assms]) (simp_all add: upd_rq_of)
  have c2: "CURRENT s \<noteq> NULL \<Longrightarrow> off x (end_request False ?s1)" by (rule off_end_request [OF o1]) simp
  note f = off_current [OF o1] off_current [OF c2]
  show "bad_rw_intr (upd_rq x f s) = bnd (bad_rw_intr s) (\<lambda>t. Inr (upd_rq x f t))"
  proof (cases "CURRENT s = NULL")
    case False
    then show ?thesis
      using cx f(2) by (simp add: bad_rw_intr_def Let_def commute_upd_rq [OF cx] commute_end_request [OF o1] upd_rq_of commute_flags)
  qed (simp add: bad_rw_intr_def)
  have fl: "off x (v\<lparr>drv := (drv v)\<lparr>reset := a\<rparr>\<rparr>)" if "off x v" for v a
    by (rule off_same [OF that]) (simp_all add: CURRENT_def)
  show "bad_rw_intr s = Inr t \<Longrightarrow> off x t"
    using o1 c2 fl by (auto simp: bad_rw_intr_def Let_def split: if_splits)
qed

lemma commute_print_failed: "off x s \<Longrightarrow> print_failed w (upd_rq x f s) = upd_rq x f (print_failed w s)"
  using off_current [of x s] by (simp add: print_failed_def upd_rq_of rq_commute)

lemma off_io:
  assumes "io_only s t"
  shows "off x t = off x s"
  using io_only_frame(3,4) [OF assms] by (simp add: off_def)

text \<open>The rest of a write after the command.\<close>

definition write_rest :: "kst \<Rightarrow> (kst + kst) kres" where
  "write_rest s1 = (let (drq, s2) = poll_drq 3000 s1
     in if \<not> drq then bnd (bad_rw_intr s2) (\<lambda>s3. Inr (Inl (print_failed ''write'' s3)))
        else Inr (Inr (port_write HD_DATA (rq_buffer (rq_of s2 (CURRENT s2))) s2)))"

lemma commute_write_rest:
  assumes "off x s"
  shows "write_rest (upd_rq x f s) = bnd (write_rest s) (\<lambda>r. Inr (map_sum (upd_rq x f) (upd_rq x f) r))"
    "write_rest s = Inr (Inl t) \<Longrightarrow> off x t"
proof -
  obtain drq s2 where 2: "poll_drq 3000 s = (drq, s2)" by (cases "poll_drq 3000 s")
  have o2: "off x s2" using off_io [OF io_poll_drq [of s 3000], of x] 2 assms by simp
  note B = commute_bad_rw_intr [OF o2]
  have "bnd (bad_rw_intr s2) (\<lambda>s3. Inr (Inl (print_failed ''write'' (upd_rq x f s3)))) =
      bnd (bad_rw_intr s2) (\<lambda>s3. Inr (Inl (upd_rq x f (print_failed ''write'' s3))))"
    by (rule bnd_cong [OF refl]) (simp add: commute_print_failed B(2))
  then show "write_rest (upd_rq x f s) = bnd (write_rest s) (\<lambda>r. Inr (map_sum (upd_rq x f) (upd_rq x f) r))"
    using off_current [OF o2] by (cases drq) (simp_all add: write_rest_def commute_poll_drq 2 B(1) bnd_assoc upd_rq_of commute_basic)
  show "write_rest s = Inr (Inl t) \<Longrightarrow> off x t"
    using B(2) off_io [OF io_print_failed, of x] by (auto simp: write_rest_def 2 bnd_eq_Inr split: if_splits)
qed

lemma commute_do_hd_body:
  assumes o: "off x s"
  shows "do_hd_body (upd_rq x f s) = bnd (do_hd_body s) (\<lambda>r. Inr (map_sum (upd_rq x f) (upd_rq x f) r))"
    "do_hd_body s = Inr (Inl t) \<Longrightarrow> off x t"
proof -
  have cx: "CURRENT s \<noteq> x" by (rule off_current [OF o])
  have h: "off x s1" if "hd_out d n sect head cyl cmd h s = Inr s1" for d n sect head cyl cmd h s1
    using wp_InrD [OF hd_out_io that] off_io [of s s1 x] o by (simp add: programmed_def)
  have w: "bnd (hd_out d n sect head cyl cmd h s) (\<lambda>s1. write_rest (upd_rq x f s1)) =
      bnd (hd_out d n sect head cyl cmd h s) (\<lambda>s1. bnd (write_rest s1) (\<lambda>r. Inr (map_sum (upd_rq x f) (upd_rq x f) r)))"
    for d n sect head cyl cmd h
    by (rule bnd_cong [OF refl]) (simp add: commute_write_rest h)
  show "do_hd_body (upd_rq x f s) = bnd (do_hd_body s) (\<lambda>r. Inr (map_sum (upd_rq x f) (upd_rq x f) r))"
    using cx unfolding do_hd_body_def Let_def write_rest_def [unfolded Let_def, symmetric]
    by (simp add: upd_rq_of commute_end_request [OF o] commute_flags commute_hd_out commute_reset_controller bnd_assoc w)
  show "do_hd_body s = Inr (Inl t) \<Longrightarrow> off x t"
    unfolding do_hd_body_def Let_def write_rest_def [unfolded Let_def, symmetric]
    using off_end_request [OF o] by (auto simp: bnd_eq_Inr split: if_splits dest: commute_write_rest(2) [OF h])
qed

lemma commute_do_hd_loop: "off x s \<Longrightarrow> do_hd_loop n (upd_rq x f s) = bnd (do_hd_loop n s) (\<lambda>t. Inr (upd_rq x f t))"
proof (induction n arbitrary: s)
  case (Suc n)
  note B = commute_do_hd_body [OF Suc.prems]
  have "bnd (do_hd_body s) (\<lambda>r. case map_sum (upd_rq x f) (upd_rq x f) r of Inl t \<Rightarrow> do_hd_loop n t | Inr t \<Rightarrow> Inr t) =
      bnd (do_hd_body s) (\<lambda>r. bnd (case r of Inl t \<Rightarrow> do_hd_loop n t | Inr t \<Rightarrow> Inr t) (\<lambda>t. Inr (upd_rq x f t)))"
    by (rule bnd_cong [OF refl]) (auto simp: B(2) Suc.IH split: sum.splits)
  then show ?case by (simp add: B(1) bnd_assoc)
qed simp

lemma commute_do_hd_request: "off x s \<Longrightarrow> do_hd_request (upd_rq x f s) = bnd (do_hd_request s) (\<lambda>t. Inr (upd_rq x f t))"
  by (simp add: do_hd_request_def commute_do_hd_loop)

section \<open>Handlers\<close>

lemma commute_failed:
  assumes "off x s"
  shows "bnd (bad_rw_intr (upd_rq x f s)) (\<lambda>u. do_hd_request (print_failed w u)) =
    bnd (bnd (bad_rw_intr s) (\<lambda>u. do_hd_request (print_failed w u))) (\<lambda>t. Inr (upd_rq x f t))"
proof -
  note B = commute_bad_rw_intr [OF assms]
  have "bnd (bad_rw_intr s) (\<lambda>u. do_hd_request (print_failed w (upd_rq x f u))) =
      bnd (bad_rw_intr s) (\<lambda>u. bnd (do_hd_request (print_failed w u)) (\<lambda>t. Inr (upd_rq x f t)))"
    by (rule bnd_cong [OF refl]) (simp add: B(2) commute_print_failed commute_do_hd_request off_io [OF io_print_failed])
  then show ?thesis by (simp add: B(1) bnd_assoc)
qed

lemma off_upd_current:
  assumes "off x s" "\<And>r. rq_next (g r) = rq_next r"
  shows "off x (upd_rq j g s)"
  by (rule off_same [OF assms(1)]) (simp_all add: upd_rq_of assms(2))

lemma off_port_read: "off x s \<Longrightarrow> off x (port_read b s)"
  by (erule off_same) (simp_all add: port_read_def CURRENT_def case_prod_beta)

lemma commute_complete:
  assumes "off x s" "CURRENT s \<noteq> NULL"
  shows "do_hd_request (end_request u (upd_rq x f s)) = bnd (do_hd_request (end_request u s)) (\<lambda>t. Inr (upd_rq x f t))"
  using assms by (simp add: commute_end_request commute_do_hd_request off_end_request)

lemma off_win_result: "off x s \<Longrightarrow> off x (snd (win_result s))"
  using off_io [OF io_win_result [of s]] by simp

lemma commute_read_intr:
  assumes "off x s"
  shows "read_intr (upd_rq x f s) = bnd (read_intr s) (\<lambda>t. Inr (upd_rq x f t))"
proof -
  obtain bad s1 where w: "win_result s = (bad, s1)" by (cases "win_result s")
  have o: "off x s1" using off_win_result [OF assms] w by simp
  let ?c = "CURRENT s1"
  have cx: "?c \<noteq> x" by (rule off_current [OF o])
  define s6 where "s6 = upd_rq ?c (\<lambda>r. r\<lparr>rq_nr_sectors := rq_nr_sectors r - 1\<rparr>)
     (upd_rq ?c (\<lambda>r. r\<lparr>rq_sector := rq_sector r + 1\<rparr>)
     (upd_rq ?c (\<lambda>r. r\<lparr>rq_buffer := (fst (rq_buffer r), snd (rq_buffer r) + 512)\<rparr>)
     (upd_rq ?c (\<lambda>r. r\<lparr>rq_errors := 0\<rparr>) (port_read (rq_buffer (rq_of s1 ?c)) s1))))"
  have o6: "off x s6" unfolding s6_def by (intro off_upd_current off_port_read o) simp_all
  have c6: "CURRENT s6 = ?c" by (simp add: s6_def) (simp add: port_read_def CURRENT_def case_prod_beta)
  show ?thesis
    using cx commute_failed [OF o] commute_complete [OF o6]
    by (cases bad) (simp_all add: read_intr_def Let_def commute_win_result w upd_rq_of commute_basic commute_upd_rq [OF cx]
        s6_def [symmetric] c6 del: One_nat_def)
qed

lemma commute_write_intr:
  assumes "off x s"
  shows "write_intr (upd_rq x f s) = bnd (write_intr s) (\<lambda>t. Inr (upd_rq x f t))"
proof -
  obtain bad s1 where w: "win_result s = (bad, s1)" by (cases "win_result s")
  have o: "off x s1" using off_win_result [OF assms] w by simp
  let ?c = "CURRENT s1"
  have cx: "?c \<noteq> x" by (rule off_current [OF o])
  define s2 where "s2 = upd_rq ?c (\<lambda>r. r\<lparr>rq_nr_sectors := rq_nr_sectors r - 1\<rparr>) s1"
  have o2: "off x s2" unfolding s2_def by (intro off_upd_current o) simp_all
  have c2: "CURRENT s2 = ?c" by (simp add: s2_def)
  show ?thesis
    using cx commute_failed [OF o] commute_complete [OF o2]
    by (cases bad) (simp_all add: write_intr_def Let_def commute_win_result w upd_rq_of commute_basic commute_upd_rq [OF cx]
        s2_def [symmetric] c2 del: One_nat_def)
qed

lemma commute_recal_intr:
  assumes "off x s"
  shows "recal_intr (upd_rq x f s) = bnd (recal_intr s) (\<lambda>t. Inr (upd_rq x f t))"
proof -
  have "off x (snd (win_result s))" by (rule off_win_result [OF assms])
  then show ?thesis
    by (simp add: recal_intr_def commute_win_result case_prod_beta commute_failed commute_do_hd_request)
qed

lemma commute_run_handler: "off x s \<Longrightarrow> run_handler h (upd_rq x f s) = bnd (run_handler h s) (\<lambda>t. Inr (upd_rq x f t))"
  by (cases h) (simp_all add: commute_read_intr commute_write_intr commute_recal_intr commute_basic)

text \<open>What \<open>irq_handler\<close> does before the handler runs.\<close>

definition acknowledge :: "nat \<Rightarrow> kst \<Rightarrow> kst" where
  "acknowledge i s = outb 0x20 0x20 (if 40 \<le> 32 + i then outb 0x20 0xA0 (cli s) else cli s)"

lemma interrupt_run:
  "interrupt i s = bnd (case irq_routines (drv (acknowledge i s)) i of None \<Rightarrow> Inr (acknowledge i s)
     | Some h \<Rightarrow> run_handler h (acknowledge i s)) (\<lambda>t. Inr (sti t))"
  unfolding acknowledge_def interrupt_def irq_handler_def Let_def by simp

lemma acknowledge_fields: "drv (acknowledge i s) = drv s" "cache (acknowledge i s) = cache s" "\<exists>h. acknowledge i s = s\<lparr>hw := h\<rparr>"
  by (auto simp: acknowledge_def machine_defs)

lemma commute_acknowledge: "acknowledge i (upd_rq x f s) = upd_rq x f (acknowledge i s)"
  by (simp add: acknowledge_def commute_basic)

lemma interrupt_upd_rq:
  assumes "off x s"
  shows "interrupt i (upd_rq x f s) = bnd (interrupt i s) (\<lambda>t. Inr (upd_rq x f t))"
proof -
  have o: "off x (acknowledge i s)" by (rule off_same [OF assms]) (simp_all add: acknowledge_fields CURRENT_def)
  show ?thesis
    by (simp add: interrupt_run commute_acknowledge commute_run_handler [OF o] commute_basic bnd_assoc split: option.splits)
qed

section \<open>Interrupts one after the other\<close>

text \<open>
  A spurious interrupt of the disk: one that arrives when no request is pending. The handler then follows the null
  \<open>CURRENT_REQUEST\<close>.
\<close>

fun spurious :: "nat list \<Rightarrow> kst \<Rightarrow> bool" where
  "spurious [] s = False"
| "spurious (i # is) s = (i = 14 \<and> CURRENT s = NULL \<or> (case interrupt i s of Inl e \<Rightarrow> False | Inr t \<Rightarrow> spurious is t))"

lemma settled_chain: "settled L s q t \<Longrightarrow> (\<And>k. drv_inv L t (drop k q) \<Longrightarrow> settled L t (drop k q) u) \<Longrightarrow> settled L s q u"
  by (auto simp: settled_def intro: disk_frame_trans)

lemma interrupts_settled:
  assumes "drv_inv L s q"
  shows "wp (interrupts is s) (\<lambda>e. e = not_ready \<or> e = Fault \<and> spurious is s) (settled L s q)"
  using assms
proof (induction "is" arbitrary: s q)
  case Nil
  then show ?case by (simp add: settled_refl)
next
  case (Cons i "is")
  have cur: "q = [] \<Longrightarrow> CURRENT s = NULL" using Cons.prems queue_inv_current [of L s q] by (simp add: drv_inv_def)
  show ?case
  proof (cases "interrupt i s")
    case (Inl e)
    then show ?thesis using wp_InlD [OF interrupt_settled [OF Cons.prems] Inl] cur by auto
  next
    case (Inr t)
    then have t: "settled L s q t" using wp_InrD [OF interrupt_settled [OF Cons.prems] Inr] by simp
    then obtain k where k: "disk_frame s t" "drv_inv L t (drop k q)" by (auto simp: settled_def)
    have "wp (interrupts is t) (\<lambda>e. e = not_ready \<or> e = Fault \<and> spurious (i # is) s) (settled L s q)"
      by (rule wp_mono [OF Cons.IH [OF k(2)]]) (use Inr settled_trans [OF k(2,1)] in auto)
    then show ?thesis using Inr by simp
  qed
qed

text \<open>A request that is not queued stays what it is, and what is written into it meanwhile does not matter.\<close>

lemma interrupts_upd_rq:
  assumes "drv_inv L s q" "x \<noteq> NULL" "rq_dev (rq_of s x) < 0"
  shows "interrupts is (upd_rq x f s) = bnd (interrupts is s) (\<lambda>t. Inr (upd_rq x f t)) \<and>
    (\<forall>t. interrupts is s = Inr t \<longrightarrow> rq_of t x = rq_of s x)"
  using assms
proof (induction "is" arbitrary: s q)
  case (Cons i "is")
  have "queue_inv L s q" using Cons.prems(1) by (simp add: drv_inv_def)
  then have o: "off x s" by (rule queue_inv_off) (use Cons.prems in simp_all)
  show ?case
  proof (cases "interrupt i s")
    case (Inr t)
    have "upd_rq x (\<lambda>_. rq_of s x) s = s" by (simp add: upd_rq_def)
    then have "Inr t = bnd (interrupt i s) (\<lambda>t. Inr (upd_rq x (\<lambda>_. rq_of s x) t))"
      using interrupt_upd_rq [OF o, of i "\<lambda>_. rq_of s x"] Inr by simp
    then have same: "rq_of t x = rq_of s x" using Inr by (simp add: upd_rq_of [of x "\<lambda>_. rq_of s x" t x, simplified])
        (metis upd_rq_of)
    obtain k where k: "drv_inv L t (drop k q)"
      using wp_InrD [OF interrupt_settled [OF Cons.prems(1)] Inr] by (auto simp: settled_def)
    show ?thesis using Cons.IH [OF k Cons.prems(2)] Cons.prems(3) same Inr by (simp add: interrupt_upd_rq [OF o])
  qed (simp add: interrupt_upd_rq [OF o])
qed simp

text \<open>Interrupts of other devices change nothing the driver reads.\<close>

lemma other_interrupt:
  assumes "irqs_ok s" "i \<noteq> 14"
  shows "\<exists>t. interrupt i s = Inr t \<and> disk_frame s t \<and> same_queue s t"
proof -
  obtain h where h: "acknowledge i s = s\<lparr>hw := h\<rparr>" using acknowledge_fields(3) by blast
  have "irq_routines (drv s) i \<in> {None, Some Timer_handler}" using assms by (simp add: irqs_ok_def)
  then show ?thesis
    by (auto simp: interrupt_run h timer_handler_def sti_def disk_frame_def same_queue_def)
qed

lemma other_interrupts:
  assumes "irqs_ok s" "14 \<notin> set is"
  shows "\<exists>t. interrupts is s = Inr t \<and> disk_frame s t \<and> same_queue s t"
  using assms
proof (induction "is" arbitrary: s)
  case (Cons i "is")
  obtain t where t: "interrupt i s = Inr t" "disk_frame s t" "same_queue s t"
    using other_interrupt [of s i] Cons.prems by auto
  have "irqs_ok t" using t(2) Cons.prems(1) by (simp add: irqs_ok_def disk_frame_def)
  then obtain u where "interrupts is t = Inr u" "disk_frame t u" "same_queue t u" using Cons by auto
  then show ?case using t disk_frame_trans [OF t(2)] by (auto simp: same_queue_def)
qed (simp add: same_queue_def)

section \<open>\<open>ll_rw_block\<close> with interrupts\<close>

lemma add_request_irq_ok:
  assumes e: "entering L rw bh x s q" and w: "14 \<notin> set (at_start w)"
  shows "wp (add_request_irq w MAJOR_NR x (fill_request rw bh x s)) (\<lambda>e. e = not_ready) (queued L bh s)"
proof (cases "q = []")
  case False
  have "queue_inv (insert bh L) s q" using e by (simp add: entering_def drv_inv_def)
  then have "current_request (drv s) MAJOR_NR \<noteq> NULL"
    using queue_inv_current [of "insert bh L" s q] queue_invD(3) [of "insert bh L" s q] False by (cases q) (auto simp: CURRENT_def)
  then have "add_request_irq w MAJOR_NR x (fill_request rw bh x s) = add_request MAJOR_NR x (fill_request rw bh x s)"
    by (simp add: add_request_def add_request_irq_def Let_def) (simp add: machine_defs fill_request_proj)
  then show ?thesis using add_request_ok [OF e] by simp
next
  case True
  obtain t where t: "add_request_irq w MAJOR_NR x (fill_request rw bh x s) = bnd (interrupts (at_start w) t)
       (\<lambda>u. if request_fn (drv u) MAJOR_NR then do_hd_request u else Inl Fault)"
     "linked rw bh x s t" "queue_inv L t [x]" "request_fn (drv t) MAJOR_NR"
    using add_request_idle [OF e [unfolded True], of w] by blast
  note f = linked_frame [OF t(2)]
  have g: "geom_ok t" "irqs_ok t" using e rw_frame_geom [OF f] by (simp_all add: entering_def drv_inv_def)
  obtain u where u: "interrupts (at_start w) t = Inr u" "disk_frame t u" "same_queue t u" using other_interrupts [OF g(2) w] by blast
  have "queue_inv L u (drop 0 [x])" using t(3) queue_inv_same [OF u(3)] by simp
  from do_hd_request_settled [OF u(2) g this]
  have "wp (do_hd_request u) (\<lambda>e. e = not_ready) (queued L bh s)"
    by (rule wp_mono) (auto simp: settled_def queued_def intro: rw_frame_trans [OF f disk_rw_frame])
  then show ?thesis using t(1,4) u by (simp add: disk_frame_def)
qed

text \<open>Filling the slot before or after the interrupts comes to the same.\<close>

lemma interrupts_fill:
  assumes inv: "drv_inv L t q" and x: "x \<noteq> NULL" "rq_dev (rq_of t x) < 0"
  shows "interrupts is (fill_request rw bh x t) = bnd (interrupts is t) (\<lambda>u. Inr (fill_request rw bh x u))"
    "interrupts is t = Inr u \<Longrightarrow> rq_of u x = rq_of t x"
proof -
  note I = interrupts_upd_rq [OF assms, of "is"]
  show "interrupts is t = Inr u \<Longrightarrow> rq_of u x = rq_of t x" for u using I by blast
  define f where "f = (\<lambda>r :: request. r\<lparr>rq_dev := uint (b_dev (bh_of t bh)), rq_cmd := rw, rq_errors := 0,
       rq_sector := push_bit 1 (b_blocknr (bh_of t bh)), rq_nr_sectors := 2,
       rq_buffer := (bh, 0), rq_bh := bh, rq_next := NULL\<rparr>)"
  have "upd_rq x f u = fill_request rw bh x u" if "interrupts is t = Inr u" for u
  proof -
    have "disk_frame t u" using wp_InrD [OF interrupts_settled [OF inv] that] by (simp add: settled_def)
    then show ?thesis using disk_frame_fields [of t u] by (simp add: f_def fill_request_def)
  qed
  then have "bnd (interrupts is t) (\<lambda>u. Inr (upd_rq x f u)) = bnd (interrupts is t) (\<lambda>u. Inr (fill_request rw bh x u))"
    by (intro bnd_cong [OF refl]) simp
  moreover have "fill_request rw bh x t = upd_rq x f t" by (simp add: f_def fill_request_def)
  ultimately show "interrupts is (fill_request rw bh x t) = bnd (interrupts is t) (\<lambda>u. Inr (fill_request rw bh x u))"
    using I by simp
qed

lemma queue_block_irq_ok:
  assumes inv: "drv_inv (insert bh L) s q" and bh: "bh \<notin> L" "bh \<in> buffers (cache s)"
    and rw: "rw = READ \<or> rw = WRITE" and dev: "MAJOR (uint (b_dev (bh_of s bh))) = MAJOR_NR" "request_fn (drv s) MAJOR_NR"
    and w: "14 \<notin> set (at_start w)"
  shows "wp (queue_block_irq w rw ahead MAJOR_NR bh s)
    (\<lambda>e. e = not_ready \<or> e = Hang \<and> \<not> has_slot rw s \<or>
       e = Fault \<and> (\<exists>t. settled (insert bh L) s q t \<and> spurious (at_fill w) t)) (queued L bh s)"
    (is "wp _ ?E _")
proof -
  have "wp (spin_until (has_slot rw) (\<lambda>s. s) s) ?E
     (\<lambda>t. wp (let req = free_slot (request_list (drv t)) (slots_for rw)
           in bnd (interrupts (at_fill w) (fill_request rw bh req t)) (add_request_irq w MAJOR_NR req)) ?E (queued L bh s))"
  proof (rule wp_mono [OF spin_slot [OF inv]])
    fix t assume t: "settled (insert bh L) s q t \<and> has_slot rw t"
    let ?x = "free_slot (request_list (drv t)) (slots_for rw)"
    obtain k where k: "disk_frame s t" "drv_inv (insert bh L) t (drop k q)" using t by (auto simp: settled_def)
    have x: "?x \<noteq> NULL" using t by (simp add: has_slot_def)
    have en: "entering L rw bh ?x t (drop k q)" by (rule slot_entering [OF k(2,1) refl x bh rw dev])
    then have x': "rq_dev (rq_of t ?x) < 0" by (simp add: entering_def)
    note F = interrupts_fill [OF k(2) x x']
    have "wp (interrupts (at_fill w) t) ?E (\<lambda>u. wp (add_request_irq w MAJOR_NR ?x (fill_request rw bh ?x u)) ?E (queued L bh s))"
    proof (cases "interrupts (at_fill w) t")
      case (Inl e)
      then show ?thesis using wp_InlD [OF interrupts_settled [OF k(2)] Inl] t by auto
    next
      case (Inr u)
      obtain m where m: "disk_frame t u" "drv_inv (insert bh L) u (drop m (drop k q))"
        using wp_InrD [OF interrupts_settled [OF k(2)] Inr] by (auto simp: settled_def)
      have "entering L rw bh ?x u (drop m (drop k q))"
        using en m(2) F(2) [OF Inr] disk_frame_fields [OF m(1)] by (simp add: entering_def)
      from add_request_irq_ok [OF this w]
      have "wp (add_request_irq w MAJOR_NR ?x (fill_request rw bh ?x u)) ?E (queued L bh s)"
        by (rule wp_mono) (auto simp: queued_def intro: rw_frame_trans [OF disk_rw_frame [OF disk_frame_trans [OF k(1) m(1)]]])
      then show ?thesis using Inr by simp
    qed
    then show "wp (let req = ?x in bnd (interrupts (at_fill w) (fill_request rw bh req t)) (add_request_irq w MAJOR_NR req)) ?E (queued L bh s)"
      by (simp add: F(1) Let_def)
  qed auto
  moreover have "queued L bh s (unlock_buff bh s)" using unlock_buff_inv [OF inv bh(1)] by (auto simp: queued_def)
  ultimately show ?thesis by (auto simp: queue_block_irq_def)
qed

lemma ll_rw_block_irq_ok:
  assumes inv: "drv_inv L s q" and bh: "bh \<in> buffers (cache s)" "b_lock (bh_of s bh) = 0" "bh \<notin> L"
    and rw: "is_rw rw" and w: "14 \<notin> set (at_start w)"
  shows "wp (ll_rw_block_irq w rw bh s)
    (\<lambda>e. e = not_ready \<or> e = Hang \<and> \<not> has_slot rw s \<or>
       e = Fault \<and> (spurious (at_lock w) (lock_buff bh s) \<or>
         (\<exists>t. settled (insert bh L) (lock_buff bh s) q t \<and> spurious (at_fill w) t))) (queued L bh s)"
    (is "wp _ ?E _")
proof -
  let ?m = "MAJOR (uint (b_dev (bh_of s bh)))"
  let ?ahead = "rw = READA \<or> rw = WRITEA"
  define rw' where "rw' = (if ?ahead then (if rw = READA then READ else WRITE) else rw)"
  have rw': "rw' = READ \<or> rw' = WRITE" "slots_for rw' \<ge> slots_for rw" using rw by (auto simp: rw'_def is_rw_def slots_for_def)
  show ?thesis
  proof (cases "NR_BLK_DEV \<le> ?m \<or> \<not> request_fn (drv s) ?m")
    case True
    have "queued L bh s (printk f a s)" for f a by (rule queued_same [OF inv]) (simp_all add: printk_def)
    then show ?thesis using True by (simp add: ll_rw_block_irq_def)
  next
    case False
    have m1: "?m = MAJOR_NR"
      using False queue_invD(7) [of L s q ?m] inv by (auto simp: drv_inv_def)
    then have m: "?m = MAJOR_NR" "request_fn (drv s) MAJOR_NR" using False by simp_all
    define s1 where "s1 = lock_buff bh s"
    have inv1: "drv_inv (insert bh L) s1 q" unfolding s1_def by (rule lock_buff_inv [OF inv bh])
    have f1: "rw_frame bh s s1"
      by (simp add: s1_def rw_frame_def lock_buff_def machine_defs quiet_bh_def)
    have s1: "drv s1 = drv s" "buffers (cache s1) = buffers (cache s)" "b_dev (bh_of s1 bh) = b_dev (bh_of s bh)"
      by (simp_all add: s1_def lock_buff_def machine_defs buffers_def)
    define rest where "rest = (\<lambda>t. let b = bh_of t bh
      in if (rw' = WRITE \<and> b_dirt b = 0) \<or> (rw' = READ \<and> b_uptodate b \<noteq> 0)
         then Inr (unlock_buff bh (printk (''read|write:%d dirt:%d uptodate:%d'' @ NLCR)
                     [ArgI (word_of_int rw'), ArgI (ucast (b_dirt b)), ArgI (ucast (b_uptodate b))] t))
         else queue_block_irq w rw' ?ahead ?m bh t)"
    have run: "ll_rw_block_irq w rw bh s = bnd (interrupts (at_lock w) s1) rest"
      using False bh rw' unfolding ll_rw_block_irq_def Let_def rw'_def [symmetric] s1_def [symmetric] rest_def by auto
    have "wp (rest t) ?E (queued L bh s)" if t: "interrupts (at_lock w) s1 = Inr t" for t
    proof -
      have st: "settled (insert bh L) s1 q t" using wp_InrD [OF interrupts_settled [OF inv1] t] .
      then obtain k where k: "disk_frame s1 t" "drv_inv (insert bh L) t (drop k q)" by (auto simp: settled_def)
      have f: "rw_frame bh s t" by (rule rw_frame_trans [OF f1 disk_rw_frame [OF k(1)]])
      note D = disk_frame_fields [OF k(1)]
      have un: "queued L bh s (unlock_buff bh (printk g a t))" for g a
      proof -
        have p: "drv_inv (insert bh L) (printk g a t) (drop k q)"
          by (rule drv_inv_same(1) [OF k(2)]) (simp_all add: printk_def)
        have "rw_frame bh s (printk g a t)" using f by (simp add: rw_frame_def printk_def)
        then show ?thesis using unlock_buff_inv [OF p bh(3)] rw_frame_trans by (auto simp: queued_def)
      qed
      have slots: "has_slot rw s \<Longrightarrow> has_slot rw' t"
      proof -
        assume "has_slot rw s"
        then obtain i where i: "i \<in> {1..slots_for rw}" "rq_dev (rq_of s i) < 0" unfolding has_slot_def free_slot_none by force
        have "set q = {i \<in> {1..NR_REQUEST}. 0 \<le> rq_dev (rq_of s i)}"
          "set (drop k q) = {i \<in> {1..NR_REQUEST}. 0 \<le> rq_dev (rq_of t i)}"
          using inv k(2) queue_invD(3) by (auto simp: drv_inv_def)
        moreover have "i \<le> NR_REQUEST" using i slots_for_le [of rw] by simp
        ultimately have "rq_dev (rq_of t i) < 0" using i set_drop_subset [of k q] by auto
        then show "has_slot rw' t" using i rw'(2) unfolding has_slot_def free_slot_none by force
      qed
      have "wp (queue_block_irq w rw' ?ahead MAJOR_NR bh t) ?E (queued L bh s)"
      proof (rule wp_mono [OF queue_block_irq_ok [OF k(2) bh(3) _ rw'(1) _ _ w]])
        show "bh \<in> buffers (cache t)" "MAJOR (uint (b_dev (bh_of t bh))) = MAJOR_NR" "request_fn (drv t) MAJOR_NR"
          using D s1 bh(1) m by simp_all
        show "?E e" if "e = not_ready \<or> e = Hang \<and> \<not> has_slot rw' t \<or>
            e = Fault \<and> (\<exists>u. settled (insert bh L) t (drop k q) u \<and> spurious (at_fill w) u)" for e
          using that slots settled_trans [OF k(2,1)] by (auto simp: s1_def)
        show "queued L bh s u" if "queued L bh t u" for u using that f by (auto simp: queued_def intro: rw_frame_trans)
      qed
      then show ?thesis using un by (simp add: rest_def m1 Let_def)
    qed
    then have "wp (interrupts (at_lock w) s1) ?E (\<lambda>t. wp (rest t) ?E (queued L bh s))"
      using interrupts_settled [OF inv1, of "at_lock w"] by (cases "interrupts (at_lock w) s1") (auto simp: s1_def)
    then show ?thesis by (simp add: run)
  qed
qed

end
