(* ===== verification/Disk_Read.thy ===== *)
theory Disk_Read
  imports Buffer_Inv
begin

text \<open>
  The life of a read on an idle disk that works: \<open>ll_rw_block\<close> programs the controller with the
  cylinder, head and sector of the block, each of the two interrupts brings a sector, and the
  second one releases the buffer.
\<close>

section \<open>Cylinder, head, sector\<close>

text \<open>The two divisions of \<open>do_hd_request\<close>.\<close>

definition chs :: "u32 \<Rightarrow> hd_i_struct \<Rightarrow> u32 \<times> u32 \<times> u32" where
  "chs block g = (block div hd_sect g div hd_head g, block div hd_sect g mod hd_head g, block mod hd_sect g + 1)"

lemma chs_unique:
  assumes "hd_sect g \<noteq> 0" "hd_head g \<noteq> 0" "chs block g = (cyl, head, sec)"
  shows "unat block = (unat cyl * unat (hd_head g) + unat head) * unat (hd_sect g) + (unat sec - 1)"
    "unat head < unat (hd_head g)" "1 \<le> unat sec" "unat sec \<le> unat (hd_sect g)"
    "unat cyl < unat (hd_cyl g) \<longleftrightarrow> unat block < unat (hd_cyl g) * unat (hd_head g) * unat (hd_sect g)"
proof -
  let ?S = "unat (hd_sect g)" and ?H = "unat (hd_head g)" and ?b = "unat block"
  have p: "0 < ?S" "0 < ?H" using assms by (auto simp: unat_gt_0)
  have v: "unat cyl = ?b div ?S div ?H" "unat head = ?b div ?S mod ?H" "sec = block mod hd_sect g + 1"
    using assms(3) by (auto simp: chs_def unat_div unat_mod)
  define x where "x = block mod hd_sect g"
  have x: "unat x = ?b mod ?S" "unat x < ?S" using p by (simp_all add: x_def unat_mod)
  have "?S < 2 ^ 32" using unsigned_less [of "hd_sect g"] by simp
  then have "(unat x + 1) mod 2 ^ 32 = unat x + 1" using x(2) by (intro mod_less) simp
  moreover have "unat sec = (unat x + 1) mod 2 ^ 32" using v(3) by (simp add: x_def [symmetric] unat_word_ariths)
  ultimately have "unat sec = ?b mod ?S + 1" using x(1) by simp
  then show "1 \<le> unat sec" "unat sec \<le> ?S" "?b = (unat cyl * ?H + unat head) * ?S + (unat sec - 1)"
    using p v by (simp_all add: Suc_leI)
  show "unat head < ?H" using p v by simp
  show "unat cyl < unat (hd_cyl g) \<longleftrightarrow> ?b < unat (hd_cyl g) * ?H * ?S"
    using p by (simp add: v(1) div_less_iff_less_mult)
qed

section \<open>A disk that answers\<close>

definition ready :: "kst \<Rightarrow> bool" where
  "ready s \<longleftrightarrow> (\<forall>c. inb_val (hw s) c HD_STATUS = 0x50)"

definition tick :: "kst \<Rightarrow> kst" where
  "tick s = s\<lparr>hw := (hw s)\<lparr>io_clock := io_clock (hw s) + 1\<rparr>\<rparr>"

lemma ready_inb: "ready s \<Longrightarrow> inb HD_STATUS s = (0x50, tick s)"
  by (simp add: ready_def inb_def tick_def)

lemma ready_controller: "ready s \<Longrightarrow> controller_ready s = (999999, tick s)"
proof -
  assume r: "ready s"
  have "controller_poll (Suc 999999) s = (999999, tick s)"
    using ready_inb [OF r] unfolding controller_poll.simps by simp
  then show ?thesis by (simp add: controller_ready_def)
qed

lemma ready_win: "ready s \<Longrightarrow> win_result s = (False, tick s)"
  using ready_inb by (simp add: win_result_def)

text \<open>The seven output instructions of \<open>hd_out\<close>, newest first.\<close>

definition hd_commands :: "u32 \<Rightarrow> u32 \<Rightarrow> u32 \<Rightarrow> u32 \<Rightarrow> u32 \<Rightarrow> u32 \<Rightarrow> io list" where
  "hd_commands drive nsect sect head cyl cmd =
     [Outb (HD_DATA + 7) (ucast cmd), Outb (HD_DATA + 6) (ucast (0xA0 OR push_bit 4 drive OR head)),
      Outb (HD_DATA + 5) (ucast (drop_bit 8 cyl)), Outb (HD_DATA + 4) (ucast cyl), Outb (HD_DATA + 3) (ucast sect),
      Outb (HD_DATA + 2) (ucast nsect), Outb (HD_DATA + 1) 0, Outb HD_CMD 0]"

definition commanded :: "kst \<Rightarrow> handler \<Rightarrow> io list \<Rightarrow> kst" where
  "commanded s h out = s\<lparr>drv := (drv s)\<lparr>irq_routines := (irq_routines (drv s))(14 := Some h)\<rparr>,
     hw := (hw s)\<lparr>io_clock := io_clock (hw s) + 1, io_out := out @ io_out (hw s)\<rparr>\<rparr>"

lemma hd_out_ready:
  "ready s \<Longrightarrow> drive \<le> 1 \<Longrightarrow> head \<le> 15 \<Longrightarrow>
   hd_out drive nsect sect head cyl cmd h s = Inr (commanded s h (hd_commands drive nsect sect head cyl cmd))"
  by (simp add: hd_out_def ready_controller not_less [symmetric] commanded_def hd_commands_def Let_def
      irq_install_handler_def outb_def tick_def)

text \<open>\<open>do_hd_request\<close> with a read at the head.\<close>

definition startable :: "kst \<Rightarrow> request \<Rightarrow> bool" where
  "startable s r \<longleftrightarrow> MINOR (rq_dev r) < NR_HD (drv s) * 5 \<and>
     rq_sector r + 2 \<le> nr_sects (partition_info (drv s) (MINOR (rq_dev r))) \<and>
     \<not> reset (drv s) \<and> \<not> recalibrate (drv s)"

definition read_command :: "kst \<Rightarrow> request \<Rightarrow> io list" where
  "read_command s r =
     (let part = partition_info (drv s) (MINOR (rq_dev r)); drive = MINOR (rq_dev r) div 5;
          (cyl, head, sec) = chs (rq_sector r + start_sect part) (hd_info (drv s) drive)
      in hd_commands (of_nat drive) (rq_nr_sectors r) sec head cyl WIN_READ)"

lemma do_hd_request_round:
  "do_hd_request s = bnd (do_hd_body s) (\<lambda>r. case r of Inl s' \<Rightarrow> do_hd_loop 256 s' | Inr s' \<Rightarrow> Inr s')"
  using do_hd_loop.simps(2) [of 256 s] by (simp add: do_hd_request_def)

lemma do_hd_request_read:
  assumes inv: "queue_inv L s (i # q)" and g: "geom_ok s" and cmd: "rq_cmd (rq_of s i) = READ"
    and st: "startable s (rq_of s i)" and rd: "ready s"
  shows "do_hd_request s = Inr (commanded s Read_intr (read_command s (rq_of s i)))"
proof -
  note H = queue_inv_head [OF inv]
  note R = req_okD [OF H(3)]
  let ?r = "rq_of s i"
  let ?p = "MINOR (rq_dev ?r)"
  let ?part = "partition_info (drv s) ?p" and ?g = "hd_info (drv s) (?p div 5)"
  have p: "?p < NR_HD (drv s) * 5" "\<not> NR_HD (drv s) * 5 \<le> ?p" using st by (auto simp: startable_def)
  have pd: "?p div 5 < NR_HD (drv s)" using p by (simp add: div_less_iff_less_mult)
  then have d: "?p div 5 \<le> Suc 0" using g by (auto simp: geom_ok_def)
  have gi: "hd_sect ?g \<noteq> 0" "1 \<le> hd_head ?g" "hd_head ?g \<le> 16" "hd_head ?g \<noteq> 0"
    using g pd by (auto simp: geom_ok_def)
  have "\<not> nr_sects ?part < rq_sector ?r + 2" using st by (simp add: startable_def not_less)
  then have "do_hd_body s = Inr (Inr (commanded s Read_intr (read_command s ?r)))"
    using H(1,2) R p(2) gi st cmd hd_out_ready [OF rd drive_bound [OF d] head_bound [OF gi(2,3)]]
    unfolding do_hd_body_def Let_def read_command_def chs_def startable_def by simp
  then show ?thesis by (simp add: do_hd_request_round)
qed

lemma do_hd_request_idle: "CURRENT s = NULL \<Longrightarrow> do_hd_request s = Inr s"
  by (simp add: do_hd_request_round do_hd_body_def)

section \<open>The two interrupts\<close>

definition reading :: "kst \<Rightarrow> ptr \<Rightarrow> ptr \<Rightarrow> nat \<Rightarrow> bool" where
  "reading s i bh off \<longleftrightarrow> CURRENT s = i \<and> i \<noteq> NULL \<and> bh \<noteq> NULL \<and> b_lock (bh_of s bh) \<noteq> 0 \<and>
     rq_buffer (rq_of s i) = (bh, off) \<and> rq_bh (rq_of s i) = bh \<and> rq_next (rq_of s i) = NULL \<and>
     rq_nr_sectors (rq_of s i) = (if off = 0 then 2 else 1) \<and>
     irq_routines (drv s) 14 = Some Read_intr \<and> ready s"

text \<open>The ends of interrupt that \<open>irq_handler\<close> sends to both interrupt controllers.\<close>

definition eoi :: "io list" where
  "eoi = [Outb 0x20 0x20, Outb 0xA0 0x20]"

definition acked :: "kst \<Rightarrow> kst" where
  "acked s = outb 0x20 0x20 (outb 0x20 0xA0 (cli s))"

lemma acked_proj:
  "cache (acked s) = cache s" "drv (acked s) = drv s" "ready (acked s) = ready s"
  "io_clock (hw (acked s)) = io_clock (hw s)" "insw_val (hw (acked s)) = insw_val (hw s)"
  "irqs (hw (acked s)) = irqs (hw s)" "CURRENT (acked s) = CURRENT s" "io_out (hw (acked s)) = eoi @ io_out (hw s)"
  by (simp_all add: acked_def outb_def cli_def ready_def CURRENT_def eoi_def)

lemma tick_proj:
  "cache (tick s) = cache s" "drv (tick s) = drv s" "ready (tick s) = ready s"
  "io_clock (hw (tick s)) = io_clock (hw s) + 1" "insw_val (hw (tick s)) = insw_val (hw s)"
  "irqs (hw (tick s)) = irqs (hw s)" "CURRENT (tick s) = CURRENT s" "io_out (hw (tick s)) = io_out (hw s)"
  by (simp_all add: tick_def ready_def CURRENT_def)

lemma interrupt_read:
  assumes "reading s i bh off"
  shows "interrupt 14 s = bnd (read_intr (acked s)) (\<lambda>t. Inr (sti t))"
  using assms by (simp add: interrupt_def irq_handler_def Let_def reading_def acked_def)
    (simp add: outb_def cli_def)

text \<open>The bytes of one 512-byte transfer.\<close>

definition sector_of :: "kst \<Rightarrow> nat \<Rightarrow> nat \<Rightarrow> u8" where
  "sector_of s c = insw_val (hw s) c"

lemma first_sector:
  assumes "reading s i bh 0"
  shows "\<exists>t. interrupt 14 s = Inr t \<and> reading t i bh 512 \<and>
     bdata (cache t) bh = (\<lambda>j. if j < 512 then sector_of s (io_clock (hw s) + 1) j else bdata (cache s) bh j) \<and>
     io_clock (hw t) = io_clock (hw s) + 2 \<and> insw_val (hw t) = insw_val (hw s) \<and> io_out (hw t) = eoi @ io_out (hw s)"
proof -
  let ?a = "tick (acked s)"
  have r: "ready (acked s)" "CURRENT ?a = i" "rq_of ?a i = rq_of s i" using assms by (simp_all add: acked_proj tick_proj reading_def)
  define t where "t = sti (irq_install_handler 14 Read_intr (read_done ?a))"
  have "interrupt 14 s = Inr t"
    using interrupt_read [OF assms] read_intr_steps [OF ready_win [OF r(1)]] assms r
    by (simp add: t_def reading_def)
  moreover have "reading t i bh 512"
    using assms r by (auto simp: t_def reading_def read_done_def machine_defs port_read_proj advance_def
        acked_proj tick_proj ready_def tick_def)
  moreover have "bdata (cache t) bh = (\<lambda>j. if j < 512 then sector_of s (io_clock (hw s) + 1) j else bdata (cache s) bh j)"
    using assms r port_read_proj(5) [of "(bh, 0)" ?a]
    by (auto simp: t_def reading_def read_done_def machine_defs acked_proj tick_proj sector_of_def fun_eq_iff)
  moreover have "io_clock (hw t) = io_clock (hw s) + 2" "insw_val (hw t) = insw_val (hw s)" "io_out (hw t) = eoi @ io_out (hw s)"
    by (simp_all add: t_def read_done_def machine_defs port_read_proj acked_proj tick_proj)
  ultimately show ?thesis by blast
qed

lemma second_sector:
  assumes "reading s i bh 512"
  shows "\<exists>t. interrupt 14 s = Inr t \<and> CURRENT t = NULL \<and> b_lock (bh_of t bh) = 0 \<and> b_uptodate (bh_of t bh) = 1 \<and>
     bdata (cache t) bh = (\<lambda>j. if 512 \<le> j \<and> j < 1024 then sector_of s (io_clock (hw s) + 1) (j - 512) else bdata (cache s) bh j) \<and>
     io_out (hw t) = eoi @ io_out (hw s)"
proof -
  let ?a = "tick (acked s)"
  have r: "ready (acked s)" "CURRENT ?a = i" "rq_of ?a i = rq_of s i" "cache ?a = cache s"
    using assms by (simp_all add: acked_proj tick_proj reading_def)
  let ?d = "read_done ?a"
  have cur: "CURRENT ?d = i" using r by (simp add: read_done_def machine_defs port_read_proj CURRENT_def)
  have rq: "rq_of ?d i = advance 0 (rq_of s i)" using r by (simp add: read_done_def upd_rq_def port_read_proj)
  have bh: "rq_bh (rq_of ?d i) = bh" using assms rq by (simp add: reading_def advance_def)
  have heads: "bh_of ?d = bh_of s" using r by (simp add: read_done_def upd_rq_def port_read_proj)
  have lk: "bh \<noteq> NULL" "b_lock (bh_of ?d bh) \<noteq> 0" using assms heads by (simp_all add: reading_def)
  note P = end_request_proj [OF cur bh lk, where u = True]
  define e where "e = end_request True ?d"
  have ce: "CURRENT e = NULL" using assms rq P(2) by (simp add: e_def CURRENT_def reading_def advance_def)
  have "interrupt 14 s = Inr (sti e)"
    using interrupt_read [OF assms] read_intr_steps [OF ready_win [OF r(1)]] assms r do_hd_request_idle [OF ce]
    by (simp add: reading_def e_def)
  moreover have "bdata (cache ?d) bh = (\<lambda>j. if 512 \<le> j \<and> j < 1024 then sector_of s (io_clock (hw s) + 1) (j - 512) else bdata (cache s) bh j)"
    using assms r port_read_proj(5) [of "(bh, 512)" ?a]
    by (auto simp: reading_def read_done_def machine_defs acked_proj tick_proj sector_of_def fun_eq_iff)
  moreover have "io_out (hw e) = eoi @ io_out (hw s)"
    by (simp add: e_def end_request_def Let_def unlock_buff_def read_done_def machine_defs port_read_proj acked_proj tick_proj)
  ultimately show ?thesis
    using ce P(1) by (intro exI [where x = "sti e"]) (simp add: sti_def CURRENT_def e_def)
qed

section \<open>From \<open>ll_rw_block\<close> to the end of the wait\<close>

definition block_request :: "int \<Rightarrow> ptr \<Rightarrow> kst \<Rightarrow> request" where
  "block_request rw bh s = \<lparr>rq_dev = uint (b_dev (bh_of s bh)), rq_cmd = rw, rq_errors = 0,
     rq_sector = push_bit 1 (b_blocknr (bh_of s bh)), rq_nr_sectors = 2, rq_buffer = (bh, 0), rq_bh = bh, rq_next = NULL\<rparr>"

lemma idle_slot:
  assumes "queue_inv L s []"
  shows "free_slot (request_list (drv s)) (slots_for READ) = 32" "has_slot READ s"
proof -
  have "32 \<notin> {i \<in> {1..NR_REQUEST}. 0 \<le> rq_dev (rq_of s i)}" using queue_invD(3) [OF assms] by simp
  then have "free_slot (request_list (drv s)) 32 = 32"
    using free_slot.simps(2) [of "request_list (drv s)" 31] by simp
  then show "free_slot (request_list (drv s)) (slots_for READ) = 32" by (simp add: slots_for_def)
  then show "has_slot READ s" by (simp add: has_slot_def)
qed

lemma spin_until_done: "done s \<Longrightarrow> spin_until done body s = Inr s"
  by (cases "irqs (hw s)") (simp_all add: spin_until_def)

text \<open>The state in which \<open>add_request\<close> has made the request of a read the current one.\<close>

definition entered :: "ptr \<Rightarrow> kst \<Rightarrow> kst \<Rightarrow> bool" where
  "entered bh s t \<longleftrightarrow> queue_inv {} t [32] \<and> rq_of t 32 = block_request READ bh s \<and> request_fn (drv t) MAJOR_NR \<and>
     partition_info (drv t) = partition_info (drv s) \<and> hd_info (drv t) = hd_info (drv s) \<and> NR_HD (drv t) = NR_HD (drv s) \<and>
     reset (drv t) = reset (drv s) \<and> recalibrate (drv t) = recalibrate (drv s) \<and> irq_routines (drv t) = irq_routines (drv s) \<and>
     hw t = (hw s)\<lparr>if_flag := True\<rparr> \<and> cache t = upd_buf bh (\<lambda>b. b\<lparr>b_lock := 1, b_dirt := 0\<rparr>) (cache s)"

lemma enter_read:
  assumes inv: "drv_inv {} s []" and bh: "bh \<in> buffers (cache s)" "b_lock (bh_of s bh) = 0" "b_uptodate (bh_of s bh) = 0"
    and dev: "MAJOR (uint (b_dev (bh_of s bh))) = MAJOR_NR" "request_fn (drv s) MAJOR_NR"
    and w: "at_lock w = []" "at_fill w = []"
  shows "\<exists>t. ll_rw_block_irq w READ bh s = bnd (interrupts (at_start w) t)
       (\<lambda>u. if request_fn (drv u) MAJOR_NR then do_hd_request u else Inl Fault) \<and> entered bh s t"
proof -
  define s1 where "s1 = lock_buff bh s"
  have inv1: "drv_inv {bh} s1 []" unfolding s1_def using lock_buff_inv [OF inv bh(1,2)] by simp
  then have q1: "queue_inv {bh} s1 []" by (simp add: drv_inv_def)
  have s1: "drv s1 = drv s" "bh_of s1 bh = (bh_of s bh)\<lparr>b_lock := 1\<rparr>" "buffers (cache s1) = buffers (cache s)"
    "cache s1 = upd_buf bh (\<lambda>b. b\<lparr>b_lock := 1\<rparr>) (cache s)" "hw s1 = (hw s)\<lparr>if_flag := True\<rparr>"
    by (simp_all add: s1_def lock_buff_def machine_defs buffers_def)
  have "rq_dev (rq_of s1 32) < 0" using queue_invD(3) [OF q1] by (auto simp: not_le set_eq_iff)
  then have e: "entering {} READ bh 32 s1 []" using inv1 bh dev s1 by (simp add: entering_def)
  obtain t where t: "add_request_irq w MAJOR_NR 32 (fill_request READ bh 32 s1) = bnd (interrupts (at_start w) t)
       (\<lambda>u. if request_fn (drv u) MAJOR_NR then do_hd_request u else Inl Fault)"
      "linked READ bh 32 s1 t" "queue_inv {} t [32]"
    using add_request_idle [OF e, of w] by blast
  obtain n where "rq_of t 32 = (rq_of (fill_request READ bh 32 s1) 32)\<lparr>rq_next := n\<rparr>"
    using t(2) by (auto simp: linked_def)
  then have n: "rq_of t 32 = (block_request READ bh s)\<lparr>rq_next := n\<rparr>"
    using s1 by (cases "rq_of s 32") (simp add: fill_request_proj block_request_def)
  have "n = NULL" using queue_invD(1) [OF t(3)] n by simp
  then have r: "rq_of t 32 = block_request READ bh s" using n by (simp add: block_request_def)
  have "cache t = upd_buf bh (\<lambda>b. b\<lparr>b_lock := 1, b_dirt := 0\<rparr>) (cache s)"
    using t(2) s1(4) by (simp add: linked_def upd_buf_def fun_eq_iff)
  then have "entered bh s t" using t(2,3) r s1 dev by (simp add: entered_def linked_def)
  moreover have "ll_rw_block_irq w READ bh s = add_request_irq w MAJOR_NR 32 (fill_request READ bh 32 s1)"
    using dev bh s1 idle_slot [OF q1] spin_until_done [of "has_slot READ" s1] w
    by (simp add: ll_rw_block_irq_def Let_def queue_block_irq_def s1_def [symmetric])
  ultimately show ?thesis using t(1) by auto
qed

lemma entered_reading:
  assumes "entered bh s t" "bh \<in> buffers (cache s)" "ready s" "irq_routines (drv s) 14 = Some Read_intr"
  shows "reading t 32 bh 0"
proof -
  have "bh \<noteq> NULL" using assms(2) by (auto simp: buffers_def)
  moreover have "CURRENT t = 32" using assms(1) queue_inv_head(1) by (auto simp: entered_def)
  ultimately show ?thesis using assms by (simp add: reading_def entered_def block_request_def ready_def)
qed

lemma start_read:
  assumes inv: "drv_inv {} s []" and bh: "bh \<in> buffers (cache s)" "b_lock (bh_of s bh) = 0" "b_uptodate (bh_of s bh) = 0"
    and dev: "MAJOR (uint (b_dev (bh_of s bh))) = MAJOR_NR" "request_fn (drv s) MAJOR_NR"
    and st: "startable s (block_request READ bh s)" and rd: "ready s"
  shows "\<exists>t i. ll_rw_block READ bh s = Inr t \<and> reading t i bh 0 \<and> bdata (cache t) = bdata (cache s) \<and>
     io_out (hw t) = read_command s (block_request READ bh s) @ io_out (hw s) \<and>
     irqs (hw t) = irqs (hw s) \<and> insw_val (hw t) = insw_val (hw s) \<and> io_clock (hw t) = io_clock (hw s) + 1"
proof -
  obtain t1 where run: "ll_rw_block READ bh s = do_hd_request t1" and e: "entered bh s t1"
    using enter_read [OF inv bh dev, of no_irqs] by (auto simp: ll_rw_block_def no_irqs_def entered_def)
  note E = e [unfolded entered_def]
  let ?t = "commanded t1 Read_intr (read_command s (block_request READ bh s))"
  have "geom_ok t1" using inv E by (simp add: drv_inv_def geom_ok_def)
  moreover have "ready t1" using rd E by (simp add: ready_def)
  moreover have "startable t1 (rq_of t1 32)" using st E by (simp add: startable_def)
  moreover have q: "queue_inv {} t1 [32]" using E by simp
  ultimately have "do_hd_request t1 = Inr ?t"
    using do_hd_request_read [OF q] E by (simp add: block_request_def read_command_def)
  then have "ll_rw_block READ bh s = Inr ?t" using run by simp
  moreover have "bh \<noteq> NULL" using bh(1) by (auto simp: buffers_def)
  then have "reading ?t 32 bh 0"
    using queue_inv_head(1) [OF q] E rd by (simp add: reading_def commanded_def CURRENT_def block_request_def ready_def)
  moreover have "bdata (cache ?t) = bdata (cache s)" "irqs (hw ?t) = irqs (hw s)" "insw_val (hw ?t) = insw_val (hw s)"
    "io_out (hw ?t) = read_command s (block_request READ bh s) @ io_out (hw s)" "io_clock (hw ?t) = io_clock (hw s) + 1"
    using E by (simp_all add: commanded_def)
  ultimately show ?thesis by blast
qed

lemma reading_sti: "reading (sti s) i bh off = reading s i bh off"
  by (simp add: reading_def sti_def CURRENT_def ready_def)

lemma finish_read:
  assumes "reading s i bh 0" "irqs (hw s) = 14 # 14 # is"
  shows "\<exists>t. wait_on_buff bh s = Inr t \<and> b_lock (bh_of t bh) = 0 \<and> b_uptodate (bh_of t bh) = 1 \<and> CURRENT t = NULL \<and>
     bdata (cache t) bh = (\<lambda>j. if j < 512 then sector_of s (io_clock (hw s) + 1) j
        else if j < 1024 then sector_of s (io_clock (hw s) + 3) (j - 512) else bdata (cache s) bh j)"
proof -
  let ?s = "sti (cli s)"
  have s: "?s = sti s" by (simp add: sti_def cli_def)
  have sf: "sector_of (sti u) = sector_of u" "io_clock (hw (sti u)) = io_clock (hw u)" "cache (sti u) = cache u"
    "insw_val (hw (sti u)) = insw_val (hw u)" for u
    by (simp_all add: sti_def sector_of_def fun_eq_iff)
  have r0: "reading (sti s) i bh 0" using assms(1) by (simp add: reading_sti)
  obtain t1 where t1: "interrupt 14 (sti s) = Inr t1" "reading t1 i bh 512"
      "bdata (cache t1) bh = (\<lambda>j. if j < 512 then sector_of s (io_clock (hw s) + 1) j else bdata (cache s) bh j)"
      "io_clock (hw t1) = io_clock (hw s) + 2" "insw_val (hw t1) = insw_val (hw s)"
    using first_sector [OF r0, unfolded sf] by blast
  have r1: "reading (sti t1) i bh 512" using t1(2) by (simp add: reading_sti)
  obtain t2 where t2: "interrupt 14 (sti t1) = Inr t2" "CURRENT t2 = NULL" "b_lock (bh_of t2 bh) = 0" "b_uptodate (bh_of t2 bh) = 1"
     "bdata (cache t2) bh = (\<lambda>j. if 512 \<le> j \<and> j < 1024 then sector_of t1 (io_clock (hw t1) + 1) (j - 512) else bdata (cache t1) bh j)"
    using second_sector [OF r1, unfolded sf] by blast
  have lk: "b_lock (bh_of s bh) \<noteq> 0" "b_lock (bh_of t1 bh) \<noteq> 0" using assms(1) t1(2) by (simp_all add: reading_def)
  have fl: "if_flag (hw (sti u))" for u by (simp add: sti_def)
  have "wait_on_buff bh s = Inr (t2\<lparr>hw := (hw t2)\<lparr>irqs := is\<rparr>\<rparr>)"
  proof -
    have "spin (\<lambda>s. b_lock (bh_of s bh) = 0) sti (14 # 14 # is) (cli s) = spin (\<lambda>s. b_lock (bh_of s bh) = 0) sti (14 # is) t1"
      using lk(1) t1(1) fl by (simp add: Let_def s) (simp add: cli_def)
    also have "\<dots> = spin (\<lambda>s. b_lock (bh_of s bh) = 0) sti is t2" using lk(2) t2(1) fl by (simp add: Let_def)
    also have "\<dots> = Inr (t2\<lparr>hw := (hw t2)\<lparr>irqs := is\<rparr>\<rparr>)" using t2(3) by (cases "is") simp_all
    finally show ?thesis using assms(2) unfolding wait_on_buff_def spin_until_def by (simp add: cli_def del: spin.simps)
  qed
  moreover have ck: "io_clock (hw t1) + 1 = io_clock (hw s) + 3" and sc: "sector_of t1 = sector_of s"
    using t1(4,5) by (simp_all add: sector_of_def fun_eq_iff)
  have "bdata (cache t2) bh = (\<lambda>j. if j < 512 then sector_of s (io_clock (hw s) + 1) j
        else if j < 1024 then sector_of s (io_clock (hw s) + 3) (j - 512) else bdata (cache s) bh j)"
    unfolding t2(5) t1(3) ck sc by (simp add: fun_eq_iff)
  ultimately show ?thesis
    using t2 by (intro exI [where x = "t2\<lparr>hw := (hw t2)\<lparr>irqs := is\<rparr>\<rparr>"]) (simp add: CURRENT_def)
qed

lemma read_completes:
  assumes "drv_inv {} s []" "bh \<in> buffers (cache s)" "b_lock (bh_of s bh) = 0" "b_uptodate (bh_of s bh) = 0"
    and "MAJOR (uint (b_dev (bh_of s bh))) = MAJOR_NR" "request_fn (drv s) MAJOR_NR"
    and "startable s (block_request READ bh s)" "ready s" and irqs: "irqs (hw s) = 14 # 14 # is"
  shows "\<exists>t u. ll_rw_block READ bh s = Inr t \<and> wait_on_buff bh t = Inr u \<and>
     io_out (hw t) = read_command s (block_request READ bh s) @ io_out (hw s) \<and>
     b_lock (bh_of u bh) = 0 \<and> b_uptodate (bh_of u bh) = 1 \<and> CURRENT u = NULL \<and>
     bdata (cache u) bh = (\<lambda>j. if j < 512 then sector_of s (io_clock (hw s) + 2) j
        else if j < 1024 then sector_of s (io_clock (hw s) + 4) (j - 512) else bdata (cache s) bh j)"
proof -
  obtain t i where t: "ll_rw_block READ bh s = Inr t" "reading t i bh 0" "bdata (cache t) = bdata (cache s)"
     "io_out (hw t) = read_command s (block_request READ bh s) @ io_out (hw s)"
     "irqs (hw t) = irqs (hw s)" "insw_val (hw t) = insw_val (hw s)" "io_clock (hw t) = io_clock (hw s) + 1"
    using start_read [OF assms(1-8)] by blast
  have "irqs (hw t) = 14 # 14 # is" using t(5) irqs by simp
  moreover have "sector_of t = sector_of s" "io_clock (hw t) + 1 = io_clock (hw s) + 2" "io_clock (hw t) + 3 = io_clock (hw s) + 4"
    using t(6,7) by (simp_all add: sector_of_def fun_eq_iff)
  ultimately show ?thesis using finish_read [OF t(2), of "is"] t(1,3,4) by metis
qed

section \<open>Interrupts before the command\<close>

text \<open>
  \<open>add_request\<close> makes the new request the current one and turns interrupts on before it calls \<open>do_hd_request\<close>. Two
  interrupts of the disk at that point, with the handler of an earlier read still installed, complete the read: the
  buffer gets whatever the data port holds and is marked up to date, and no command is ever given to the disk.
\<close>

lemma read_without_command:
  assumes inv: "drv_inv {} s []" and bh: "bh \<in> buffers (cache s)" "b_lock (bh_of s bh) = 0" "b_uptodate (bh_of s bh) = 0"
    and dev: "MAJOR (uint (b_dev (bh_of s bh))) = MAJOR_NR" "request_fn (drv s) MAJOR_NR"
    and rd: "ready s" and h: "irq_routines (drv s) 14 = Some Read_intr"
  shows "\<exists>t. ll_rw_block_irq \<lparr>at_lock = [], at_fill = [], at_start = [14, 14]\<rparr> READ bh s = Inr t \<and>
     io_out (hw t) = eoi @ eoi @ io_out (hw s) \<and> b_lock (bh_of t bh) = 0 \<and> b_uptodate (bh_of t bh) = 1 \<and> CURRENT t = NULL \<and>
     bdata (cache t) bh = (\<lambda>j. if j < 512 then sector_of s (io_clock (hw s) + 1) j
        else if j < 1024 then sector_of s (io_clock (hw s) + 3) (j - 512) else bdata (cache s) bh j)"
proof -
  obtain t where t: "ll_rw_block_irq \<lparr>at_lock = [], at_fill = [], at_start = [14, 14]\<rparr> READ bh s =
       bnd (interrupts [14, 14] t) (\<lambda>u. if request_fn (drv u) MAJOR_NR then do_hd_request u else Inl Fault)"
     "entered bh s t"
    using enter_read [OF inv bh dev, of "\<lparr>at_lock = [], at_fill = [], at_start = [14, 14]\<rparr>"] by auto
  note E = t(2) [unfolded entered_def]
  have r: "reading t 32 bh 0" by (rule entered_reading [OF t(2) bh(1) rd h])
  obtain t1 where t1: "interrupt 14 t = Inr t1" "reading t1 32 bh 512"
      "bdata (cache t1) bh = (\<lambda>j. if j < 512 then sector_of t (io_clock (hw t) + 1) j else bdata (cache t) bh j)"
      "io_clock (hw t1) = io_clock (hw t) + 2" "insw_val (hw t1) = insw_val (hw t)" "io_out (hw t1) = eoi @ io_out (hw t)"
    using first_sector [OF r] by blast
  obtain t2 where t2: "interrupt 14 t1 = Inr t2" "CURRENT t2 = NULL" "b_lock (bh_of t2 bh) = 0" "b_uptodate (bh_of t2 bh) = 1"
     "bdata (cache t2) bh = (\<lambda>j. if 512 \<le> j \<and> j < 1024 then sector_of t1 (io_clock (hw t1) + 1) (j - 512) else bdata (cache t1) bh j)"
     "io_out (hw t2) = eoi @ io_out (hw t1)"
    using second_sector [OF t1(2)] by blast
  have d: "drv_inv {} t [32]" using E inv h by (simp add: drv_inv_def armed_def geom_ok_def irqs_ok_def block_request_def)
  then obtain k where k: "disk_frame t t1" "drv_inv {} t1 (drop k [32])"
    using wp_InrD [OF interrupt_settled t1(1)] by (auto simp: settled_def)
  have "disk_frame t1 t2" using wp_InrD [OF interrupt_settled [OF k(2)] t2(1)] by (simp add: settled_def)
  then have fn: "request_fn (drv t2) MAJOR_NR" using k(1) E by (simp add: disk_frame_def)
  have "ll_rw_block_irq \<lparr>at_lock = [], at_fill = [], at_start = [14, 14]\<rparr> READ bh s = Inr t2"
    using t(1) t1(1) t2(1) fn do_hd_request_idle [OF t2(2)] by simp
  moreover have "bdata (cache t2) bh = (\<lambda>j. if j < 512 then sector_of s (io_clock (hw s) + 1) j
        else if j < 1024 then sector_of s (io_clock (hw s) + 3) (j - 512) else bdata (cache s) bh j)"
    using E t1(4,5) by (simp add: t2(5) t1(3) sector_of_def fun_eq_iff numeral_3_eq_3)
  ultimately show ?thesis using t1(6) t2 E by simp
qed

end
