(* ===== verification/Boot.thy ===== *)
theory Boot
  imports Buffer_Inv
begin

text \<open>
  Bringing up the block layer: \<open>init_blk\<close> (\<open>src/blk/blk_main.c\<close>) and \<open>init_hd_info\<close>
  (\<open>src/blk/hd.c\<close>), with the proof that they establish the invariants.
\<close>

section \<open>Memory left by the boot loader\<close>

text \<open>The drive table of the boot loader is read from physical memory, least significant byte first.\<close>

definition le16 :: "(nat \<Rightarrow> u8) \<Rightarrow> nat \<Rightarrow> u32" where
  "le16 m a = ucast (m a) OR push_bit 8 (ucast (m (a + 1)))"

definition le32 :: "(nat \<Rightarrow> u8) \<Rightarrow> nat \<Rightarrow> u32" where
  "le32 m a = le16 m a OR push_bit 16 (le16 m (a + 2))"

section \<open>\<open>init_hd_info\<close>\<close>

abbreviation MAX_HD :: nat where "MAX_HD \<equiv> 2"

definition enable_hd :: "kst \<Rightarrow> kst" where
  "enable_hd s0 =
     (let s1 = s0\<lparr>drv := (drv s0)\<lparr>request_fn := (request_fn (drv s0))(MAJOR_NR := True)\<rparr>\<rparr>;
          (v, s2) = inb 0x21 s1;
          s3 = outb (v AND 0xfb) 0x21 s2;
          (w, s4) = inb 0xA1 s3
      in outb (w AND 0xbf) 0xA1 s4)"

text \<open>
  The loop over the drive table, for the \<open>n\<close> drives from \<open>drive\<close> on. It goes on to the next entry
  only while the sum is larger than the table.
\<close>

fun drive_loop :: "(nat \<Rightarrow> u8) \<Rightarrow> nat \<Rightarrow> nat \<Rightarrow> u32 \<Rightarrow> u32 \<Rightarrow> u32 \<Rightarrow> kst \<Rightarrow> kst" where
  "drive_loop mem 0 drive addr len sz s0 = s0"
| "drive_loop mem (Suc n) drive addr len sz s0 =
     (let g = \<lparr>hd_head = ucast (mem (8 + unat addr)), hd_sect = ucast (mem (9 + unat addr)), hd_cyl = le16 mem (6 + unat addr)\<rparr>;
          s1 = s0\<lparr>drv := (drv s0)\<lparr>hd_info := (hd_info (drv s0))(drive := g)\<rparr>\<rparr>;
          sz' = sz + le32 mem (unat addr);
          s2 = printk (''hd%d: cylinders[%d] heads[%d] spt[%d]'' @ NL) [ArgI (of_nat drive), ArgI (hd_cyl g), ArgI (hd_head g), ArgI (hd_sect g)] s1;
          s3 = s2\<lparr>drv := (drv s2)\<lparr>NR_HD := NR_HD (drv s2) + 1\<rparr>\<rparr>
      in if len < sz' then drive_loop mem n (drive + 1) (addr + le32 mem (unat addr)) len sz' s3 else s3)"

definition set_part :: "nat \<Rightarrow> partition_i_struct \<Rightarrow> kst \<Rightarrow> kst" where
  "set_part i p s = s\<lparr>drv := (drv s)\<lparr>partition_info := (partition_info (drv s))(i := p)\<rparr>\<rparr>"

fun whole_disks :: "nat \<Rightarrow> nat \<Rightarrow> kst \<Rightarrow> kst" where
  "whole_disks 0 i s = s"
| "whole_disks (Suc n) i s =
     (let g = hd_info (drv s) i
      in whole_disks n (i + 1) (set_part (i * 5) \<lparr>start_sect = 0, nr_sects = hd_head g * hd_sect g * hd_cyl g\<rparr> s))"

text \<open>The four entries of the partition table in the block \<open>bh\<close>, from the \<open>i\<close>-th on.\<close>

fun part_loop :: "nat \<Rightarrow> nat \<Rightarrow> nat \<Rightarrow> ptr \<Rightarrow> kst \<Rightarrow> kst" where
  "part_loop 0 i drive bh s = s"
| "part_loop (Suc n) i drive bh s =
     (let d = bdata (cache s) bh; p = 0x1BE + 16 * (i - 1);
          e = \<lparr>start_sect = le32 d (p + 8), nr_sects = le32 d (p + 12)\<rparr>;
          s1 = set_part (i + 5 * drive) e s;
          s2 = (if 0 < start_sect e
                then printk (''hd%d partition%d: start_sect[%d] nr_sects[%d]'' @ NL)
                       [ArgI (of_nat drive), ArgI (of_nat i), ArgI (start_sect e), ArgI (nr_sects e)] s1
                else s1)
      in part_loop n (i + 1) drive bh s2)"

fun table_loop :: "nat \<Rightarrow> nat \<Rightarrow> kst \<Rightarrow> kst kres" where
  "table_loop 0 drive s = Inr s"
| "table_loop (Suc n) drive s =
     bnd (read_buff (0x300 + of_nat drive * 5) 0 s) (\<lambda>(bh, s1).
     if bh = NULL then Inl (Panic '''')
     else if bdata (cache s1) bh 510 \<noteq> 0x55 \<or> bdata (cache s1) bh 511 \<noteq> 0xAA then Inl (Panic '''')
     else bnd (put_buff bh (part_loop 4 1 drive bh s1)) (table_loop n (drive + 1)))"

text \<open>The result is \<open>True\<close> for 0 and \<open>False\<close> for -1, when it was called before.\<close>

definition init_hd_info :: "(nat \<Rightarrow> u8) \<Rightarrow> u32 \<Rightarrow> u32 \<Rightarrow> kst \<Rightarrow> (bool \<times> kst) kres" where
  "init_hd_info mem drives_addr drives_length s0 =
     (let s1 = enable_hd s0
      in if \<not> callable (drv s1) then Inr (False, s1)
      else let s2 = s1\<lparr>drv := (drv s1)\<lparr>callable := False\<rparr>\<rparr>;
               s3 = drive_loop mem MAX_HD 0 drives_addr drives_length 0 s2;
               s4 = whole_disks (NR_HD (drv s3)) 0 s3
           in bnd (table_loop (NR_HD (drv s4)) 0 s4) (\<lambda>s5. Inr (True, s5)))"

text \<open>
  The flags of the boot loader (\<open>src/inc/multiboot.h\<close>). \<open>init_blk\<close> tests \<open>1 << 6\<close>, which is the bit of the memory map
  and not the one of the drive table it goes on to read.
\<close>

abbreviation MULTIBOOT_INFO_MEM_MAP :: u32 where
  "MULTIBOOT_INFO_MEM_MAP \<equiv> 0x40"

abbreviation MULTIBOOT_INFO_DRIVE_INFO :: u32 where
  "MULTIBOOT_INFO_DRIVE_INFO \<equiv> 0x80"

lemma tested_bit: "push_bit 6 1 = MULTIBOOT_INFO_MEM_MAP"
  by simp

definition init_blk :: "nat \<Rightarrow> (nat \<Rightarrow> u8) \<Rightarrow> u32 \<Rightarrow> u32 \<Rightarrow> u32 \<Rightarrow> kst \<Rightarrow> kst kres" where
  "init_blk start mem flags drives_addr drives_length s0 =
     bnd (init_buff start (2 * 1024 * 1024) (cache s0)) (\<lambda>c.
     let s1 = set_cache c s0;
         s2 = init_request_queue s1
     in if flags AND push_bit 6 1 \<noteq> 0
        then bnd (init_hd_info mem drives_addr drives_length
                    (printk (''init hd info, size: %d'' @ NL) [ArgI drives_length] s2)) (\<lambda>(r, s). Inr s)
        else Inr s2)"

section \<open>The invariants hold at the start\<close>

lemma init_requests_proj:
  "cache (init_requests n s) = cache s" "hw (init_requests n s) = hw s"
  "drv (init_requests n s) = (drv s)\<lparr>request_list := (\<lambda>i. if 1 \<le> i \<and> i \<le> n then (rq_of s i)\<lparr>rq_dev := -1, rq_next := NULL\<rparr> else rq_of s i)\<rparr>"
  by (induction n) (auto simp: upd_rq_def fun_eq_iff intro!: driver.equality)

definition idle :: "kst \<Rightarrow> bool" where
  "idle s \<longleftrightarrow> (\<forall>p \<in> buffers (cache s). b_lock (bh_of s p) = 0) \<and> (\<forall>m. current_request (drv s) m = NULL) \<and>
     (\<forall>m. m \<noteq> MAJOR_NR \<longrightarrow> \<not> request_fn (drv s) m) \<and> irqs_ok s"

lemma init_request_queue_inv:
  assumes "idle s" "geom_ok s"
  shows "drv_inv {} (init_request_queue s) []"
  using assms
  by (auto simp: drv_inv_def queue_inv_def init_request_queue_def init_requests_proj CURRENT_def idle_def
      armed_def geom_ok_def irqs_ok_def)

text \<open>Configuration steps that do not touch the queue or the cache.\<close>

definition same_blocks :: "kst \<Rightarrow> kst \<Rightarrow> bool" where
  "same_blocks s t \<longleftrightarrow> cache t = cache s \<and> same_queue s t \<and> irq_routines (drv t) = irq_routines (drv s)"

lemma same_blocks_refl [simp]: "same_blocks s s"
  by (simp add: same_blocks_def same_queue_def)

lemma same_queue_trans: "same_queue s t \<Longrightarrow> same_queue t u \<Longrightarrow> same_queue s u"
  by (simp add: same_queue_def)

lemma same_blocks_trans: "same_blocks s t \<Longrightarrow> same_blocks t u \<Longrightarrow> same_blocks s u"
  using same_queue_trans [of s t u] by (simp add: same_blocks_def)

lemma same_blocks_kinv:
  assumes "kinv s" "same_blocks s t" "geom_ok t"
  shows "kinv t"
proof -
  obtain q where q: "drv_inv {} s q" using assms(1) by (auto simp: kinv_def)
  have "same_queue s t" using assms(2) by (simp add: same_blocks_def)
  then have "queue_inv {} t q" using q queue_inv_same [of s t "{}" q] by (simp add: drv_inv_def)
  moreover have "request_list (drv t) = request_list (drv s)" using assms(2) by (simp add: same_blocks_def same_queue_def)
  ultimately have "drv_inv {} t q" using q assms(2,3) by (simp add: drv_inv_def armed_def irqs_ok_def same_blocks_def)
  then show ?thesis using assms unfolding kinv_def same_blocks_def by metis
qed

lemma part_loop_same: "same_blocks s (part_loop n i drive bh s) \<and> geom_ok (part_loop n i drive bh s) = geom_ok s"
proof (induction n arbitrary: i s)
  case (Suc n)
  let ?e = "\<lparr>start_sect = le32 (bdata (cache s) bh) (0x1BE + 16 * (i - 1) + 8), nr_sects = le32 (bdata (cache s) bh) (0x1BE + 16 * (i - 1) + 12)\<rparr>"
  define s2 where "s2 = (if 0 < start_sect ?e
      then printk (''hd%d partition%d: start_sect[%d] nr_sects[%d]'' @ NL)
             [ArgI (of_nat drive), ArgI (of_nat i), ArgI (start_sect ?e), ArgI (nr_sects ?e)] (set_part (i + 5 * drive) ?e s)
      else set_part (i + 5 * drive) ?e s)"
  have s2: "same_blocks s s2" "geom_ok s2 = geom_ok s"
    by (simp_all add: s2_def same_blocks_def same_queue_def set_part_def printk_def geom_ok_def)
  have "part_loop (Suc n) i drive bh s = part_loop n (i + 1) drive bh s2"
    unfolding part_loop.simps Let_def s2_def ..
  then show ?case using Suc [of s2 "i + 1"] s2 same_blocks_trans [OF s2(1)] by simp
qed simp

lemma whole_disks_same: "same_blocks s (whole_disks n i s) \<and> geom_ok (whole_disks n i s) = geom_ok s \<and> NR_HD (drv (whole_disks n i s)) = NR_HD (drv s)"
proof (induction n arbitrary: i s)
  case (Suc n)
  let ?s = "set_part (i * 5) \<lparr>start_sect = 0, nr_sects = hd_head (hd_info (drv s) i) * hd_sect (hd_info (drv s) i) * hd_cyl (hd_info (drv s) i)\<rparr> s"
  have s: "same_blocks s ?s" "geom_ok ?s = geom_ok s" "NR_HD (drv ?s) = NR_HD (drv s)"
    by (simp_all add: same_blocks_def same_queue_def set_part_def geom_ok_def)
  show ?case using Suc [of ?s "i + 1"] s same_blocks_trans [OF s(1)] by (simp add: Let_def)
qed simp

definition good_entry :: "(nat \<Rightarrow> u8) \<Rightarrow> u32 \<Rightarrow> bool" where
  "good_entry mem a \<longleftrightarrow> 1 \<le> mem (8 + unat a) \<and> mem (8 + unat a) \<le> 16 \<and> mem (9 + unat a) \<noteq> 0"

definition good_table :: "(nat \<Rightarrow> u8) \<Rightarrow> u32 \<Rightarrow> u32 \<Rightarrow> bool" where
  "good_table mem addr len \<longleftrightarrow> good_entry mem addr \<and>
     (len < le32 mem (unat addr) \<longrightarrow> good_entry mem (addr + le32 mem (unat addr)))"

lemma unat_u8_u32: "unat (ucast (a :: u8) :: u32) = unat a"
proof -
  have "unat a < 256" using unsigned_less [of a] by simp
  then show ?thesis by (simp add: unsigned_ucast_eq take_bit_eq_mod)
qed

lemma good_entry_geom:
  assumes "good_entry mem a"
  shows "(ucast (mem (9 + unat a)) :: u32) \<noteq> 0" "1 \<le> (ucast (mem (8 + unat a)) :: u32)"
    "(ucast (mem (8 + unat a)) :: u32) \<le> 16"
  using assms by (simp_all add: good_entry_def word_unat_eq_iff word_le_nat_alt unat_u8_u32 del: word_less_eq_iff_unsigned)

lemma drive_loop_ok:
  assumes "good_table mem addr len" "NR_HD (drv s) = 0"
  defines "t \<equiv> drive_loop mem MAX_HD 0 addr len 0 s"
  shows "same_blocks s t" "geom_ok t" "1 \<le> NR_HD (drv t)" "NR_HD (drv t) \<le> 2"
proof -
  show "same_blocks s t" "1 \<le> NR_HD (drv t)" "NR_HD (drv t) \<le> 2"
    using assms by (simp_all add: t_def numeral_2_eq_2 Let_def same_blocks_def same_queue_def printk_def)
  show "geom_ok t"
    using assms(1,2) good_entry_geom
    by (simp add: t_def numeral_2_eq_2 Let_def geom_ok_def printk_def good_table_def less_Suc_eq)
qed

lemma table_loop_ok:
  assumes "kinv s" "drive + n \<le> 2" "\<And>p. b_count (bh_of s p) \<noteq> 255"
  shows "wp (table_loop n drive s) (\<lambda>e. disk_stop e \<or> e = Panic '''') kinv"
  using assms
proof (induction n arbitrary: drive s)
  case (Suc n)
  let ?dev = "0x300 + of_nat drive * 5 :: u32"
  let ?E = "\<lambda>e. disk_stop e \<or> e = Panic ''''"
  have "drive = 0 \<or> drive = 1" using Suc.prems(2) by auto
  then have dev: "?dev \<noteq> 0" "unat ?dev < 65536" by auto
  let ?rest = "\<lambda>(bh, s1). if bh = NULL then Inl (Panic '''')
     else if bdata (cache s1) bh 510 \<noteq> 0x55 \<or> bdata (cache s1) bh 511 \<noteq> 0xAA then Inl (Panic '''')
     else bnd (put_buff bh (part_loop 4 1 drive bh s1)) (table_loop n (drive + 1))"
  have "wp (read_buff ?dev 0 s) ?E (\<lambda>r. wp (?rest r) ?E kinv)"
  proof (rule wp_mono [OF read_buff_got [OF Suc.prems(1) dev Suc.prems(3)]])
    fix r assume r: "case r of (bh, t) \<Rightarrow> kinv t \<and> (\<forall>p. p \<noteq> bh \<longrightarrow> b_count (bh_of t p) = b_count (bh_of s p)) \<and>
     (bh \<noteq> NULL \<longrightarrow> bh \<in> buffers (cache t) \<and> cmap (cache t) (?dev, 0) = Some bh \<and> b_uptodate (bh_of t bh) \<noteq> 0 \<and>
        b_lock (bh_of t bh) = 0 \<and> b_count (bh_of t bh) = b_count (bh_of s bh) + 1)"
    obtain bh t where rt: "r = (bh, t)" by (cases r)
    let ?t = "part_loop 4 1 drive bh t"
    have "wp (bnd (put_buff bh ?t) (table_loop n (drive + 1))) ?E kinv" if b: "bh \<noteq> NULL"
    proof -
      have t: "kinv t" "bh \<in> buffers (cache t)" "b_count (bh_of t bh) = b_count (bh_of s bh) + 1"
        "\<And>p. p \<noteq> bh \<Longrightarrow> b_count (bh_of t p) = b_count (bh_of s p)"
        using r b by (simp_all add: rt)
      note P = part_loop_same [of t 4 1 drive bh]
      have c: "cache ?t = cache t" using P by (simp add: same_blocks_def)
      have "geom_ok t" using t(1) by (auto simp: kinv_def drv_inv_def)
      then have k: "kinv ?t" using same_blocks_kinv [OF t(1), of ?t] P by simp
      have nz: "b_count (bh_of ?t bh) \<noteq> 0"
      proof
        assume "b_count (bh_of ?t bh) = 0"
        then have "b_count (bh_of s bh) = -1" using t(3) c by (simp add: eq_neg_iff_add_eq_0)
        then show False using Suc.prems(3) [of bh] by simp
      qed
      have "wp (put_buff bh ?t) ?E (\<lambda>u. wp (table_loop n (drive + 1) u) ?E kinv)"
      proof (rule wp_mono [OF put_buff_ok [OF k _ nz]])
        fix u assume u: "counted (-1) bh ?t u"
        have "b_count (bh_of u p) = b_count (bh_of s p)" for p
          using u t(3) t(4) [of p] c by (cases "p = bh") (simp_all add: counted_def)
        then show "wp (table_loop n (drive + 1) u) ?E kinv"
          using u Suc.prems by (intro Suc.IH) (simp_all add: counted_def)
      qed (use t(2) c in auto)
      then show ?thesis by simp
    qed
    then show "wp (?rest r) ?E kinv" by (simp add: rt)
  qed auto
  then show ?case by (simp add: case_prod_unfold)
qed simp

lemma same_blocks_count: "same_blocks s t \<Longrightarrow> b_count (bh_of t p) = b_count (bh_of s p)"
  by (simp add: same_blocks_def)

text \<open>
  The state \<open>init_hd_info\<close> starts from has an empty queue and no drive yet; after the first loop the
  geometry is that of the table.
\<close>

lemma init_hd_info_ok:
  assumes cinv: "cache_inv (cache s)" and q: "queue_inv {} (enable_hd s) []" and irq: "irqs_ok s"
    and t: "good_table mem addr len" "NR_HD (drv s) = 0" and c: "\<And>p. b_count (bh_of s p) \<noteq> 255"
  shows "wp (init_hd_info mem addr len s) (\<lambda>e. disk_stop e \<or> e = Panic '''') (\<lambda>(r, t). callable (drv s) \<longrightarrow> kinv t)"
proof (cases "callable (drv s)")
  case True
  define s1 where "s1 = enable_hd s"
  define s2 where "s2 = s1\<lparr>drv := (drv s1)\<lparr>callable := False\<rparr>\<rparr>"
  define s3 where "s3 = drive_loop mem MAX_HD 0 addr len 0 s2"
  define s4 where "s4 = whole_disks (NR_HD (drv s3)) 0 s3"
  have s1: "cache s1 = cache s" "irq_routines (drv s1) = irq_routines (drv s)" "NR_HD (drv s1) = 0" "callable (drv s1)"
    using t(2) True by (simp_all add: s1_def enable_hd_def Let_def inb_def outb_def)
  have sb2: "same_blocks s1 s2" by (simp add: s2_def same_blocks_def same_queue_def)
  have "NR_HD (drv s2) = 0" using s1 by (simp add: s2_def)
  note D = drive_loop_ok [OF t(1) this, folded s3_def]
  note W = whole_disks_same [of s3 "NR_HD (drv s3)" 0, folded s4_def]
  have sb: "same_blocks s1 s4" using same_blocks_trans [OF sb2 same_blocks_trans [OF D(1)]] W by blast
  have "queue_inv {} s4 []" using q queue_inv_same [of s1 s4 "{}" "[]"] sb by (simp add: s1_def same_blocks_def)
  then have "drv_inv {} s4 []"
    using D(2) W irq sb s1 by (simp add: drv_inv_def armed_def irqs_ok_def same_blocks_def)
  then have "kinv s4" using cinv sb s1 by (auto simp: kinv_def same_blocks_def)
  then have "wp (table_loop (NR_HD (drv s4)) 0 s4) (\<lambda>e. disk_stop e \<or> e = Panic '''') kinv"
  proof (rule table_loop_ok)
    show "0 + NR_HD (drv s4) \<le> 2" using D(4) W by simp
    show "b_count (bh_of s4 p) \<noteq> 255" for p using c [of p] same_blocks_count [OF sb] s1 by simp
  qed
  then have "wp (table_loop (NR_HD (drv s4)) 0 s4) (\<lambda>e. disk_stop e \<or> e = Panic '''') (\<lambda>t. True \<and> kinv t)" by simp
  moreover have "init_hd_info mem addr len s = bnd (table_loop (NR_HD (drv s4)) 0 s4) (\<lambda>s5. Inr (True, s5))"
    using s1(4) unfolding init_hd_info_def Let_def s1_def [symmetric] s2_def [symmetric] s3_def [symmetric] s4_def [symmetric]
    by simp
  ultimately show ?thesis using True by simp
next
  case False
  then have "\<not> callable (drv (enable_hd s))" by (simp add: enable_hd_def Let_def inb_def outb_def)
  then show ?thesis using False by (simp add: init_hd_info_def Let_def)
qed

section \<open>\<open>init_blk\<close>\<close>

definition powered_on :: "kst \<Rightarrow> bool" where
  "powered_on s \<longleftrightarrow> NR_BUFFERS (cache s) = 0 \<and> (\<forall>p. b_count (bh_of s p) \<noteq> 255) \<and>
     (\<forall>m. current_request (drv s) m = NULL \<and> \<not> request_fn (drv s) m) \<and> irqs_ok s \<and> NR_HD (drv s) = 0 \<and> callable (drv s)"

lemma init_buff_count:
  assumes fits: "start + SIZEOF_BUFFER_HEAD + BLOCK_SIZE \<le> buffer_top buffer_end" and e: "buffer_end < 2 ^ 31" and z: "NR_BUFFERS c = 0"
    and ret: "init_buff start buffer_end c = Inr d" and c: "\<And>p. b_count (bufs c p) \<noteq> 255"
  shows "b_count (bufs d p) \<noteq> 255"
proof -
  obtain n c1 where i: "init_loop start (buffer_top buffer_end) 1 c = Inr (n + 1, c1)" "start + SIZEOF_BUFFER_HEAD * 1 < 2 ^ 32"
    "d = (upd_buf n (\<lambda>b. b\<lparr>b_next_free := 1\<rparr>) (upd_buf 1 (\<lambda>b. b\<lparr>b_prev_free := n\<rparr>) (c1\<lparr>free_list := 1\<rparr>)))
         \<lparr>hash_table := (\<lambda>i. if i < NR_HASH then NULL else hash_table c1 i)\<rparr>"
    using init_buff_cases [OF fits e z ret] by metis
  note I = init_loop_heads [OF i(1) buffer_top_bound [OF e] i(2)]
  have "b_count (bufs d p) = b_count (bufs c1 p)"
    unfolding i(3) by simp
  also have "\<dots> = b_count (bufs c p) \<or> \<dots> = 0"
  proof (cases "1 \<le> p \<and> p < n + 1")
    case True
    then obtain a where "bufs c1 p = init_head a p (bufs c p)" using I by blast
    then show ?thesis by simp
  next
    case False
    then have "p < 1 \<or> n + 1 \<le> p" by auto
    then have "bufs c1 p = bufs c p" using I by blast
    then show ?thesis by simp
  qed
  finally show ?thesis using c [of p] by auto
qed

text \<open>With its heads in the lowest 1024 bytes \<open>init_buff\<close> may fault; otherwise it returns.\<close>

lemma init_blk_ok:
  assumes on: "powered_on s" and fits: "start + SIZEOF_BUFFER_HEAD + BLOCK_SIZE \<le> 2 * 1024 * 1024"
    and t: "good_table mem addr len"
  shows "wp (init_blk start mem flags addr len s)
    (\<lambda>e. disk_stop e \<or> e = Panic '''' \<or> init_buff start (2 * 1024 * 1024) (cache s) = Inl e) kinv"
proof (cases "init_buff start (2 * 1024 * 1024) (cache s)")
  case ret: (Inr c)
  define s1 where "s1 = set_cache c s"
  define s2 where "s2 = init_request_queue s1"
  define s3 where "s3 = printk (''init hd info, size: %d'' @ NL) [ArgI len] s2"
  have z: "NR_BUFFERS (cache s) = 0" using on by (simp add: powered_on_def)
  have f: "start + SIZEOF_BUFFER_HEAD + BLOCK_SIZE \<le> buffer_top (2 * 1024 * 1024)"
    using fits by (simp add: buffer_top_def)
  have e: "2 * 1024 * 1024 < (2 ^ 31 :: nat)" by simp
  note B = init_buff_ok [OF f e z ret]
  have s1: "cache s1 = c" "drv s1 = drv s"
    by (simp_all add: s1_def set_cache_def)
  have s2: "cache s2 = cache s1" "irq_routines (drv s2) = irq_routines (drv s)" "NR_HD (drv s2) = 0" "callable (drv s2)"
    using on s1 by (simp_all add: s2_def init_request_queue_def init_requests_proj powered_on_def)
  have cinv: "cache_inv (cache s2)" using B(1) s1 s2 by (auto simp: cache_inv_def)
  have idle: "\<forall>p \<in> buffers (cache s1). b_lock (bh_of s1 p) = 0" using B(3) s1 by simp
  have q: "queue_inv {} (init_request_queue u) []"
    if "cache u = cache s1" "\<forall>m. current_request (drv u) m = NULL" "\<forall>m. m \<noteq> MAJOR_NR \<longrightarrow> \<not> request_fn (drv u) m" for u
    using idle that by (auto simp: queue_inv_def init_request_queue_def init_requests_proj CURRENT_def)
  have "queue_inv {} s2 []" unfolding s2_def by (rule q) (use on s1 in \<open>auto simp: powered_on_def\<close>)
  then have k2: "kinv s2"
    using cinv on s2 by (auto simp: kinv_def drv_inv_def armed_def geom_ok_def irqs_ok_def powered_on_def)
  have cnt: "b_count (bh_of s2 p) \<noteq> 255" for p
    using init_buff_count [OF f e z ret, of p] on s1 s2 by (simp add: powered_on_def)
  have "queue_inv {} (enable_hd s3) []"
  proof -
    have "same_queue (enable_hd s3) (init_request_queue (s1\<lparr>drv := (drv s1)\<lparr>request_fn := (request_fn (drv s1))(MAJOR_NR := True)\<rparr>\<rparr>))"
      by (simp add: same_queue_def s3_def s2_def enable_hd_def Let_def inb_def outb_def printk_def init_request_queue_def init_requests_proj cong: if_cong)
    moreover have "queue_inv {} (init_request_queue (s1\<lparr>drv := (drv s1)\<lparr>request_fn := (request_fn (drv s1))(MAJOR_NR := True)\<rparr>\<rparr>)) []"
      by (rule q) (use on s1 in \<open>auto simp: powered_on_def\<close>)
    ultimately show ?thesis using queue_inv_same by blast
  qed
  moreover have "cache_inv (cache s3)" "irqs_ok s3" "NR_HD (drv s3) = 0" "callable (drv s3)" "\<And>p. b_count (bh_of s3 p) \<noteq> 255"
    using cinv on s2 cnt by (simp_all add: s3_def printk_def irqs_ok_def powered_on_def)
  ultimately have hd: "wp (init_hd_info mem addr len s3) (\<lambda>e. disk_stop e \<or> e = Panic '''') (\<lambda>(r, t). kinv t)"
    using init_hd_info_ok [of s3 mem addr len] t by simp
  have "init_blk start mem flags addr len s =
      (if flags AND push_bit 6 1 \<noteq> 0 then bnd (init_hd_info mem addr len s3) (\<lambda>(r, s). Inr s) else Inr s2)"
    unfolding init_blk_def Let_def ret bnd_Inr s1_def [symmetric] s2_def [symmetric] s3_def [symmetric] ..
  moreover have "wp (init_blk start mem flags addr len s) (\<lambda>e. disk_stop e \<or> e = Panic '''') kinv"
    using hd k2 calculation by (simp add: case_prod_unfold)
  ultimately show ?thesis using wp_mono by fastforce
qed (simp add: init_blk_def)

end
