(* ===== verification/Block_Machine.thy ===== *)
theory Block_Machine
  imports Boot
begin

text \<open>
  The block layer as a transition system: after boot, the kernel calls its operations one after the
  other and interrupts arrive in between. The invariants hold in every reachable state.
\<close>

definition in_use :: "ptr \<Rightarrow> kst \<Rightarrow> bool" where
  "in_use bh s \<longleftrightarrow> bh \<in> buffers (cache s) \<and> b_count (bh_of s bh) \<noteq> 0"

definition real_dev :: "u32 \<Rightarrow> bool" where
  "real_dev dev \<longleftrightarrow> dev \<noteq> 0 \<and> unat dev < 65536"

inductive block_step :: "kst \<Rightarrow> kst \<Rightarrow> bool" where
  step_irq: "interrupt i s = Inr t \<Longrightarrow> block_step s t"
| step_rw: "in_use bh s \<Longrightarrow> b_lock (bh_of s bh) = 0 \<Longrightarrow> is_rw rw \<Longrightarrow> ll_rw_block rw bh s = Inr t \<Longrightarrow> block_step s t"
| step_wait: "in_use bh s \<Longrightarrow> wait_on_buff bh s = Inr t \<Longrightarrow> block_step s t"
| step_get: "real_dev dev \<Longrightarrow> get_buff dev block s = Inr (bh, t) \<Longrightarrow> block_step s t"
| step_put: "in_use bh s \<Longrightarrow> put_buff bh s = Inr t \<Longrightarrow> block_step s t"
| step_sync: "sync_dev dev s = Inr t \<Longrightarrow> block_step s t"
| step_dirty: "in_use bh s \<Longrightarrow> block_step s (upd_bh bh (\<lambda>b. b\<lparr>b_dirt := 1\<rparr>) s)"
| step_fill: "in_use bh s \<Longrightarrow> b_lock (bh_of s bh) = 0 \<Longrightarrow> block_step s (s\<lparr>cache := (cache s)\<lparr>bdata := (bdata (cache s))(bh := d)\<rparr>\<rparr>)"

inductive_cases block_stepE: "block_step s t"

inductive reachable :: "kst \<Rightarrow> bool" where
  booted: "powered_on s \<Longrightarrow> start + SIZEOF_BUFFER_HEAD + BLOCK_SIZE \<le> 2 * 1024 * 1024 \<Longrightarrow> good_table mem addr len \<Longrightarrow>
     init_blk start mem flags addr len s = Inr t \<Longrightarrow> reachable t"
| stepped: "reachable s \<Longrightarrow> block_step s t \<Longrightarrow> reachable t"

lemma interrupt_kinv: "kinv s \<Longrightarrow> interrupt i s = Inr t \<Longrightarrow> kinv t"
proof -
  assume k: "kinv s" and i: "interrupt i s = Inr t"
  then obtain q where "drv_inv {} s q" by (auto simp: kinv_def)
  then have "settled {} s q t" using wp_InrD [OF interrupt_settled i] by blast
  then show ?thesis using kinv_settled [OF k] by simp
qed

lemma kinv_fill:
  assumes "kinv s"
  shows "kinv (s\<lparr>cache := (cache s)\<lparr>bdata := d\<rparr>\<rparr>)"
proof -
  let ?t = "s\<lparr>cache := (cache s)\<lparr>bdata := d\<rparr>\<rparr>"
  obtain q where q: "drv_inv {} s q" using assms by (auto simp: kinv_def)
  have "same_queue s ?t" by (simp add: same_queue_def)
  then have "queue_inv {} ?t q" using q queue_inv_same [of s ?t] by (simp add: drv_inv_def)
  then have "drv_inv {} ?t q" using q by (simp add: drv_inv_def armed_def geom_ok_def irqs_ok_def)
  moreover have "same_index s ?t" by (simp add: same_index_def)
  ultimately show ?thesis using kinv_index [OF assms] by blast
qed

lemma block_step_kinv: "block_step s t \<Longrightarrow> kinv s \<Longrightarrow> kinv t"
proof (induction rule: block_step.induct)
  case (step_irq i s t)
  then show ?case using interrupt_kinv by blast
next
  case (step_rw bh s rw t)
  then show ?case using wp_InrD [OF ll_rw_block_ok, of s bh rw t] by (simp add: in_use_def)
next
  case (step_wait bh s t)
  then show ?case using wp_InrD [OF wait_on_buff_ok, of s bh t] by (simp add: in_use_def)
next
  case (step_get dev block s bh t)
  then have "got dev block s (bh, t)" using wp_InrD [OF get_buff_got, of s dev block "(bh, t)"] by (simp add: real_dev_def)
  then show ?case by (rule got_fields(1))
next
  case (step_put bh s t)
  then show ?case using wp_InrD [OF put_buff_ok, of s bh t] by (simp add: in_use_def counted_def)
next
  case (step_sync dev s t)
  then show ?case using wp_InrD [OF sync_dev_ok, of s dev t] by (simp add: calm_step_def)
next
  case (step_dirty bh s)
  then show ?case by (simp add: kinv_upd_bh)
next
  case (step_fill bh s d)
  then show ?case by (simp add: kinv_fill)
qed

lemma reachable_kinv: "reachable s \<Longrightarrow> kinv s"
proof (induction rule: reachable.induct)
  case (booted s start mem addr len flags t)
  then show ?case using wp_InrD [OF init_blk_ok, of s start mem addr len flags t] by simp
next
  case (stepped s t)
  then show ?case using block_step_kinv by blast
qed

end
