(* ===== verification/Demo.thy ===== *)
theory Demo
  imports Block_Machine Disk_Read
begin

text \<open>
  Concrete states of the block layer, which the witnesses of the properties use: a machine with one
  disk that is always ready and two buffers, just after boot and with a read in progress.
\<close>

definition blank_head :: buffer_head where
  "blank_head = \<lparr>b_data = 0, b_blocknr = 0, b_dev = 0, b_uptodate = 0, b_dirt = 0, b_count = 0, b_lock = 0,
     b_wait = NULL, b_prev = NULL, b_next = NULL, b_prev_free = NULL, b_next_free = NULL\<rparr>"

definition blank_request :: request where
  "blank_request = \<lparr>rq_dev = 0, rq_cmd = 0, rq_errors = 0, rq_sector = 0, rq_nr_sectors = 0,
     rq_buffer = (NULL, 0), rq_bh = NULL, rq_next = NULL\<rparr>"

definition empty_cache :: cache where
  "empty_cache = \<lparr>bufs = (\<lambda>_. blank_head), bdata = (\<lambda>_ _. 0), hash_table = (\<lambda>_. NULL), free_list = NULL, NR_BUFFERS = 0\<rparr>"

text \<open>The buffers of a kernel whose image ends 3000 bytes below 2 MB.\<close>

definition demo_cache :: cache where
  "demo_cache = \<lparr>bufs = (\<lambda>_. blank_head)
       (1 := blank_head\<lparr>b_data := 2096128, b_prev_free := 2, b_next_free := 2\<rparr>,
        2 := blank_head\<lparr>b_data := 2095104, b_prev_free := 1, b_next_free := 1\<rparr>),
     bdata = (\<lambda>_ _. 0), hash_table = (\<lambda>_. NULL), free_list = 1, NR_BUFFERS = 2\<rparr>"

definition demo_drv :: driver where
  "demo_drv = \<lparr>request_list = (\<lambda>_. blank_request), current_request = (\<lambda>_. NULL),
     request_fn = (\<lambda>m. m = MAJOR_NR), recalibrate = False, reset = False,
     hd_info = (\<lambda>_. \<lparr>hd_head = 16, hd_sect = 63, hd_cyl = 1024\<rparr>), NR_HD = 1,
     partition_info = (\<lambda>_. \<lparr>start_sect = 0, nr_sects = 1000\<rparr>), callable = False,
     irq_routines = [0 \<mapsto> Timer_handler], timer_ticks = 0\<rparr>"

text \<open>The disk answers every poll with "ready, seek complete" and delivers the numbers of the bytes.\<close>

definition demo_hw :: "nat list \<Rightarrow> hardware" where
  "demo_hw is = \<lparr>inb_val = (\<lambda>_ _. 0x50), insw_val = (\<lambda>_ i. of_nat i), io_clock = 0, io_out = [],
     if_flag = False, irqs = is\<rparr>"

definition demo :: kst where
  "demo = init_request_queue \<lparr>cache = demo_cache, drv = demo_drv, hw = demo_hw [14, 14], klog = []\<rparr>"

lemma demo_fits: "2094152 + SIZEOF_BUFFER_HEAD + BLOCK_SIZE \<le> buffer_top 2097152" "(2097152 :: nat) < 2 ^ 31"
  by (simp_all add: buffer_top_def)

lemmas demo_cache_eq = demo_cache_def

lemma demo_cache_init: "init_buff 2094152 2097152 empty_cache = Inr demo_cache"
  by (simp add: demo_cache_def empty_cache_def init_buff_def buffer_top_def init_loop.simps Let_def upd_buf_def init_head_def
      blank_head_def fun_eq_iff)

lemma demo_proj:
  "cache demo = demo_cache" "hw demo = demo_hw [14, 14]"
  "drv demo = demo_drv\<lparr>request_list := (\<lambda>i. if 1 \<le> i \<and> i \<le> NR_REQUEST then blank_request\<lparr>rq_dev := -1\<rparr> else blank_request)\<rparr>"
  by (auto simp: demo_def init_request_queue_def init_requests_proj demo_drv_def blank_request_def)

lemma demo_cache_inv: "queues_ok demo_cache [1..<Suc (NR_BUFFERS demo_cache)] (\<lambda>_. [])"
  by (rule init_buff_ok(1) [OF demo_fits _ demo_cache_init]) (simp add: empty_cache_def)

lemma demo_drv_inv: "drv_inv {} demo []"
  unfolding demo_def
  by (rule init_request_queue_inv)
    (auto simp: idle_def geom_ok_def irqs_ok_def demo_drv_def demo_cache_eq blank_head_def buffers_def)

lemma demo_kinv: "kinv demo"
  using demo_cache_inv demo_drv_inv by (auto simp: kinv_def cache_inv_def demo_proj)

section \<open>A read in progress\<close>

definition demo_reading :: kst where
  "demo_reading = \<lparr>
     cache = upd_buf 1 (\<lambda>b. b\<lparr>b_dev := 0x300, b_lock := 1\<rparr>) demo_cache,
     drv = demo_drv\<lparr>request_list := (\<lambda>i. if i = 1 then \<lparr>rq_dev = 0x300, rq_cmd = READ, rq_errors = 0, rq_sector = 0,
             rq_nr_sectors = 2, rq_buffer = (1, 0), rq_bh = 1, rq_next = NULL\<rparr>
           else if 1 \<le> i \<and> i \<le> NR_REQUEST then blank_request\<lparr>rq_dev := -1\<rparr> else blank_request),
        current_request := (\<lambda>_. NULL)(MAJOR_NR := 1),
        irq_routines := [0 \<mapsto> Timer_handler, 14 \<mapsto> Read_intr]\<rparr>,
     hw = demo_hw [14, 14], klog = []\<rparr>"

lemma demo_reading_inv: "drv_inv {} demo_reading [1]"
proof -
  have r: "req_ok demo_reading 1"
    by (simp add: req_ok_def demo_reading_def demo_cache_eq blank_head_def buffers_def MAJOR_def)
  have "queue_inv {} demo_reading [1]"
    unfolding queue_inv_def using r
    by (auto simp: CURRENT_def demo_reading_def demo_drv_def blank_request_def demo_cache_eq blank_head_def split: if_splits)
  then show ?thesis
    by (auto simp: drv_inv_def armed_def geom_ok_def irqs_ok_def demo_reading_def demo_drv_def)
qed

section \<open>Other states\<close>

text \<open>Buffer 1 stands for block 5 of the disk and has not been read yet.\<close>

definition demo_claimed :: kst where
  "demo_claimed = upd_bh 1 (\<lambda>b. b\<lparr>b_dev := 0x300, b_blocknr := 5, b_count := 1\<rparr>) demo"

lemma demo_claimed_proj:
  "bh_of demo_claimed 1 = blank_head\<lparr>b_data := 2096128, b_prev_free := 2, b_next_free := 2, b_dev := 0x300, b_blocknr := 5, b_count := 1\<rparr>"
  "b_lock (bh_of demo_claimed 1) = 0" "b_uptodate (bh_of demo_claimed 1) = 0"
  "NR_BUFFERS (cache demo_claimed) = 2" "hw demo_claimed = demo_hw [14, 14]"
  "drv demo_claimed = drv demo"
  by (simp_all add: demo_claimed_def upd_bh_def demo_proj demo_cache_eq blank_head_def)

lemma demo_drv_proj:
  "current_request (drv demo) = (\<lambda>_. NULL)" "request_fn (drv demo) = (\<lambda>m. m = MAJOR_NR)" "NR_HD (drv demo) = 1"
  "reset (drv demo) = False" "recalibrate (drv demo) = False"
  "partition_info (drv demo) = (\<lambda>_. \<lparr>start_sect = 0, nr_sects = 1000\<rparr>)"
  "hd_info (drv demo) = (\<lambda>_. \<lparr>hd_head = 16, hd_sect = 63, hd_cyl = 1024\<rparr>)"
  by (simp_all add: demo_proj demo_drv_def)

lemma demo_claimed_inv: "drv_inv {} demo_claimed []"
proof -
  have "queue_inv {} demo []" using demo_drv_inv by (simp add: drv_inv_def)
  then have "queue_inv {} demo_claimed []"
    by (simp add: queue_inv_def demo_claimed_proj CURRENT_def)
       (auto simp: demo_claimed_def upd_bh_def buffers_def)
  then show ?thesis
    using demo_drv_inv by (simp add: drv_inv_def armed_def geom_ok_def irqs_ok_def demo_claimed_proj)
qed

text \<open>The same after an earlier read, whose handler is still installed.\<close>

definition demo_later :: kst where
  "demo_later = irq_install_handler 14 Read_intr demo_claimed"

lemma demo_later_inv: "drv_inv {} demo_later []"
proof -
  have "queue_inv {} demo_later []" using demo_claimed_inv io_only_inv [OF io_install] by (simp add: drv_inv_def demo_later_def)
  then show ?thesis using demo_claimed_inv by (auto simp: drv_inv_def armed_def geom_ok_def irqs_ok_def demo_later_def irq_install_handler_def)
qed

lemma demo_later_fields:
  "1 \<in> buffers (cache demo_later)" "b_lock (bh_of demo_later 1) = 0" "b_uptodate (bh_of demo_later 1) = 0"
  "MAJOR (uint (b_dev (bh_of demo_later 1))) = MAJOR_NR" "request_fn (drv demo_later) MAJOR_NR"
  "ready demo_later" "irq_routines (drv demo_later) 14 = Some Read_intr"
proof -
  have f: "cache demo_later = cache demo_claimed" "hw demo_later = hw demo_claimed" "request_fn (drv demo_later) = request_fn (drv demo_claimed)"
    "irq_routines (drv demo_later) 14 = Some Read_intr"
    by (simp_all add: demo_later_def irq_install_handler_def)
  show "1 \<in> buffers (cache demo_later)" "b_lock (bh_of demo_later 1) = 0" "b_uptodate (bh_of demo_later 1) = 0"
    "MAJOR (uint (b_dev (bh_of demo_later 1))) = MAJOR_NR" "request_fn (drv demo_later) MAJOR_NR"
    "ready demo_later" "irq_routines (drv demo_later) 14 = Some Read_intr"
    using f by (simp_all add: buffers_def demo_claimed_proj demo_drv_proj blank_head_def MAJOR_def ready_def demo_hw_def del: One_nat_def)
qed

text \<open>Buffer 2 is locked for a write of block 7 while the read is in progress.\<close>

definition demo_entering :: kst where
  "demo_entering = upd_bh 2 (\<lambda>b. b\<lparr>b_dev := 0x300, b_blocknr := 7, b_dirt := 1, b_lock := 1\<rparr>) demo_reading"

lemma demo_entering_ok: "entering {} WRITE 2 32 demo_entering [1]"
proof -
  have r: "req_ok demo_entering 1"
    by (simp add: req_ok_def demo_entering_def upd_bh_def demo_reading_def demo_cache_eq blank_head_def buffers_def MAJOR_def)
  have "queue_inv {2} demo_entering [1]"
    unfolding queue_inv_def using r
    by (auto simp: CURRENT_def demo_entering_def upd_bh_def demo_reading_def demo_drv_def blank_request_def demo_cache_eq
        blank_head_def split: if_splits)
  then have "drv_inv {2} demo_entering [1]"
    by (auto simp: drv_inv_def armed_def geom_ok_def irqs_ok_def demo_entering_def upd_bh_def demo_reading_def demo_drv_def)
  then show ?thesis
    by (simp add: entering_def demo_entering_def upd_bh_def demo_reading_def demo_cache_eq blank_head_def buffers_def
        MAJOR_def demo_drv_def blank_request_def)
qed

text \<open>Every buffer is in use.\<close>

definition demo_full :: kst where
  "demo_full = upd_bh 2 (\<lambda>b. b\<lparr>b_count := 1\<rparr>) (upd_bh 1 (\<lambda>b. b\<lparr>b_count := 1\<rparr>) demo)"

lemma demo_full_kinv: "kinv demo_full"
  unfolding demo_full_def by (intro kinv_upd_bh demo_kinv) simp_all

text \<open>A boot without drives.\<close>

definition power_up :: kst where
  "power_up = \<lparr>cache = \<lparr>bufs = (\<lambda>_. blank_head), bdata = (\<lambda>_ _. 0), hash_table = (\<lambda>_. NULL), free_list = NULL, NR_BUFFERS = 0\<rparr>,
     drv = demo_drv\<lparr>request_fn := (\<lambda>_. False), NR_HD := 0, callable := True, recalibrate := True, reset := True\<rparr>,
     hw = demo_hw [], klog = []\<rparr>"

lemma power_up_on: "powered_on power_up"
  by (simp add: powered_on_def power_up_def blank_head_def demo_drv_def irqs_ok_def)

text \<open>A drive table with one disk of 16 heads and 63 sectors.\<close>

definition demo_mem :: "nat \<Rightarrow> u8" where
  "demo_mem = (\<lambda>a. 0)(0 := 12, 7 := 4, 8 := 16, 9 := 63)"

lemma demo_table: "good_table demo_mem 0 12"
  by (simp add: good_table_def good_entry_def demo_mem_def le32_def le16_def)

definition booted_state :: kst where
  "booted_state = (case init_blk 0x100000 demo_mem 0 0 12 power_up of Inl e \<Rightarrow> power_up | Inr s \<Rightarrow> s)"

lemma booted_init: "init_blk 0x100000 demo_mem 0 0 12 power_up = Inr booted_state"
proof -
  obtain c where "init_buff 0x100000 (2 * 1024 * 1024) (cache power_up) = Inr c"
    using init_buff_returns [of "0x100000" "2 * 1024 * 1024" "cache power_up"] by (auto simp: buffer_top_def)
  then show ?thesis by (simp add: init_blk_def booted_state_def Let_def)
qed

lemma booted_reachable: "reachable booted_state"
  by (rule booted [OF power_up_on _ demo_table booted_init]) simp

end
