(* ===== verification/Desc.thy ===== *)
theory Desc
  imports Request
begin

text \<open>
  The processor's tables (\<open>src/gdt.c\<close>, \<open>src/idt.c\<close>), the entry stubs of exceptions and interrupts
  (\<open>src/isrs.c\<close>, \<open>src/irq.c\<close>) and the programming of the interrupt controllers. The tables are
  decoded again the way the processor reads them.
\<close>

section \<open>Segment descriptors\<close>

record gdt_entry =
  limit_low :: u16
  base_low :: u16
  base_middle :: u8
  access :: u8
  granularity :: u8
  base_high :: u8

record idt_entry =
  base_lo :: u16
  sel :: u16
  always0 :: u8
  gate_flags :: u8
  base_hi :: u16

text \<open>
  \<open>gdtr\<close> and \<open>idtr\<close> are the limits loaded with \<open>lgdt\<close> and \<open>lidt\<close>; the bases are the addresses of the
  two tables.
\<close>

record tables =
  gdt :: "nat \<Rightarrow> gdt_entry"
  idt :: "nat \<Rightarrow> idt_entry"
  gdtr :: "u16 option"
  idtr :: "u16 option"

definition gdt_set_gate :: "nat \<Rightarrow> u32 \<Rightarrow> u32 \<Rightarrow> u8 \<Rightarrow> u8 \<Rightarrow> tables \<Rightarrow> tables" where
  "gdt_set_gate num base limit acc gran t =
     (let e1 = (gdt t num)\<lparr>base_low := ucast (base AND 0xFFFF), base_middle := ucast (drop_bit 16 base AND 0xFF),
                 base_high := ucast (drop_bit 24 base AND 0xFF)\<rparr>;
          e2 = e1\<lparr>limit_low := ucast (limit AND 0xFFFF), granularity := ucast (drop_bit 16 limit AND 0x0F)\<rparr>;
          e3 = e2\<lparr>granularity := granularity e2 OR (gran AND 0xF0), access := acc\<rparr>
      in t\<lparr>gdt := (gdt t)(num := e3)\<rparr>)"

definition gdt_install :: "tables \<Rightarrow> tables" where
  "gdt_install t0 =
     (let t1 = gdt_set_gate 0 0 0 0 0 t0;
          t2 = gdt_set_gate 2 0 0xFFFFFFFF 0x9A 0xCF t1;
          t3 = gdt_set_gate 1 0 0xFFFFFFFF 0x92 0xCF t2
      in t3\<lparr>gdtr := Some (8 * 3 - 1)\<rparr>)"

text \<open>How the processor reads a descriptor: base, limit in units of the granularity, type, flags.\<close>

definition seg_base :: "gdt_entry \<Rightarrow> u32" where
  "seg_base e = ucast (base_low e) OR push_bit 16 (ucast (base_middle e)) OR push_bit 24 (ucast (base_high e))"

definition seg_limit :: "gdt_entry \<Rightarrow> u32" where
  "seg_limit e = ucast (limit_low e) OR push_bit 16 (ucast (granularity e AND 0x0F))"

text \<open>The constants of the masks, as masks.\<close>

lemma mask_consts:
  "(0xFFFF :: u32) = mask 16" "(0xFF :: u32) = mask 8" "(0x0F :: u32) = mask 4" "(0xFFFFF :: u32) = mask 20"
  "(0x0F :: u8) = mask 4" "(0xF0 :: u8) = NOT (mask 4)"
  by (simp_all add: mask_eq_exp_minus_1)

lemma seg_base_roundtrip: "seg_base (gdt (gdt_set_gate num base limit acc gran t) num) = base"
  unfolding gdt_set_gate_def seg_base_def Let_def mask_consts
proof (rule bit_word_eqI, goal_cases)
  case (1 n)
  then show ?case by (cases "n < 16"; cases "n < 24") (auto simp: bit_simps)
qed

lemma seg_limit_roundtrip: "seg_limit (gdt (gdt_set_gate num base limit acc gran t) num) = limit AND 0xFFFFF"
  unfolding gdt_set_gate_def seg_limit_def Let_def mask_consts
  by (rule bit_word_eqI) (auto simp: bit_simps)

lemma seg_flags_roundtrip:
  "granularity (gdt (gdt_set_gate num base limit acc gran t) num) AND 0xF0 = gran AND 0xF0"
  "access (gdt (gdt_set_gate num base limit acc gran t) num) = acc"
  "i \<noteq> num \<Longrightarrow> gdt (gdt_set_gate num base limit acc gran t) i = gdt t i"
proof -
  show "granularity (gdt (gdt_set_gate num base limit acc gran t) num) AND 0xF0 = gran AND 0xF0"
    unfolding gdt_set_gate_def Let_def mask_consts by (rule bit_word_eqI) (auto simp: bit_simps)
qed (simp_all add: gdt_set_gate_def Let_def)

section \<open>Interrupt gates\<close>

definition idt_set_gate :: "nat \<Rightarrow> u32 \<Rightarrow> u16 \<Rightarrow> u8 \<Rightarrow> tables \<Rightarrow> tables" where
  "idt_set_gate num base s fl t =
     (let e = (idt t num)\<lparr>base_lo := ucast (base AND 0xFFFF), base_hi := ucast (drop_bit 16 base AND 0xFFFF),
                sel := s, always0 := 0, gate_flags := fl\<rparr>
      in t\<lparr>idt := (idt t)(num := e)\<rparr>)"

definition zero_gate :: idt_entry where
  "zero_gate = \<lparr>base_lo = 0, sel = 0, always0 = 0, gate_flags = 0, base_hi = 0\<rparr>"

definition idt_install :: "tables \<Rightarrow> tables" where
  "idt_install t = t\<lparr>idt := (\<lambda>i. if i < 256 then zero_gate else idt t i), idtr := Some (8 * 256 - 1)\<rparr>"

text \<open>
  \<open>isrs_install\<close> and the second half of \<open>irq_install\<close> are one call per vector; \<open>isr\<close> and \<open>irq\<close> are the
  addresses of the stubs.
\<close>

fun set_gates :: "nat list \<Rightarrow> (nat \<Rightarrow> u32) \<Rightarrow> tables \<Rightarrow> tables" where
  "set_gates [] addr t = t"
| "set_gates (v # vs) addr t = set_gates vs addr (idt_set_gate v (addr v) 0x10 0x8E t)"

definition isrs_install :: "(nat \<Rightarrow> u32) \<Rightarrow> tables \<Rightarrow> tables" where
  "isrs_install isr t = set_gates [0..<32] isr t"

definition irq_remap :: "kst \<Rightarrow> kst" where
  "irq_remap s = fold (\<lambda>(v, p). outb v p)
     [(0x11, 0x20), (0x11, 0xA0), (0x20, 0x21), (0x28, 0xA1), (0x04, 0x21), (0x02, 0xA1),
      (0x01, 0x21), (0x01, 0xA1), (0x0, 0x21), (0x0, 0xA1)] s"

definition irq_install :: "(nat \<Rightarrow> u32) \<Rightarrow> tables \<times> kst \<Rightarrow> tables \<times> kst" where
  "irq_install irq ts = (set_gates [32..<48] (\<lambda>v. irq (v - 32)) (fst ts), irq_remap (snd ts))"

definition timer_install :: "kst \<Rightarrow> kst" where
  "timer_install s = irq_install_handler 0 Timer_handler s"

text \<open>
  How the processor reads a gate: \<open>None\<close> if the present bit, bit 7 of the flags, is clear; otherwise the rest of the
  flags (bits 5 and 6 are the privilege level and 0x0E is a 32-bit interrupt gate), the selector and the offset.
\<close>

definition gate_target :: "idt_entry \<Rightarrow> (u8 \<times> u16 \<times> u32) option" where
  "gate_target e = (if bit (gate_flags e) 7
     then Some (gate_flags e AND 0x7F, sel e, ucast (base_lo e) OR push_bit 16 (ucast (base_hi e))) else None)"

lemma gate_roundtrip:
  "gate_target (idt (idt_set_gate num base s fl t) num) = (if bit fl 7 then Some (fl AND 0x7F, s, base) else None)"
proof -
  have "(ucast (ucast (base AND mask 16) :: u16) :: u32) OR push_bit 16 (ucast (ucast (drop_bit 16 base AND mask 16) :: u16)) = base"
  proof (rule bit_word_eqI, goal_cases)
    case (1 n)
    then show ?case by (cases "n < 16") (auto simp: bit_simps)
  qed
  then show ?thesis unfolding idt_set_gate_def gate_target_def Let_def mask_consts by simp
qed

lemma idt_set_gate_other: "i \<noteq> num \<Longrightarrow> idt (idt_set_gate num base s fl t) i = idt t i"
  "gdt (idt_set_gate num base s fl t) = gdt t"
  by (simp_all add: idt_set_gate_def Let_def)

lemma set_gates_target:
  "distinct vs \<Longrightarrow> gate_target (idt (set_gates vs addr t) v) = (if v \<in> set vs then Some (0x0E, 0x10, addr v) else gate_target (idt t v))"
proof (induction vs arbitrary: t)
  case (Cons w vs)
  then show ?case using idt_set_gate_other(1) [of v w] gate_roundtrip by (cases "v = w") auto
qed simp

lemma set_gates_gdt: "gdt (set_gates vs addr t) = gdt t"
  by (induction vs arbitrary: t) (simp_all add: idt_set_gate_other)

text \<open>The tables after \<open>kmain\<close> has installed them.\<close>

definition install_tables :: "(nat \<Rightarrow> u32) \<Rightarrow> (nat \<Rightarrow> u32) \<Rightarrow> tables \<times> kst \<Rightarrow> tables \<times> kst" where
  "install_tables isr irq ts =
     (let t1 = idt_install (gdt_install (fst ts)) in irq_install irq (isrs_install isr t1, snd ts))"

lemma install_tables_fst:
  "fst (install_tables isr irq ts) =
     set_gates [32..<48] (\<lambda>v. irq (v - 32)) (set_gates [0..<32] isr (idt_install (gdt_install (fst ts))))"
  by (simp add: install_tables_def irq_install_def isrs_install_def Let_def)

lemma install_tables_gates:
  "gate_target (idt (fst (install_tables isr irq ts)) v) =
    (if v < 32 then Some (0x0E, 0x10, isr v) else if v < 48 then Some (0x0E, 0x10, irq (v - 32))
     else if v < 256 then None else gate_target (idt (fst ts) v))"
  unfolding install_tables_fst
  by (simp add: set_gates_target del: upt.simps upt_conv_Cons upt_rec_numeral)
     (auto simp: idt_install_def zero_gate_def gate_target_def gdt_install_def gdt_set_gate_def Let_def)

lemma install_tables_segments:
  fixes isr irq ts
  defines "g \<equiv> gdt (fst (install_tables isr irq ts))"
  shows "seg_base (g (0x10 div 8)) = 0" "access (g (0x10 div 8)) = 0x9A" "seg_limit (g (0x10 div 8)) = 0xFFFFF"
    "seg_base (g (0x08 div 8)) = 0" "access (g (0x08 div 8)) = 0x92" "seg_limit (g (0x08 div 8)) = 0xFFFFF"
proof -
  let ?t = "fst ts"
  have "g = gdt (gdt_install ?t)"
    by (simp add: g_def install_tables_fst set_gates_gdt idt_install_def del: upt.simps upt_conv_Cons upt_rec_numeral)
  moreover have "gdt (gdt_install ?t) 2 = gdt (gdt_set_gate 2 0 0xFFFFFFFF 0x9A 0xCF (gdt_set_gate 0 0 0 0 0 ?t)) 2"
    "gdt (gdt_install ?t) 1 = gdt (gdt_set_gate 1 0 0xFFFFFFFF 0x92 0xCF (gdt_set_gate 2 0 0xFFFFFFFF 0x9A 0xCF (gdt_set_gate 0 0 0 0 0 ?t))) 1"
    by (simp_all add: gdt_install_def Let_def seg_flags_roundtrip(3))
  ultimately show "seg_base (g (0x10 div 8)) = 0" "access (g (0x10 div 8)) = 0x9A" "seg_limit (g (0x10 div 8)) = 0xFFFFF"
    "seg_base (g (0x08 div 8)) = 0" "access (g (0x08 div 8)) = 0x92" "seg_limit (g (0x08 div 8)) = 0xFFFFF"
    by (simp_all add: seg_base_roundtrip seg_limit_roundtrip seg_flags_roundtrip(2))
qed

section \<open>Entry stubs\<close>

text \<open>
  What \<open>pusha\<close> and the pushes of the segment registers save, and \<open>struct regs\<close>, through which the
  handler sees the stack. Stacks are lists with the top first.
\<close>

record cpu_regs =
  eax :: u32  ecx :: u32  edx :: u32  ebx :: u32  esp :: u32  ebp :: u32  esi :: u32  edi :: u32
  seg_ds :: u32  seg_es :: u32  seg_fs :: u32  seg_gs :: u32

record regs =
  r_gs :: u32  r_fs :: u32  r_es :: u32  r_ds :: u32
  r_edi :: u32  r_esi :: u32  r_ebp :: u32  r_esp :: u32  r_ebx :: u32  r_edx :: u32  r_ecx :: u32  r_eax :: u32
  int_no :: u32  err_code :: u32
  r_eip :: u32  r_cs :: u32  r_eflags :: u32

definition regs_at :: "u32 list \<Rightarrow> regs" where
  "regs_at st = \<lparr>r_gs = st ! 0, r_fs = st ! 1, r_es = st ! 2, r_ds = st ! 3,
     r_edi = st ! 4, r_esi = st ! 5, r_ebp = st ! 6, r_esp = st ! 7, r_ebx = st ! 8, r_edx = st ! 9, r_ecx = st ! 10, r_eax = st ! 11,
     int_no = st ! 12, err_code = st ! 13, r_eip = st ! 14, r_cs = st ! 15, r_eflags = st ! 16\<rparr>"

definition pusha :: "cpu_regs \<Rightarrow> u32 list \<Rightarrow> u32 list" where
  "pusha r st = [edi r, esi r, ebp r, esp r, ebx r, edx r, ecx r, eax r] @ st"

definition isr_common_stub :: "cpu_regs \<Rightarrow> u32 list \<Rightarrow> cpu_regs \<times> u32 list" where
  "isr_common_stub r st = (r\<lparr>seg_ds := 0x08, seg_es := 0x08, seg_fs := 0x08, seg_gs := 0x08\<rparr>, [seg_gs r, seg_fs r, seg_es r, seg_ds r] @ pusha r st)"

text \<open>The stubs \<open>isr0\<close> to \<open>isr31\<close>: six of them rely on an error code pushed by the processor.\<close>

definition isr_stub :: "nat \<Rightarrow> cpu_regs \<Rightarrow> u32 list \<Rightarrow> cpu_regs \<times> u32 list" where
  "isr_stub i r st = isr_common_stub r (of_nat i # (if i \<in> {8, 10, 11, 12, 13, 14} then st else 0 # st))"

text \<open>The return: the segment registers, \<open>popa\<close> (which skips \<open>esp\<close>), and the two words below.\<close>

definition stub_return :: "cpu_regs \<Rightarrow> u32 list \<Rightarrow> cpu_regs \<times> u32 list" where
  "stub_return r st =
     (r\<lparr>seg_gs := st ! 0, seg_fs := st ! 1, seg_es := st ! 2, seg_ds := st ! 3, edi := st ! 4, esi := st ! 5, ebp := st ! 6,
        ebx := st ! 8, edx := st ! 9, ecx := st ! 10, eax := st ! 11\<rparr>, drop 14 st)"

text \<open>The vectors for which an i386 pushes an error code.\<close>

definition pushes_error :: "nat \<Rightarrow> bool" where
  "pushes_error i \<longleftrightarrow> i \<in> {8, 10, 11, 12, 13, 14, 17}"

definition exception_frame :: "nat \<Rightarrow> u32 \<Rightarrow> u32 list \<Rightarrow> u32 list" where
  "exception_frame i err frame = (if pushes_error i then err # frame else frame)"

lemma isr_stub_regs:
  assumes "i < 32" "i \<noteq> 17" "isr_stub i r (exception_frame i err [eip, cs, eflags]) = (r', st)"
  shows "int_no (regs_at st) = of_nat i \<and> err_code (regs_at st) = (if pushes_error i then err else 0) \<and>
     r_eip (regs_at st) = eip \<and> r_cs (regs_at st) = cs \<and> r_eflags (regs_at st) = eflags \<and> r_eax (regs_at st) = eax r \<and>
     stub_return (r'\<lparr>esp := esp r\<rparr>) st = (r, [eip, cs, eflags])"
  using assms
  by (auto simp: isr_stub_def isr_common_stub_def pusha_def exception_frame_def pushes_error_def regs_at_def stub_return_def
      numeral_eq_Suc)

section \<open>The exception handler\<close>

definition exception_messages :: "string list" where
  "exception_messages =
     [''Division By Zero'', ''Debug'', ''Non Maskable Interrupt'', ''Breakpoint'', ''Into Detected Overflow'',
      ''Out of Bounds'', ''Invalid Opcode'', ''No Coprocessor'',
      ''Double Fault'', ''Coprocessor Segment Overrun'', ''Bad TSS'', ''Segment Not Present'', ''Stack Fault'',
      ''General Protection Fault'', ''Page Fault'', ''Unknown Interrupt'',
      ''Coprocessor Fault'', ''Alignment Check'', ''Machine Check''] @ replicate 13 ''Reserved''"

text \<open>\<open>fault_handler\<close>: the state and whether the system has been halted in it.\<close>

definition fault_handler :: "regs \<Rightarrow> kst \<Rightarrow> kst \<times> bool" where
  "fault_handler r s =
     (if int_no r < 32
      then (printk ('' Exception. System Halted!'' @ NL) [] (printk (exception_messages ! unat (int_no r)) [] s), True)
      else (s, False))"

section \<open>The timer\<close>

text \<open>\<open>timer_wait\<close>. The sum of the tick count and the argument wraps around.\<close>

definition timer_wait :: "u32 \<Rightarrow> kst \<Rightarrow> kst kres" where
  "timer_wait ticks s =
     (let eticks = timer_ticks (drv s) + ticks
      in spin_until (\<lambda>s. \<not> timer_ticks (drv s) < eticks) (\<lambda>s. s) s)"

lemma timer_interrupt:
  assumes "irq_routines (drv s) 0 = Some Timer_handler"
  obtains t where "interrupt 0 s = Inr t" "timer_ticks (drv t) = timer_ticks (drv s) + 1"
    "irq_routines (drv t) 0 = Some Timer_handler" "if_flag (hw t)"
  using assms by (auto simp: interrupt_def irq_handler_def timer_handler_def cli_def sti_def outb_def)

text \<open>Without a wrap-around, the loop needs as many timer interrupts as \<open>timer_wait\<close> was asked for.\<close>

lemma timer_spin:
  assumes "irq_routines (drv s) 0 = Some Timer_handler" "if_flag (hw s)"
    "unat (timer_ticks (drv s)) + n = unat e"
  shows "\<exists>t. spin (\<lambda>s. \<not> timer_ticks (drv s) < e) (\<lambda>s. s) (replicate n 0 @ rest) s = Inr t \<and>
    timer_ticks (drv t) = e \<and> irqs (hw t) = rest"
  using assms
proof (induction n arbitrary: s)
  case 0
  then have "timer_ticks (drv s) = e" by (simp add: word_unat_eq_iff)
  then show ?case by (cases rest) simp_all
next
  case (Suc n)
  obtain t where t: "interrupt 0 s = Inr t" "timer_ticks (drv t) = timer_ticks (drv s) + 1"
    "irq_routines (drv t) 0 = Some Timer_handler" "if_flag (hw t)"
    using timer_interrupt [OF Suc.prems(1)] .
  have lt: "timer_ticks (drv s) < e" using Suc.prems(3) by (simp add: word_less_nat_alt)
  have "unat (timer_ticks (drv s) + 1) = unat (timer_ticks (drv s)) + 1"
    using Suc.prems(3) unsigned_less [of e, where ?'a = nat] by (simp add: unat_word_ariths)
  then have "unat (timer_ticks (drv t)) + n = unat e" using t(2) Suc.prems(3) by simp
  from Suc.IH [OF t(3,4) this] show ?case using lt t(1) Suc.prems(2) by simp
qed

lemma timer_wait_returns:
  assumes "irq_routines (drv s) 0 = Some Timer_handler" "if_flag (hw s)" "irqs (hw s) = replicate (unat ticks) 0 @ rest"
    "unat (timer_ticks (drv s)) + unat ticks < 2 ^ 32"
  shows "\<exists>t. timer_wait ticks s = Inr t \<and> timer_ticks (drv t) = timer_ticks (drv s) + ticks \<and> irqs (hw t) = rest"
proof -
  have "unat (timer_ticks (drv s) + ticks) = unat (timer_ticks (drv s)) + unat ticks"
    using assms(4) by (simp add: unat_word_ariths)
  then show ?thesis
    using timer_spin [of s "unat ticks" "timer_ticks (drv s) + ticks" rest] assms
    by (auto simp: timer_wait_def spin_until_def Let_def)
qed

lemma timer_wait_wraps:
  assumes "2 ^ 32 \<le> unat (timer_ticks (drv s)) + unat ticks"
  shows "timer_wait ticks s = Inr s"
proof -
  have lt: "unat (timer_ticks (drv s)) < 2 ^ 32" "unat ticks < 2 ^ 32" using unsigned_less [of "timer_ticks (drv s)"] unsigned_less [of ticks] by simp_all
  have "unat (timer_ticks (drv s) + ticks) = unat (timer_ticks (drv s)) + unat ticks - 2 ^ 32"
    using assms lt by (simp add: unat_word_ariths mod_if)
  then have "\<not> timer_ticks (drv s) < timer_ticks (drv s) + ticks" using lt assms by (simp add: word_less_nat_alt)
  then show ?thesis by (cases "irqs (hw s)") (simp_all add: timer_wait_def spin_until_def Let_def)
qed

end
