(* ===== verification/Util.thy ===== *)
theory Util
  imports Prelude
begin

text \<open>
  The memory and string routines of \<open>src/util.c\<close>, on a memory of bytes. Counts are not negative where
  the kernel calls them.
\<close>

type_synonym mem = "nat \<Rightarrow> u8"

fun memcpy :: "nat \<Rightarrow> nat \<Rightarrow> nat \<Rightarrow> mem \<Rightarrow> mem" where
  "memcpy dp sp 0 m = m"
| "memcpy dp sp (Suc count) m = memcpy (dp + 1) (sp + 1) count (m(dp := m sp))"

fun memset :: "nat \<Rightarrow> u8 \<Rightarrow> nat \<Rightarrow> mem \<Rightarrow> mem" where
  "memset dp v 0 m = m"
| "memset dp v (Suc count) m = memset (dp + 1) v count (m(dp := v))"

text \<open>A 16-bit store, least significant byte first.\<close>

definition store16 :: "nat \<Rightarrow> u16 \<Rightarrow> mem \<Rightarrow> mem" where
  "store16 a v m = m(a := ucast v, a + 1 := ucast (drop_bit 8 v))"

definition load16 :: "mem \<Rightarrow> nat \<Rightarrow> u16" where
  "load16 m a = ucast (m a) OR push_bit 8 (ucast (m (a + 1)))"

fun memsetw :: "nat \<Rightarrow> u16 \<Rightarrow> nat \<Rightarrow> mem \<Rightarrow> mem" where
  "memsetw dp v 0 m = m"
| "memsetw dp v (Suc count) m = memsetw (dp + 2) v count (store16 dp v m)"

text \<open>\<open>strlen\<close>, with fuel for strings of less than \<open>n\<close> characters.\<close>

fun strlen_from :: "nat \<Rightarrow> nat \<Rightarrow> mem \<Rightarrow> nat kres" where
  "strlen_from 0 a m = Inl Hang"
| "strlen_from (Suc n) a m = (if m a = 0 then Inr 0 else bnd (strlen_from n (a + 1) m) (\<lambda>k. Inr (k + 1)))"

text \<open>
  \<open>repe cmpsb\<close>, with the zero flag; \<open>match\<close> compares the first \<open>len\<close> bytes of two names. For \<open>len = 0\<close>
  nothing is compared and the result is the zero flag \<open>zf\<close> that earlier instructions left. The count in \<open>ecx\<close> has no
  sign: a negative \<open>len\<close>, which passes the test against \<open>NAME_LEN\<close>, is a count of \<open>len + 2 ^ 32\<close>.
\<close>

fun repe_cmpsb :: "nat \<Rightarrow> nat \<Rightarrow> nat \<Rightarrow> bool \<Rightarrow> mem \<Rightarrow> mem \<Rightarrow> bool" where
  "repe_cmpsb 0 si di zf ms md = zf"
| "repe_cmpsb (Suc n) si di zf ms md = (if ms si = md di then repe_cmpsb n (si + 1) (di + 1) True ms md else False)"

abbreviation NAME_LEN :: int where
  "NAME_LEN \<equiv> 30"

definition match :: "int \<Rightarrow> nat \<Rightarrow> nat \<Rightarrow> bool \<Rightarrow> mem \<Rightarrow> mem \<Rightarrow> bool" where
  "match len k_name u_name zf ms md = (if len > NAME_LEN then False else repe_cmpsb (nat (len mod 2 ^ 32)) k_name u_name zf ms md)"

text \<open>32-bit accesses, and \<open>rep stosl\<close>, the body of \<open>clear_block\<close> in \<open>src/fs/zone.c\<close>.\<close>

definition store32 :: "nat \<Rightarrow> u32 \<Rightarrow> mem \<Rightarrow> mem" where
  "store32 a v m = store16 (a + 2) (ucast (drop_bit 16 v)) (store16 a (ucast v) m)"

definition load32 :: "mem \<Rightarrow> nat \<Rightarrow> u32" where
  "load32 m a = ucast (load16 m a) OR push_bit 16 (ucast (load16 m (a + 2)))"

fun stosl :: "nat \<Rightarrow> u32 \<Rightarrow> nat \<Rightarrow> mem \<Rightarrow> mem" where
  "stosl di v 0 m = m"
| "stosl di v (Suc n) m = stosl (di + 4) v n (store32 di v m)"

section \<open>Copying\<close>

text \<open>Copying forwards is right when the target is not inside the source, behind its start.\<close>

lemma memcpy_ok:
  assumes "dp \<le> sp \<or> sp + n \<le> dp"
  shows "memcpy dp sp n m a = (if dp \<le> a \<and> a < dp + n then m (sp + (a - dp)) else m a)"
  using assms
proof (induction n arbitrary: dp sp m)
  case (Suc n)
  have "dp + 1 \<le> sp + 1 \<or> sp + 1 + n \<le> dp + 1" using Suc.prems by auto
  moreover have "Suc (sp + a - Suc dp) = sp + a - dp" if "Suc dp \<le> a" using that by simp
  ultimately show ?case using Suc.prems Suc.IH [of "dp + 1" "sp + 1"] by auto
qed auto

text \<open>Otherwise the copy repeats its beginning.\<close>

lemma memcpy_overlap: "memcpy (sp + 1) sp n m a = (if sp < a \<and> a \<le> sp + n then m sp else m a)"
proof (induction n arbitrary: sp m)
  case (Suc n)
  then show ?case using Suc [of "sp + 1"] by auto
qed auto

lemma memset_ok: "memset dp v n m a = (if dp \<le> a \<and> a < dp + n then v else m a)"
  by (induction n arbitrary: dp m) auto

lemma load_store16: "load16 (store16 a v m) a = v"
  unfolding load16_def store16_def
proof (rule bit_word_eqI, goal_cases)
  case (1 n)
  then show ?case by (cases "n < 8") (auto simp: bit_simps)
qed

lemma load_store16_other: "b + 1 < a \<or> a + 1 < b \<Longrightarrow> load16 (store16 a v m) b = load16 m b"
  by (auto simp: load16_def store16_def)

lemma store16_frame: "x \<noteq> a \<Longrightarrow> x \<noteq> a + 1 \<Longrightarrow> store16 a v m x = m x"
  by (simp add: store16_def)

lemma memsetw_frame: "x < dp \<or> dp + 2 * n \<le> x \<Longrightarrow> memsetw dp v n m x = m x"
  by (induction n arbitrary: dp m) (auto simp: store16_frame)

lemma memsetw_ok:
  "i < n \<Longrightarrow> load16 (memsetw dp v n m) (dp + 2 * i) = v"
proof (induction n arbitrary: dp m i)
  case (Suc n)
  show ?case
  proof (cases i)
    case 0
    then show ?thesis
      by (simp add: load16_def memsetw_frame) (metis load16_def load_store16 Suc_eq_plus1)
  next
    case (Suc j)
    then show ?thesis using Suc.IH [of j "dp + 2"] Suc.prems by (simp add: add.assoc)
  qed
qed simp

lemma memsetw_at: "i < n \<Longrightarrow> a = dp + 2 * i \<Longrightarrow> load16 (memsetw dp v n m) a = v"
  by (simp add: memsetw_ok)

lemma strlen_ok:
  assumes "m (a + k) = 0" "\<And>i. i < k \<Longrightarrow> m (a + i) \<noteq> 0" "k < n"
  shows "strlen_from n a m = Inr k"
  using assms
proof (induction n arbitrary: a k)
  case (Suc n)
  show ?case
  proof (cases k)
    case (Suc j)
    have "strlen_from n (a + 1) m = Inr j"
    proof (rule Suc.IH)
      show "m (a + 1 + i) \<noteq> 0" if "i < j" for i using Suc.prems(2) [of "Suc i"] that Suc by simp
    qed (use Suc Suc.prems in auto)
    moreover have "m a \<noteq> 0" using Suc.prems(2) [of 0] Suc by simp
    ultimately show ?thesis using Suc by simp
  qed (use Suc.prems in simp)
qed simp

lemma repe_cmpsb_ok: "repe_cmpsb n si di True ms md \<longleftrightarrow> (\<forall>i<n. ms (si + i) = md (di + i))"
proof (induction n arbitrary: si di)
  case (Suc n)
  then show ?case by (auto simp: less_Suc_eq_0_disj)
qed simp

lemma match_ok:
  assumes "0 < len"
  shows "match len k u zf ms md \<longleftrightarrow> len \<le> NAME_LEN \<and> (\<forall>i<nat len. ms (k + i) = md (u + i))"
proof (cases "len \<le> NAME_LEN")
  case True
  obtain n where n: "nat len = Suc n" using assms by (metis gr0_implies_Suc zero_less_nat_eq)
  have c: "len mod 2 ^ 32 = len" using assms True by (intro mod_pos_pos_trivial) simp_all
  have "repe_cmpsb (Suc n) k u zf ms md = repe_cmpsb (Suc n) k u True ms md" by simp
  then show ?thesis unfolding match_def c n using True by (simp add: repe_cmpsb_ok del: repe_cmpsb.simps)
qed (simp add: match_def)

text \<open>A negative length asks for more bytes than any name has.\<close>

lemma match_negative:
  assumes "- (2 ^ 31) \<le> len" "len < 0" "i < 2 ^ 31" "ms (k + i) \<noteq> md (u + i)"
  shows "\<not> match len k u zf ms md"
proof -
  have "(len + 2 ^ 32) mod 2 ^ 32 = len + 2 ^ 32" using assms(1,2) by (intro mod_pos_pos_trivial) simp_all
  then have "len mod 2 ^ 32 = len + 2 ^ 32" by (simp only: mod_add_self2)
  then obtain n where n: "nat (len mod 2 ^ 32) = Suc n" "i < Suc n" using assms(1,3) by (cases "nat (len mod 2 ^ 32)") auto
  have "repe_cmpsb (Suc n) k u zf ms md = repe_cmpsb (Suc n) k u True ms md" by simp
  then show ?thesis using assms(2,4) n unfolding match_def n(1) by (auto simp: repe_cmpsb_ok simp del: repe_cmpsb.simps)
qed

section \<open>32-bit accesses\<close>

lemma load_store32: "load32 (store32 a v m) a = v"
proof -
  have "load16 (store32 a v m) (a + 2) = ucast (drop_bit 16 v)" "load16 (store32 a v m) a = ucast v"
    by (simp_all only: store32_def load_store16 load_store16_other)
      (subst load_store16_other, simp, rule load_store16)
  then have "load32 (store32 a v m) a = ucast (ucast v :: u16) OR push_bit 16 (ucast (ucast (drop_bit 16 v) :: u16))"
    by (simp only: load32_def)
  also have "\<dots> = v"
  proof (rule bit_word_eqI, goal_cases)
    case (1 n)
    then show ?case by (cases "n < 16") (auto simp: bit_simps)
  qed
  finally show ?thesis .
qed

lemma store32_frame: "x < a \<or> a + 4 \<le> x \<Longrightarrow> store32 a v m x = m x"
  by (auto simp: store32_def store16_frame)

lemma load16_cong: "m a = m' a' \<Longrightarrow> m (a + 1) = m' (a' + 1) \<Longrightarrow> load16 m a = load16 m' a'"
  by (simp add: load16_def)

lemma load32_cong:
  assumes "\<And>i. i < 4 \<Longrightarrow> m (a + i) = m' (a' + i)"
  shows "load32 m a = load32 m' a'"
proof -
  have "load16 m a = load16 m' a'"
    using assms [of 0] assms [of 1] by (intro load16_cong) simp_all
  moreover have "load16 m (a + 2) = load16 m' (a' + 2)"
    using assms [of 2] assms [of 3] by (intro load16_cong) (simp_all add: numeral_3_eq_3)
  ultimately show ?thesis by (simp add: load32_def)
qed

lemma stosl_zero: "stosl di 0 n m a = (if di \<le> a \<and> a < di + 4 * n then 0 else m a)"
proof (induction n arbitrary: di m)
  case (Suc n)
  have "store32 di 0 m a = (if di \<le> a \<and> a < di + 4 then 0 else m a)"
    by (auto simp: store32_def store16_def)
  then show ?case by (simp add: Suc)
qed auto

end
