(* ===== verification/Printf.thy ===== *)
theory Printf
  imports Machine
begin

text \<open>
  Formatted output (\<open>src/util.c\<close>): \<open>skip_atoi\<close>, \<open>number\<close> and \<open>vsprintf\<close>. A string is a list of characters
  without its terminator. Widths and precisions are C's \<open>int\<close>, whose overflow C leaves undefined; they are
  integers here, and the words of the arguments are read as signed where the code declares \<open>int\<close>.
\<close>

section \<open>Numbers\<close>

definition is_digit :: "char \<Rightarrow> bool" where
  "is_digit c \<longleftrightarrow> 48 \<le> (of_char c :: nat) \<and> (of_char c :: nat) \<le> 57"

fun skip_atoi :: "u32 \<Rightarrow> string \<Rightarrow> u32 \<times> string" where
  "skip_atoi i [] = (i, [])"
| "skip_atoi i (c # s) = (if is_digit c then skip_atoi (i * 10 + of_char c - 48) s else (i, c # s))"

abbreviation ZEROPAD :: u8 where "ZEROPAD \<equiv> 1"
abbreviation SIGN :: u8 where "SIGN \<equiv> 2"
abbreviation PLUS :: u8 where "PLUS \<equiv> 4"
abbreviation SPACE :: u8 where "SPACE \<equiv> 8"
abbreviation LEFT :: u8 where "LEFT \<equiv> 16"
abbreviation SPECIAL :: u8 where "SPECIAL \<equiv> 32"
abbreviation SMALL :: u8 where "SMALL \<equiv> 64"

definition upper_digits :: string where
  "upper_digits = ''0123456789ABCDEFGHIJKLMNOPQRSTUVWXYZ''"

definition lower_digits :: string where
  "lower_digits = ''0123456789abcdefghijklmnopqrstuvwxyz''"

text \<open>\<open>divl\<close> with a zero upper half: an unsigned division that leaves the remainder in \<open>edx\<close>.\<close>

definition do_div :: "u32 \<Rightarrow> nat \<Rightarrow> u32 \<times> nat" where
  "do_div n base = (of_nat (unat n div base), unat n mod base)"

text \<open>The digits in \<open>tmp\<close>, least significant first.\<close>

function tmp_digits :: "string \<Rightarrow> nat \<Rightarrow> u32 \<Rightarrow> string" where
  "tmp_digits digits base num =
     (if num = 0 \<or> base < 2 then []
      else let (q, r) = do_div num base in digits ! r # tmp_digits digits base q)"
  by auto

lemma unat_do_div: "unat (fst (do_div n base)) = unat n div base"
proof -
  have "unat n < 2 ^ 32" using unsigned_less [of n] by simp
  then have "unat n div base < 2 ^ 32" using div_le_dividend [of "unat n" base] by linarith
  then show ?thesis by (simp add: do_div_def unat_of_nat)
qed

termination tmp_digits
proof (relation "measure (\<lambda>(digits, base, num). unat num)", goal_cases)
  case (2 digits base num p q r)
  then have "unat q = unat num div base" by (metis fst_conv unat_do_div)
  moreover have "unat num div base < unat num"
    using 2 by (intro div_less_dividend) (auto simp: unat_gt_0)
  ultimately show ?case by simp
qed simp

declare tmp_digits.simps [simp del]

text \<open>\<open>while (size-- > 0) *str++ = c\<close>: what is stored, and \<open>size\<close> afterwards.\<close>

function pad :: "int \<Rightarrow> char \<Rightarrow> string \<times> int" where
  "pad n c = (if 0 < n then let (s, r) = pad (n - 1) c in (c # s, r) else ([], n - 1))"
  by auto

termination pad
  by (relation "measure (\<lambda>(n, c). nat n)") auto

text \<open>The stores of \<open>number\<close>: \<open>size\<close> is what is left of the width.\<close>

definition store_number :: "u8 \<Rightarrow> int \<Rightarrow> string \<Rightarrow> string \<Rightarrow> string \<Rightarrow> string" where
  "store_number type sz sign prefix ds =
     (let c = (if type AND ZEROPAD \<noteq> 0 then CHR ''0'' else CHR '' '');
          (s1, sz1) = (if type AND (ZEROPAD + LEFT) = 0 then pad sz (CHR '' '') else ([], sz));
          (s2, sz2) = (if type AND LEFT = 0 then pad sz1 c else ([], sz1));
          (s3, sz3) = pad sz2 (CHR '' '')
      in s1 @ sign @ prefix @ s2 @ ds @ s3)"

definition number :: "u32 \<Rightarrow> nat \<Rightarrow> int \<Rightarrow> int \<Rightarrow> u8 \<Rightarrow> string option" where
  "number num base width precision type0 =
     (let digits = (if type0 AND SMALL \<noteq> 0 then lower_digits else upper_digits);
          type = (if type0 AND LEFT \<noteq> 0 then type0 AND NOT ZEROPAD else type0)
      in if base < 2 \<or> base > 36 then None
         else
           let neg = (type AND SIGN \<noteq> 0 \<and> sint num < 0);
               sign = (if neg then ''-'' else if type AND PLUS \<noteq> 0 then ''+''
                       else if type AND SPACE \<noteq> 0 then '' '' else []);
               num1 = (if neg then - num else num);
               size1 = (if sign \<noteq> [] then width - 1 else width);
               size2 = (if type AND SPECIAL = 0 then size1 else if base = 16 then size1 - 2
                        else if base = 8 then size1 - 1 else size1);
               tmp = (if num1 = 0 then ''0'' else tmp_digits digits base num1);
               i = int (length tmp);
               precision1 = (if i > precision then i else precision);
               prefix = (if type AND SPECIAL = 0 then [] else if base = 8 then ''0''
                         else if base = 16 then [CHR ''0'', digits ! 33] else [])
           in Some (store_number type (size2 - precision1) sign prefix
                      (replicate (nat (precision1 - i)) (CHR ''0'') @ rev tmp)))"

section \<open>\<open>vsprintf\<close>\<close>

text \<open>The flags, from the character after the percent sign.\<close>

fun parse_flags :: "u8 \<Rightarrow> string \<Rightarrow> u8 \<times> string" where
  "parse_flags fl [] = (fl, [])"
| "parse_flags fl (c # s) =
     (if c = CHR ''-'' then parse_flags (fl OR LEFT) s
      else if c = CHR ''+'' then parse_flags (fl OR PLUS) s
      else if c = CHR '' '' then parse_flags (fl OR SPACE) s
      else if c = CHR ''#'' then parse_flags (fl OR SPECIAL) s
      else if c = CHR ''0'' then parse_flags (fl OR ZEROPAD) s
      else (fl, c # s))"

text \<open>
  \<open>va_arg\<close> for an integer and for a string. Reading past the arguments or with the wrong type is
  undefined in C.
\<close>

fun arg_int :: "arg list \<Rightarrow> (u32 \<times> arg list) kres" where
  "arg_int (ArgI w # as) = Inr (w, as)"
| "arg_int as = Inl Fault"

fun arg_str :: "arg list \<Rightarrow> (string \<times> arg list) kres" where
  "arg_str (ArgS t # as) = Inr (t, as)"
| "arg_str as = Inl Fault"

text \<open>The field width. The code reads the argument for a star and does not step over the star.\<close>

definition parse_width :: "u8 \<Rightarrow> string \<Rightarrow> arg list \<Rightarrow> (int \<times> u8 \<times> string \<times> arg list) kres" where
  "parse_width fl fmt as =
     (if fmt \<noteq> [] \<and> is_digit (hd fmt) then
        let (w, rest) = skip_atoi 0 fmt in Inr (sint w, fl, rest, as)
      else if fmt \<noteq> [] \<and> hd fmt = CHR ''*'' then
        bnd (arg_int as) (\<lambda>(w, as1).
          if sint w < 0 then Inr (sint (- w), fl OR LEFT, fmt, as1) else Inr (sint w, fl, fmt, as1))
      else Inr (- 1, fl, fmt, as))"

definition parse_precision :: "string \<Rightarrow> arg list \<Rightarrow> (int \<times> string \<times> arg list) kres" where
  "parse_precision fmt as =
     (if fmt \<noteq> [] \<and> hd fmt = CHR ''.'' then
        let fmt1 = tl fmt
        in bnd (if fmt1 \<noteq> [] \<and> is_digit (hd fmt1) then
                  let (w, rest) = skip_atoi 0 fmt1 in Inr (sint w, rest, as)
                else if fmt1 \<noteq> [] \<and> hd fmt1 = CHR ''*'' then
                  bnd (arg_int as) (\<lambda>(w, as1). Inr (sint w, tl fmt1, as1))
                else Inr (- 1, fmt1, as))
               (\<lambda>(p, rest, as1). Inr (if p < 0 then 0 else p, rest, as1))
      else Inr (- 1, fmt, as))"

definition skip_qualifier :: "string \<Rightarrow> string" where
  "skip_qualifier fmt = (if fmt \<noteq> [] \<and> hd fmt \<in> {CHR ''h'', CHR ''l'', CHR ''L''} then tl fmt else fmt)"

text \<open>The three kinds of conversion.\<close>

definition conv_char :: "u8 \<Rightarrow> int \<Rightarrow> arg list \<Rightarrow> (string \<times> arg list) kres" where
  "conv_char fl width as =
     bnd (arg_int as) (\<lambda>(w, as1).
       let ch = char_of (unat w mod 256);
           (s1, width1) = (if fl AND LEFT = 0 then pad (width - 1) (CHR '' '') else ([], width));
           (s2, width2) = pad (width1 - 1) (CHR '' '')
       in Inr (s1 @ ch # s2, as1))"

definition conv_string :: "u8 \<Rightarrow> int \<Rightarrow> int \<Rightarrow> arg list \<Rightarrow> (string \<times> arg list) kres" where
  "conv_string fl width precision as =
     bnd (arg_str as) (\<lambda>(t, as1).
       let len = (if precision < 0 then int (length t) else min (int (length t)) precision);
           (s1, rest) = (if fl AND LEFT = 0 then pad (width - len) (CHR '' '') else ([], width - len));
           (s2, rest2) = pad rest (CHR '' '')
       in Inr (s1 @ take (nat len) t @ s2, as1))"

definition conv_number :: "nat \<Rightarrow> int \<Rightarrow> int \<Rightarrow> u8 \<Rightarrow> arg list \<Rightarrow> (string \<times> arg list) kres" where
  "conv_number base width precision fl as =
     bnd (arg_int as) (\<lambda>(w, as1).
       case number w base width precision fl of Some t \<Rightarrow> Inr (t, as1) | None \<Rightarrow> Inl Fault)"

text \<open>
  One directive: \<open>fmt\<close> starts after the percent sign. The result is the output, the rest of the
  format and the rest of the arguments. \<open>%n\<close> stores through an argument, which the model has no memory for.
\<close>

definition conversion :: "u8 \<Rightarrow> int \<Rightarrow> int \<Rightarrow> string \<Rightarrow> arg list \<Rightarrow> (string \<times> arg list) kres" where
  "conversion fl width precision fmt as =
     (case fmt of
        [] \<Rightarrow> Inr (''%'', as)
      | c # _ \<Rightarrow>
          if c = CHR ''c'' then conv_char fl width as
          else if c = CHR ''s'' then conv_string fl width precision as
          else if c = CHR ''o'' then conv_number 8 width precision fl as
          else if c = CHR ''p'' then
            if width = - 1 then conv_number 16 8 precision (fl OR ZEROPAD) as
            else conv_number 16 width precision fl as
          else if c = CHR ''x'' then conv_number 16 width precision (fl OR SMALL) as
          else if c = CHR ''X'' then conv_number 16 width precision fl as
          else if c = CHR ''d'' \<or> c = CHR ''i'' then conv_number 10 width precision (fl OR SIGN) as
          else if c = CHR ''u'' then conv_number 10 width precision fl as
          else if c = CHR ''n'' then Inl Fault
          else Inr ((if c \<noteq> CHR ''%'' then ''%'' else []) @ [c], as))"

definition directive :: "string \<Rightarrow> arg list \<Rightarrow> (string \<times> string \<times> arg list) kres" where
  "directive fmt as =
     (let (fl, fmt1) = parse_flags 0 fmt
      in bnd (parse_width fl fmt1 as) (\<lambda>(width, fl, fmt2, as2).
         bnd (parse_precision fmt2 as2) (\<lambda>(precision, fmt3, as3).
         let fmt4 = skip_qualifier fmt3
         in bnd (conversion fl width precision fmt4 as3) (\<lambda>(out, as4). Inr (out, tl fmt4, as4)))))"

lemma length_skip_atoi: "length (snd (skip_atoi i s)) \<le> length s"
  by (induction i s rule: skip_atoi.induct) auto

lemma length_parse_flags: "length (snd (parse_flags fl s)) \<le> length s"
  by (induction fl s rule: parse_flags.induct) auto

lemma length_parse_width: "parse_width fl fmt as = Inr (w, fl', rest, as') \<Longrightarrow> length rest \<le> length fmt"
  using length_skip_atoi [of 0 fmt]
  by (auto simp: parse_width_def Let_def bnd_eq_Inr split: if_splits prod.splits)

lemma length_parse_precision: "parse_precision fmt as = Inr (p, rest, as') \<Longrightarrow> length rest \<le> length fmt"
  using length_skip_atoi [of 0 "tl fmt"]
  by (auto simp: parse_precision_def Let_def bnd_eq_Inr split: if_splits prod.splits)

lemma length_directive:
  assumes "directive fmt as = Inr (out, rest, as')" shows "length rest \<le> length fmt"
proof -
  have "length (tl (skip_qualifier f)) \<le> length f" for f by (auto simp: skip_qualifier_def)
  then show ?thesis
    using assms length_parse_flags [of 0 fmt] length_parse_width length_parse_precision
    by (fastforce simp: directive_def Let_def bnd_eq_Inr split: prod.splits intro: order_trans)
qed

function vsprintf :: "string \<Rightarrow> arg list \<Rightarrow> string kres" where
  "vsprintf [] as = Inr []"
| "vsprintf (c # fmt) as =
     (if c \<noteq> CHR ''%'' then bnd (vsprintf fmt as) (\<lambda>out. Inr (c # out))
      else bnd (directive fmt as) (\<lambda>d. bnd (vsprintf (fst (snd d)) (snd (snd d))) (\<lambda>out. Inr (fst d @ out))))"
  by pat_completeness auto

termination vsprintf
proof (relation "measure (\<lambda>(fmt, as). length fmt)", goal_cases)
  case (3 c fmt as d)
  then show ?case using length_directive [of fmt as "fst d" "fst (snd d)" "snd (snd d)"] by (simp add: case_prod_unfold)
qed auto

text \<open>\<open>printk\<close> formats into an array of 1024 bytes and hands it to \<open>puts\<close>, which stops at a null character.\<close>

definition printk_text :: "string \<Rightarrow> arg list \<Rightarrow> string kres" where
  "printk_text fmt as =
     bnd (vsprintf fmt as) (\<lambda>out.
       if length out + 1 > 1024 then Inl Fault else Inr (takeWhile (\<lambda>c. c \<noteq> CHR 0x00) out))"

section \<open>Padding and digits\<close>

lemma pad_eq: "pad n c = (replicate (nat n) c, if 0 < n then - 1 else n - 1)"
proof (induction n c rule: pad.induct)
  case (1 n c)
  then show ?case
    by (subst pad.simps) (auto simp: Suc_nat_eq_nat_zadd1 simp flip: replicate_Suc)
qed

declare pad.simps [simp del]

text \<open>The value of a digit character, and of a string of digits, most significant first.\<close>

definition digit_val :: "char \<Rightarrow> nat" where
  "digit_val c = (let n = of_char c in if n \<le> 57 then n - 48 else if n \<le> 90 then n - 55 else n - 87)"

definition digits_val :: "nat \<Rightarrow> string \<Rightarrow> nat" where
  "digits_val base s = foldl (\<lambda>v c. v * base + digit_val c) 0 s"

definition digit_set :: "string \<Rightarrow> bool" where
  "digit_set digits \<longleftrightarrow> (\<forall>i<36. digit_val (digits ! i) = i)"

lemma digit_set_map: "map digit_val digits = [0..<36] \<Longrightarrow> digit_set digits"
proof (unfold digit_set_def, intro allI impI)
  fix i :: nat
  assume m: "map digit_val digits = [0..<36]" and i: "i < 36"
  have "length digits = 36" using arg_cong [OF m, of length] by simp
  then have "digit_val (digits ! i) = map digit_val digits ! i" using i by simp
  then show "digit_val (digits ! i) = i" using i by (simp add: m)
qed

lemma digit_sets: "digit_set upper_digits" "digit_set lower_digits"
  by (rule digit_set_map, simp add: upper_digits_def lower_digits_def digit_val_def upt_rec)+

lemma digits_val_snoc: "digits_val base (s @ [c]) = digits_val base s * base + digit_val c"
  by (simp add: digits_val_def)

lemma tmp_digits_val:
  assumes "digit_set digits" "2 \<le> base" "base \<le> 36"
  shows "digits_val base (rev (tmp_digits digits base num)) = unat num"
  using assms
proof (induction digits base num rule: tmp_digits.induct)
  case (1 digits base num)
  show ?case
  proof (cases "num = 0")
    case False
    obtain q r where qr: "do_div num base = (q, r)" by fastforce
    have q: "unat q = unat num div base" using unat_do_div [of num base] qr by simp
    have r: "r = unat num mod base" using qr by (simp add: do_div_def)
    have "r < 36" using r 1(3,4) mod_less_divisor [of base "unat num"] by linarith
    then have "digit_val (digits ! r) = r" using 1(2) by (simp add: digit_set_def)
    moreover have "digits_val base (rev (tmp_digits digits base q)) = unat q"
      using 1 False qr by simp
    ultimately show ?thesis
      using False 1(3) q r by (subst tmp_digits.simps) (simp add: qr digits_val_snoc)
  qed (simp add: tmp_digits.simps [of digits base 0] digits_val_def)
qed

lemma tmp_digits_Nil: "2 \<le> base \<Longrightarrow> tmp_digits digits base num = [] \<longleftrightarrow> num = 0"
  by (subst tmp_digits.simps) (auto split: prod.splits)

section \<open>The layout of a formatted number\<close>

definition negative :: "u32 \<Rightarrow> u8 \<Rightarrow> bool" where
  "negative w fl \<longleftrightarrow> fl AND SIGN \<noteq> 0 \<and> sint w < 0"

definition sign_text :: "u32 \<Rightarrow> u8 \<Rightarrow> string" where
  "sign_text w fl = (if negative w fl then ''-'' else if fl AND PLUS \<noteq> 0 then ''+''
                     else if fl AND SPACE \<noteq> 0 then '' '' else [])"

definition prefix_text :: "nat \<Rightarrow> u8 \<Rightarrow> string" where
  "prefix_text base fl =
     (if fl AND SPECIAL = 0 then [] else if base = 8 then ''0''
      else if base = 16 then (if fl AND SMALL \<noteq> 0 then ''0x'' else ''0X'') else [])"

definition magnitude :: "u32 \<Rightarrow> u8 \<Rightarrow> u32" where
  "magnitude w fl = (if negative w fl then - w else w)"

definition digit_text :: "u32 \<Rightarrow> nat \<Rightarrow> u8 \<Rightarrow> string" where
  "digit_text n base fl =
     (if n = 0 then ''0''
      else rev (tmp_digits (if fl AND SMALL \<noteq> 0 then lower_digits else upper_digits) base n))"

lemma digit_text_val:
  assumes "2 \<le> base" "base \<le> 36" shows "digits_val base (digit_text n base fl) = unat n"
  using tmp_digits_val [OF digit_sets(1) assms] tmp_digits_val [OF digit_sets(2) assms]
  by (simp add: digit_text_def digits_val_def digit_val_def)

lemma digit_text_length: "2 \<le> base \<Longrightarrow> 0 < length (digit_text n base fl)"
  by (simp add: digit_text_def tmp_digits_Nil)

text \<open>The flags of a left-justified number lose the zero padding; no other flag changes.\<close>

lemma left_flags:
  fixes fl :: u8
  shows "(fl AND NOT ZEROPAD) AND ZEROPAD = 0"
    "(fl AND NOT ZEROPAD) AND SIGN = fl AND SIGN" "(fl AND NOT ZEROPAD) AND PLUS = fl AND PLUS"
    "(fl AND NOT ZEROPAD) AND SPACE = fl AND SPACE" "(fl AND NOT ZEROPAD) AND LEFT = fl AND LEFT"
    "(fl AND NOT ZEROPAD) AND SPECIAL = fl AND SPECIAL"
proof -
  show "(fl AND NOT ZEROPAD) AND ZEROPAD = 0" by (metis and.assoc bit.conj_cancel_left bit.conj_zero_right)
qed (simp_all add: and.assoc)

lemma flag_sum: "(fl :: u8) AND (ZEROPAD + LEFT) = 0 \<longleftrightarrow> fl AND ZEROPAD = 0 \<and> fl AND LEFT = 0"
proof -
  have "ZEROPAD + LEFT = ZEROPAD OR LEFT" by simp
  then show ?thesis by (simp only: bit.conj_disj_distrib or_eq_0_iff)
qed

text \<open>Where the padding goes, in one equation.\<close>

definition layout :: "u8 \<Rightarrow> nat \<Rightarrow> string \<Rightarrow> nat \<Rightarrow> string \<Rightarrow> string" where
  "layout fl k sg z ds =
     (if fl AND LEFT \<noteq> 0 then sg @ replicate z (CHR ''0'') @ ds @ replicate k (CHR '' '')
      else if fl AND ZEROPAD \<noteq> 0 then sg @ replicate (k + z) (CHR ''0'') @ ds
      else replicate k (CHR '' '') @ sg @ replicate z (CHR ''0'') @ ds)"

lemma length_layout: "length (layout fl k sg z ds) = k + length sg + z + length ds"
  by (simp add: layout_def)

text \<open>The flags of a left-justified number lose the zero padding, and no other flag changes.\<close>

definition eff_flags :: "u8 \<Rightarrow> u8" where
  "eff_flags fl = (if fl AND LEFT \<noteq> 0 then fl AND NOT ZEROPAD else fl)"

lemma eff_flags:
  "eff_flags fl AND SIGN = fl AND SIGN" "eff_flags fl AND PLUS = fl AND PLUS"
  "eff_flags fl AND SPACE = fl AND SPACE" "eff_flags fl AND LEFT = fl AND LEFT"
  "eff_flags fl AND SPECIAL = fl AND SPECIAL"
  "eff_flags fl AND ZEROPAD = 0 \<longleftrightarrow> fl AND ZEROPAD = 0 \<or> fl AND LEFT \<noteq> 0"
  by (cases "fl AND LEFT = 0"; simp_all only: eff_flags_def left_flags simp_thms if_True if_False)+

lemma store_number_layout:
  "store_number (eff_flags fl) sz sg px (replicate z (CHR ''0'') @ ds) = layout fl (nat sz) (sg @ px) z ds"
  unfolding store_number_def flag_sum eff_flags Let_def pad_eq layout_def
  by (cases "fl AND LEFT = 0"; cases "fl AND ZEROPAD = 0") (simp_all add: eff_flags pad_eq replicate_add)

lemma digit_33: "upper_digits ! 33 = CHR ''X''" "lower_digits ! 33 = CHR ''x''"
  by (simp_all add: upper_digits_def lower_digits_def)

lemma number_layout:
  assumes "2 \<le> base" "base \<le> 36"
  shows "number w base width precision fl =
    (let sg = sign_text w fl @ prefix_text base fl;
         ds = digit_text (magnitude w fl) base fl;
         z = nat (precision - int (length ds));
         k = nat (width - int (length sg) - max (int (length ds)) precision)
     in Some (layout fl k sg z ds))"
proof -
  define ds where "ds = digit_text (magnitude w fl) base fl"
  define px where "px = prefix_text base fl"
  have tmp: "(if magnitude w fl = 0 then ''0''
      else tmp_digits (if fl AND SMALL \<noteq> 0 then lower_digits else upper_digits) base (magnitude w fl)) = rev ds"
    by (simp add: ds_def digit_text_def)
  have px: "(if fl AND SPECIAL = 0 then [] else if base = 8 then ''0''
      else if base = 16 then [CHR ''0'', (if fl AND SMALL \<noteq> 0 then lower_digits else upper_digits) ! 33] else []) = px"
    by (simp add: px_def prefix_text_def digit_33)
  have len_sg: "(if sign_text w fl \<noteq> [] then width - 1 else width) = width - int (length (sign_text w fl))"
    by (simp add: sign_text_def)
  have len_px: "(if fl AND SPECIAL = 0 then n else if base = 16 then n - 2
      else if base = 8 then n - 1 else n) = n - int (length px)" for n
    by (simp add: px_def prefix_text_def)
  have prec: "(if precision < int (length ds) then int (length ds) else precision) = max (int (length ds)) precision"
    by simp
  have "number w base width precision fl =
    Some (store_number (eff_flags fl) (width - int (length (sign_text w fl)) - int (length px) - max (int (length ds)) precision)
      (sign_text w fl) px (replicate (nat (max (int (length ds)) precision - int (length ds))) (CHR ''0'') @ ds))"
    using assms
    unfolding number_def eff_flags_def [symmetric] Let_def
    unfolding eff_flags
    unfolding negative_def [symmetric]
    unfolding magnitude_def [symmetric] sign_text_def [symmetric]
    by (simp only: Let_def tmp px len_sg len_px length_rev rev_rev_ident prec not_less [symmetric] if_False simp_thms)
  moreover have "nat (max (int (length ds)) precision - int (length ds)) = nat (precision - int (length ds))"
    by simp
  ultimately show ?thesis
    by (simp only: store_number_layout Let_def ds_def px_def length_append of_nat_add diff_diff_eq)
qed

section \<open>Reading a number back\<close>

lemma digit_chars: "i < 10 \<Longrightarrow> is_digit (upper_digits ! i)" "i < 10 \<Longrightarrow> is_digit (lower_digits ! i)"
proof -
  have "list_all is_digit (take 10 upper_digits)" "list_all is_digit (take 10 lower_digits)"
    by (simp_all add: upper_digits_def lower_digits_def is_digit_def)
  then have "i < 10 \<Longrightarrow> is_digit (take 10 upper_digits ! i)" "i < 10 \<Longrightarrow> is_digit (take 10 lower_digits ! i)"
    by (simp_all add: list_all_length upper_digits_def lower_digits_def)
  then show "i < 10 \<Longrightarrow> is_digit (upper_digits ! i)" "i < 10 \<Longrightarrow> is_digit (lower_digits ! i)" by simp_all
qed

lemma tmp_digits_chars:
  assumes "\<And>i. i < 10 \<Longrightarrow> is_digit (digits ! i)"
  shows "\<forall>c\<in>set (tmp_digits digits 10 num). is_digit c"
  using assms
proof (induction digits "10 :: nat" num rule: tmp_digits.induct)
  case (1 digits num)
  obtain q r where qr: "do_div num 10 = (q, r)" by fastforce
  then have "r < 10" by (auto simp: do_div_def)
  then show ?case using 1 qr by (cases "num = 0") (simp_all add: tmp_digits.simps [of digits 10 num] tmp_digits.simps [of digits 10 0])
qed

lemma digit_text_chars: "\<forall>c\<in>set (digit_text n 10 fl). is_digit c"
  using tmp_digits_chars [OF digit_chars(1)] tmp_digits_chars [OF digit_chars(2)]
  by (auto simp: digit_text_def is_digit_def)

lemma of_nat_u32_cong: "a mod 2 ^ 32 = b mod 2 ^ 32 \<Longrightarrow> (of_nat a :: u32) = of_nat b"
  by (simp add: word_of_nat_eq_iff take_bit_eq_mod)

lemma foldl_digits_cong:
  fixes a b :: nat
  assumes "a mod 2 ^ 32 = b mod 2 ^ 32"
  shows "foldl (\<lambda>v c. v * 10 + digit_val c) a s mod 2 ^ 32 = foldl (\<lambda>v c. v * 10 + digit_val c) b s mod 2 ^ 32"
  using assms
proof (induction s arbitrary: a b)
  case (Cons d s)
  have "(a * 10 + digit_val d) mod 2 ^ 32 = (b * 10 + digit_val d) mod 2 ^ 32"
    using Cons.prems by (intro mod_add_cong mod_mult_cong) auto
  then show ?case using Cons.IH [of "a * 10 + digit_val d" "b * 10 + digit_val d"] by simp
qed simp

lemma skip_atoi_digits:
  assumes "\<forall>c\<in>set s. is_digit c" "rest = [] \<or> \<not> is_digit (hd rest)"
  shows "skip_atoi i (s @ rest) = (of_nat (foldl (\<lambda>v c. v * 10 + digit_val c) (unat i) s), rest)"
  using assms
proof (induction s arbitrary: i)
  case Nil
  then show ?case by (cases rest) auto
next
  case (Cons c s)
  define v where "v = unat i * 10 + digit_val c"
  have c: "of_char c = digit_val c + 48"
    using Cons.prems by (auto simp: is_digit_def digit_val_def Let_def)
  have step: "i * 10 + of_char c - 48 = (of_nat v :: u32)"
  proof -
    have "(of_char c :: u32) = of_nat (of_char c)" by (simp only: of_nat_of_char)
    then have "i * 10 + of_char c - 48 = i * 10 + of_nat (digit_val c)" by (simp add: c)
    then show ?thesis by (simp add: v_def)
  qed
  have "foldl (\<lambda>v c. v * 10 + digit_val c) (unat (of_nat v :: u32)) s mod 2 ^ 32
      = foldl (\<lambda>v c. v * 10 + digit_val c) v s mod 2 ^ 32"
    by (rule foldl_digits_cong) (simp only: unat_of_nat len_num1 len_bit0 mod_mod_trivial, simp)
  then have same: "(of_nat (foldl (\<lambda>v c. v * 10 + digit_val c) (unat (of_nat v :: u32)) s) :: u32)
      = of_nat (foldl (\<lambda>v c. v * 10 + digit_val c) v s)"
    by (rule of_nat_u32_cong)
  have "skip_atoi i ((c # s) @ rest) = skip_atoi (of_nat v) (s @ rest)" using Cons.prems step by simp
  then show ?case using Cons same by (simp add: v_def)
qed

lemma skip_atoi_text:
  assumes "rest = [] \<or> \<not> is_digit (hd rest)"
  shows "skip_atoi 0 (replicate z (CHR ''0'') @ digit_text n 10 fl @ rest) = (n, rest)"
proof -
  have z: "foldl (\<lambda>v c. v * 10 + digit_val c) 0 (replicate z (CHR ''0'')) = 0"
    by (induction z) (simp_all add: digit_val_def)
  have "foldl (\<lambda>v c. v * 10 + digit_val c) 0 (digit_text n 10 fl) = unat n"
    using digit_text_val [of 10 n fl] by (simp add: digits_val_def)
  moreover have "\<forall>c\<in>set (replicate z (CHR ''0'') @ digit_text n 10 fl). is_digit c"
    using digit_text_chars [of n fl] by (auto simp: is_digit_def)
  ultimately show ?thesis
    using skip_atoi_digits [of "replicate z (CHR ''0'') @ digit_text n 10 fl" rest 0] assms by (simp add: z)
qed

section \<open>Formats\<close>

lemma vsprintf_plain: "CHR ''%'' \<notin> set fmt \<Longrightarrow> vsprintf (fmt @ rest) as = bnd (vsprintf rest as) (\<lambda>out. Inr (fmt @ out))"
proof (induction fmt)
  case Nil
  then show ?case by (cases "vsprintf rest as") auto
next
  case (Cons c fmt)
  then show ?case by (cases "vsprintf rest as") auto
qed

lemma vsprintf_directive:
  "directive fmt as = Inr (out, rest, as1) \<Longrightarrow>
    vsprintf (CHR ''%'' # fmt) as = bnd (vsprintf rest as1) (\<lambda>o2. Inr (out @ o2))"
  by simp

lemmas directive_simps =
  directive_def parse_width_def parse_precision_def skip_qualifier_def conversion_def is_digit_def

lemma directive_d:
  "directive (CHR ''d'' # rest) (ArgI w # as) = Inr (sign_text w SIGN @ digit_text (magnitude w SIGN) 10 0, rest, as)"
proof -
  have "number w 10 (- 1) (- 1) SIGN = Some (sign_text w SIGN @ digit_text (magnitude w SIGN) 10 0)"
    using digit_text_length [of 10 "magnitude w SIGN" SIGN]
    by (simp add: number_layout Let_def layout_def prefix_text_def digit_text_def)
  then show ?thesis by (simp add: directive_simps conv_number_def)
qed

lemma directive_s: "directive (CHR ''s'' # rest) (ArgS t # as) = Inr (t, rest, as)"
  by (simp add: directive_simps conv_string_def pad_eq)

lemma directive_star: "directive (CHR ''*'' # rest) (ArgI w # as) = Inr (''%*'', rest, as)"
  by (simp add: directive_simps)

section \<open>Numbers of a fixed width\<close>

lemma tmp_digits_fixed:
  assumes "2 \<le> base" "unat n < base ^ k"
  shows "tmp_digits digits base n @ replicate (k - length (tmp_digits digits base n)) (digits ! 0) =
    map (\<lambda>i. digits ! (unat n div base ^ i mod base)) [0..<k]"
  using assms(2)
proof (induction k arbitrary: n)
  case 0
  then show ?case by (simp add: tmp_digits_Nil assms(1) unat_eq_zero)
next
  case (Suc k)
  show ?case
  proof (cases "n = 0")
    case True
    then show ?thesis by (simp add: tmp_digits.simps [of digits base 0] map_replicate_const)
  next
    case False
    obtain q r where qr: "do_div n base = (q, r)" by fastforce
    have q: "unat q = unat n div base" using unat_do_div [of n base] qr by simp
    have "unat q < base ^ k" using Suc.prems by (simp add: q less_mult_imp_div_less mult.commute)
    then have IH: "tmp_digits digits base q @ replicate (k - length (tmp_digits digits base q)) (digits ! 0) =
      map (\<lambda>i. digits ! (unat n div base ^ Suc i mod base)) [0..<k]"
      using Suc.IH [of q] by (simp add: q div_mult2_eq)
    have "r = unat n mod base" using qr by (simp add: do_div_def)
    then show ?thesis
      using IH False assms(1) by (simp add: tmp_digits.simps [of digits base n] qr upt_rec [of 0] map_Suc_upt [symmetric] del: upt_Suc)
  qed
qed

lemma digit_text_fixed:
  assumes "2 \<le> base" "unat n < base ^ k" "0 < k"
  shows "replicate (k - length (digit_text n base 0)) (CHR ''0'') @ digit_text n base 0 =
    map (\<lambda>i. upper_digits ! (unat n div base ^ i mod base)) (rev [0..<k])"
proof -
  have u0: "upper_digits ! 0 = CHR ''0''" by (simp add: upper_digits_def)
  show ?thesis
  proof (cases "n = 0")
    case True
    have "replicate (k - 1) (CHR ''0'') @ ''0'' = replicate k (CHR ''0'')"
      using assms(3) by (cases k) (simp_all add: replicate_append_same)
    then show ?thesis using True by (simp add: digit_text_def u0 map_replicate_const)
  next
    case False
    then show ?thesis
      using arg_cong [OF tmp_digits_fixed [OF assms(1,2), of upper_digits], of rev]
      by (simp add: digit_text_def u0 rev_map)
  qed
qed

end
