(* ===== verification/Screen.thy ===== *)
theory Screen
  imports Util Printf
begin

text \<open>
  The text console (\<open>src/scrn.c\<close>) on the bytes of the video memory: 25 rows of 80 cells of two bytes,
  the character below its attribute. The cursor of the hardware is set through the ports of the display
  controller.
\<close>

section \<open>The driver\<close>

record screen =
  vmem :: mem
  textmemptr :: nat
  attrib :: u32
  csr_x :: int
  csr_y :: int
  kern :: kst

definition outb_scr :: "u8 \<Rightarrow> nat \<Rightarrow> screen \<Rightarrow> screen" where
  "outb_scr v port s = s\<lparr>kern := outb v port (kern s)\<rparr>"

definition blank :: "screen \<Rightarrow> u32" where
  "blank s = 0x20 OR push_bit 8 (attrib s)"

definition scroll :: "screen \<Rightarrow> screen" where
  "scroll s =
     (if csr_y s \<ge> 25 then
        let temp = (word_of_int (csr_y s) - 25 + 1 :: u32);
            m1 = memcpy (textmemptr s) (textmemptr s + 2 * unat (temp * 80)) (unat ((25 - temp) * 80 * 2)) (vmem s);
            m2 = memsetw (textmemptr s + 2 * unat ((25 - temp) * 80)) (ucast (blank s)) 80 m1
        in s\<lparr>vmem := m2, csr_y := 25 - 1\<rparr>
      else s)"

definition move_csr :: "screen \<Rightarrow> screen" where
  "move_csr s =
     (let temp = (word_of_int (csr_y s * 80 + csr_x s) :: u32)
      in outb_scr (ucast temp) 0x3D5 (outb_scr 15 0x3D4
          (outb_scr (ucast (drop_bit 8 temp)) 0x3D5 (outb_scr 14 0x3D4 s))))"

definition cls :: "screen \<Rightarrow> screen" where
  "cls s =
     (let m = fold (\<lambda>i. memsetw (textmemptr s + 2 * (i * 80)) (ucast (blank s)) 80) [0..<25] (vmem s)
      in move_csr (s\<lparr>vmem := m, csr_x := 0, csr_y := 0\<rparr>))"

definition put_cell :: "u8 \<Rightarrow> screen \<Rightarrow> screen" where
  "put_cell c s =
     (let att = push_bit 8 (attrib s);
          place = nat (int (textmemptr s) + 2 * (csr_y s * 80 + csr_x s))
      in s\<lparr>vmem := store16 place (ucast (ucast c OR att)) (vmem s), csr_x := csr_x s + 1\<rparr>)"

definition putch :: "u8 \<Rightarrow> screen \<Rightarrow> screen" where
  "putch c s =
     (let s1 = (if c = 0x08 then (if csr_x s \<noteq> 0 then s\<lparr>csr_x := csr_x s - 1\<rparr> else s)
                else if c = 0x09 then s\<lparr>csr_x := (csr_x s + 8) AND NOT (8 - 1)\<rparr>
                else if c = 0x0D then s\<lparr>csr_x := 0\<rparr>
                else if c = 0x0A then s\<lparr>csr_x := 0, csr_y := csr_y s + 1\<rparr>
                else if c \<ge> 0x20 then put_cell c s
                else s);
          s2 = (if csr_x s1 \<ge> 80 then s1\<lparr>csr_x := 0, csr_y := csr_y s1 + 1\<rparr> else s1)
      in move_csr (scroll s2))"

fun puts :: "string \<Rightarrow> screen \<Rightarrow> screen" where
  "puts [] s = s"
| "puts (c # text) s = (if c = CHR 0x00 then s else puts text (putch (of_char c) s))"

definition TO_HEX :: "u32 \<Rightarrow> u8" where
  "TO_HEX i = ucast (if i \<le> 9 then 48 + i else 65 - 10 + i)"

definition putx :: "u32 \<Rightarrow> screen \<Rightarrow> screen" where
  "putx d s0 =
     (let s1 = putch (TO_HEX (drop_bit 28 (d AND 0xF0000000))) s0;
          s2 = putch (TO_HEX (drop_bit 24 (d AND 0x0F000000))) s1;
          s3 = putch (TO_HEX (drop_bit 20 (d AND 0x00F00000))) s2;
          s4 = putch (TO_HEX (drop_bit 16 (d AND 0x000F0000))) s3;
          s5 = putch (TO_HEX (drop_bit 12 (d AND 0x0000F000))) s4;
          s6 = putch (TO_HEX (drop_bit 8 (d AND 0x00000F00))) s5;
          s7 = putch (TO_HEX (drop_bit 4 (d AND 0x000000F0))) s6
      in putch (TO_HEX (d AND 0x0000000F)) s7)"

definition settextcolor :: "u8 \<Rightarrow> u8 \<Rightarrow> screen \<Rightarrow> screen" where
  "settextcolor forecolor backcolor s =
     s\<lparr>attrib := push_bit 4 (ucast backcolor) OR ucast (forecolor AND 0x0F)\<rparr>"

definition init_video :: "screen \<Rightarrow> screen" where
  "init_video s = cls (s\<lparr>textmemptr := 0xB8000\<rparr>)"

text \<open>\<open>printk\<close> to its end: the text goes to the screen.\<close>

definition printk_screen :: "string \<Rightarrow> arg list \<Rightarrow> screen \<Rightarrow> screen kres" where
  "printk_screen fmt as s = bnd (printk_text fmt as) (\<lambda>t. Inr (puts t s))"

section \<open>Cells\<close>

definition cell :: "screen \<Rightarrow> nat \<Rightarrow> nat \<Rightarrow> u16" where
  "cell s y x = load16 (vmem s) (textmemptr s + 2 * (y * 80 + x))"

definition on_screen :: "screen \<Rightarrow> bool" where
  "on_screen s \<longleftrightarrow> 0 \<le> csr_x s \<and> csr_x s < 80 \<and> 0 \<le> csr_y s \<and> csr_y s < 25"

text \<open>The console as a grid of cells with a cursor.\<close>

record terminal =
  grid :: "nat \<Rightarrow> nat \<Rightarrow> u16"
  col :: nat
  row :: nat

definition abs_screen :: "screen \<Rightarrow> terminal" where
  "abs_screen s = \<lparr>grid = (\<lambda>y x. if y < 25 \<and> x < 80 then cell s y x else 0), col = nat (csr_x s), row = nat (csr_y s)\<rparr>"

text \<open>What a character does to the grid, with the attribute byte of the console.\<close>

definition feed :: "u16 \<Rightarrow> terminal \<Rightarrow> terminal" where
  "feed a t = (if row t < 24 then t\<lparr>col := 0, row := row t + 1\<rparr>
     else t\<lparr>col := 0, grid := (\<lambda>y x. if y < 24 then grid t (y + 1) x else if y = 24 \<and> x < 80 then a OR 0x20 else 0)\<rparr>)"

definition show_char :: "u16 \<Rightarrow> u8 \<Rightarrow> terminal \<Rightarrow> terminal" where
  "show_char a c t =
     (if c = 0x0A then feed a t
      else if c = 0x0D then t\<lparr>col := 0\<rparr>
      else if c = 0x08 then t\<lparr>col := col t - 1\<rparr>
      else if c = 0x09 then (if col t < 72 then t\<lparr>col := col t div 8 * 8 + 8\<rparr> else feed a t)
      else if c < 0x20 then t
      else let t1 = t\<lparr>grid := (\<lambda>y x. if y = row t \<and> x = col t then a OR ucast c else grid t y x)\<rparr>
           in if col t < 79 then t1\<lparr>col := col t + 1\<rparr> else feed a t1)"

definition attr16 :: "screen \<Rightarrow> u16" where
  "attr16 s = ucast (push_bit 8 (attrib s))"

lemma scroll_id: "csr_y s < 25 \<Longrightarrow> scroll s = s"
  by (simp add: scroll_def)

lemma scroll_25:
  assumes "csr_y s = 25"
  shows "scroll s = s\<lparr>vmem := memsetw (textmemptr s + 3840) (ucast (blank s)) 80
      (memcpy (textmemptr s) (textmemptr s + 160) 3840 (vmem s)), csr_y := 24\<rparr>"
  using assms by (simp add: scroll_def Let_def)

lemma move_csr_fields [simp]:
  "vmem (move_csr s) = vmem s" "textmemptr (move_csr s) = textmemptr s" "attrib (move_csr s) = attrib s"
  "csr_x (move_csr s) = csr_x s" "csr_y (move_csr s) = csr_y s"
  by (simp_all add: move_csr_def outb_scr_def Let_def)

lemma scroll_cells:
  assumes "csr_y s = 25" "y < 25" "x < 80"
  shows "cell (scroll s) y x = (if y < 24 then cell s (y + 1) x else ucast (blank s))"
proof (cases "y < 24")
  case True
  have "a \<in> {textmemptr s + 2 * (y * 80 + x), textmemptr s + 2 * (y * 80 + x) + 1} \<Longrightarrow>
      memsetw (textmemptr s + 3840) v 80 (memcpy (textmemptr s) (textmemptr s + 160) 3840 (vmem s)) a = vmem s (a + 160)" for a v
    using True assms(3) by (subst memsetw_frame) (auto simp: memcpy_ok add.commute)
  then show ?thesis using True assms by (simp add: cell_def scroll_25 load16_def algebra_simps)
next
  case False
  then have y: "y = 24" using assms by simp
  have "cell (scroll s) y x = ucast (blank s)"
    unfolding cell_def scroll_25 [OF assms(1)] by simp (rule memsetw_at [OF assms(3)], simp add: y)
  then show ?thesis using y by simp
qed

lemma blank_attr16: "ucast (blank s) = (attr16 s OR 0x20 :: u16)"
  unfolding blank_def attr16_def by (simp add: unsigned_or_eq or.commute)

lemma put_cell_eq:
  assumes "csr_x s = int i" "csr_y s = int j"
  shows "put_cell c s =
    s\<lparr>vmem := store16 (textmemptr s + 2 * (j * 80 + i)) (attr16 s OR ucast c) (vmem s), csr_x := int i + 1\<rparr>"
proof -
  have place: "nat (int (textmemptr s) + 2 * (int j * 80 + int i)) = textmemptr s + 2 * (j * 80 + i)"
    by simp
  have val: "(ucast (ucast c OR push_bit 8 (attrib s)) :: u16) = attr16 s OR ucast c"
    unfolding attr16_def by (rule bit_word_eqI) (auto simp: bit_simps)
  show ?thesis unfolding put_cell_def Let_def assms place val ..
qed

lemma on_screenE:
  assumes "on_screen s"
  obtains i j where "csr_x s = int i" "csr_y s = int j" "i < 80" "j < 25"
  using assms by (auto simp: on_screen_def) (metis nat_0_le nat_less_iff)

lemma cell_upd: "cell (s\<lparr>vmem := m, csr_x := i\<rparr>) y x = load16 m (textmemptr s + 2 * (y * 80 + x))"
  by (simp add: cell_def)

lemma cell_index:
  fixes x i y j :: nat
  assumes "x < 80" "i < 80"
  shows "y * 80 + x = j * 80 + i \<longleftrightarrow> y = j \<and> x = i"
proof -
  have "(y * 80 + x) div 80 = y" "(j * 80 + i) div 80 = j" using assms by simp_all
  then show ?thesis by (metis add_left_cancel)
qed

lemma cells_apart: "a \<noteq> b \<Longrightarrow> p + 2 * a + 1 < p + 2 * b \<or> p + 2 * b + 1 < p + 2 * a" for a b p :: nat
  by arith

lemma put_cell_cells:
  assumes "on_screen s" "y < 25" "x < 80"
  shows "cell (put_cell c s) y x = (if y = nat (csr_y s) \<and> x = nat (csr_x s) then attr16 s OR ucast c else cell s y x)"
proof -
  obtain i j where ij: "csr_x s = int i" "csr_y s = int j" "i < 80" "j < 25" by (rule on_screenE [OF assms(1)])
  show ?thesis
  proof (cases "y = j \<and> x = i")
    case True
    have "cell (put_cell c s) j i = attr16 s OR ucast c"
      unfolding put_cell_eq [OF ij(1,2)] cell_upd by (rule load_store16)
    then show ?thesis using True by (simp add: ij)
  next
    case False
    then have "y * 80 + x \<noteq> j * 80 + i" using cell_index [OF assms(3) ij(3)] by blast
    then have "textmemptr s + 2 * (y * 80 + x) + 1 < textmemptr s + 2 * (j * 80 + i) \<or>
        textmemptr s + 2 * (j * 80 + i) + 1 < textmemptr s + 2 * (y * 80 + x)"
      by (rule cells_apart)
    then have "cell (put_cell c s) y x = cell s y x"
      unfolding put_cell_eq [OF ij(1,2)] cell_upd cell_def [of s] by (rule load_store16_other)
    then show ?thesis using False by (auto simp: ij)
  qed
qed

section \<open>The console implements the grid\<close>

lemma abs_screen_eqI:
  assumes "\<And>y x. y < 25 \<Longrightarrow> x < 80 \<Longrightarrow> cell s y x = grid t y x" "\<And>y x. \<not> (y < 25 \<and> x < 80) \<Longrightarrow> grid t y x = 0"
    "nat (csr_x s) = col t" "nat (csr_y s) = row t"
  shows "abs_screen s = t"
proof -
  have "grid (abs_screen s) = grid t" using assms(1,2) by (intro ext) (auto simp: abs_screen_def)
  then show ?thesis using assms(3,4) by (simp add: abs_screen_def)
qed

lemma abs_screen_sel [simp]:
  "grid (abs_screen s) y x = (if y < 25 \<and> x < 80 then cell s y x else 0)"
  "col (abs_screen s) = nat (csr_x s)" "row (abs_screen s) = nat (csr_y s)"
  by (simp_all add: abs_screen_def)

lemma cell_move_csr [simp]: "cell (move_csr s) = cell s"
  by (simp add: cell_def fun_eq_iff)

lemma scroll_csr [simp]: "csr_x (scroll s) = csr_x s" "csr_y s = 25 \<Longrightarrow> csr_y (scroll s) = 24"
  by (simp_all add: scroll_def Let_def)

lemma abs_move_csr [simp]: "abs_screen (move_csr s) = abs_screen s"
  by (simp add: abs_screen_def cong: if_cong)

lemma cell_csr [simp]: "cell (s\<lparr>csr_x := i, csr_y := j\<rparr>) = cell s" "cell (s\<lparr>csr_x := i\<rparr>) = cell s"
  by (simp_all add: cell_def fun_eq_iff)

lemma attr16_csr [simp]: "attr16 (s\<lparr>csr_x := i, csr_y := j\<rparr>) = attr16 s"
  by (simp add: attr16_def)

lemma scroll_feed:
  assumes "0 \<le> csr_y s" "csr_y s < 25"
  shows "abs_screen (scroll (s\<lparr>csr_x := 0, csr_y := csr_y s + 1\<rparr>)) = feed (attr16 s) (abs_screen s)"
proof (cases "csr_y s = 24")
  case True
  then show ?thesis
    by (intro abs_screen_eqI) (auto simp: scroll_cells blank_attr16 feed_def)
next
  case False
  then show ?thesis using assms
    by (intro abs_screen_eqI) (auto simp: scroll_id feed_def)
qed

lemma tab_stop: "0 \<le> i \<Longrightarrow> (i + 8) AND NOT 7 = i div 8 * 8 + (8 :: int)"
proof -
  have "(i + 8) AND NOT 7 = (i + 8) AND NOT (mask 3)" by (simp add: mask_eq_exp_minus_1)
  also have "\<dots> = push_bit 3 (drop_bit 3 (i + 8))" by (rule bit_eqI) (auto simp: bit_simps)
  also have "\<dots> = (i + 8) div 8 * 8" by (simp add: push_bit_eq_mult drop_bit_eq_div)
  also have "(i + 8) div 8 = i div 8 + 1" by simp
  finally show ?thesis by (simp add: distrib_right)
qed

text \<open>What a character leaves alone: the attribute, the place of the screen, and the memory around it.\<close>

definition screen_frame :: "screen \<Rightarrow> screen \<Rightarrow> bool" where
  "screen_frame s t \<longleftrightarrow> textmemptr t = textmemptr s \<and> attrib t = attrib s \<and>
     (\<forall>a. a < textmemptr s \<or> textmemptr s + 4000 \<le> a \<longrightarrow> vmem t a = vmem s a)"

lemma screen_frame_refl [simp]: "screen_frame s s"
  by (simp add: screen_frame_def)

lemma screen_frame_trans [trans]: "screen_frame s t \<Longrightarrow> screen_frame t u \<Longrightarrow> screen_frame s u"
  by (simp add: screen_frame_def)

lemma frame_move_csr: "screen_frame s (move_csr s)"
  by (simp add: screen_frame_def)

lemma frame_scroll: "csr_y s \<le> 25 \<Longrightarrow> screen_frame s (scroll s)"
  by (cases "csr_y s = 25") (auto simp: screen_frame_def scroll_25 scroll_id memsetw_frame memcpy_ok)

lemma frame_put_cell: "on_screen s \<Longrightarrow> screen_frame s (put_cell c s)"
  by (erule on_screenE) (auto simp: put_cell_eq screen_frame_def store16_frame)

text \<open>The end of \<open>putch\<close>: the line break at the margin, the scrolling and the hardware cursor.\<close>

definition finish :: "screen \<Rightarrow> screen" where
  "finish s = move_csr (scroll (if csr_x s \<ge> 80 then s\<lparr>csr_x := 0, csr_y := csr_y s + 1\<rparr> else s))"

definition after_char :: "u8 \<Rightarrow> screen \<Rightarrow> screen" where
  "after_char c s =
     (if c = 0x08 then (if csr_x s \<noteq> 0 then s\<lparr>csr_x := csr_x s - 1\<rparr> else s)
      else if c = 0x09 then s\<lparr>csr_x := (csr_x s + 8) AND NOT (8 - 1)\<rparr>
      else if c = 0x0D then s\<lparr>csr_x := 0\<rparr>
      else if c = 0x0A then s\<lparr>csr_x := 0, csr_y := csr_y s + 1\<rparr>
      else if c \<ge> 0x20 then put_cell c s
      else s)"

lemma putch_finish: "putch c s = finish (after_char c s)"
  by (simp only: putch_def finish_def after_char_def Let_def)

lemma finish_inside:
  assumes "on_screen s"
  shows "abs_screen (finish s) = abs_screen s" "on_screen (finish s)" "screen_frame s (finish s)"
  using assms by (auto simp: finish_def on_screen_def scroll_id frame_move_csr)

lemma finish_break:
  assumes "0 \<le> csr_y s" "csr_y s < 25" "t = s\<lparr>csr_x := 0, csr_y := csr_y s + 1\<rparr>"
    "t' = t \<or> t' = s \<and> 80 \<le> csr_x s"
  shows "abs_screen (finish t') = feed (attr16 s) (abs_screen s)" "on_screen (finish t')" "screen_frame s (finish t')"
proof -
  have f: "finish t' = move_csr (scroll t)" using assms(3,4) by (auto simp: finish_def)
  show "abs_screen (finish t') = feed (attr16 s) (abs_screen s)"
    unfolding f using scroll_feed [OF assms(1,2)] assms(3) by simp
  show "on_screen (finish t')"
    unfolding f using assms(1-3) by (cases "csr_y s = 24") (auto simp: on_screen_def scroll_id)
  have "screen_frame s t" using assms(3) by (simp add: screen_frame_def)
  also have "screen_frame t (scroll t)" using assms(2,3) by (intro frame_scroll) simp
  also have "screen_frame (scroll t) (move_csr (scroll t))" by (rule frame_move_csr)
  finally show "screen_frame s (finish t')" by (simp add: f)
qed

lemma abs_put_cell:
  assumes "on_screen s"
  shows "abs_screen (put_cell c s) =
    (abs_screen s)\<lparr>grid := (\<lambda>y x. if y = row (abs_screen s) \<and> x = col (abs_screen s) then attr16 s OR ucast c
       else grid (abs_screen s) y x), col := col (abs_screen s) + 1\<rparr>"
    "csr_x (put_cell c s) = csr_x s + 1" "csr_y (put_cell c s) = csr_y s"
    "textmemptr (put_cell c s) = textmemptr s" "attr16 (put_cell c s) = attr16 s"
proof -
  obtain i j where ij: "csr_x s = int i" "csr_y s = int j" "i < 80" "j < 25" by (rule on_screenE [OF assms])
  have sel: "csr_x (put_cell c s) = csr_x s + 1" "csr_y (put_cell c s) = csr_y s"
    by (simp_all add: put_cell_def Let_def)
  then show "csr_x (put_cell c s) = csr_x s + 1" "csr_y (put_cell c s) = csr_y s" by simp_all
  show "textmemptr (put_cell c s) = textmemptr s" "attr16 (put_cell c s) = attr16 s"
    by (simp_all add: put_cell_def Let_def attr16_def)
  show "abs_screen (put_cell c s) =
    (abs_screen s)\<lparr>grid := (\<lambda>y x. if y = row (abs_screen s) \<and> x = col (abs_screen s) then attr16 s OR ucast c
       else grid (abs_screen s) y x), col := col (abs_screen s) + 1\<rparr>"
    using ij by (intro abs_screen_eqI) (auto simp: sel put_cell_cells assms)
qed

lemma feed_upd: "feed a (t\<lparr>col := i\<rparr>) = feed a t"
  by (simp add: feed_def cong: if_cong)

lemma putch_step:
  assumes "on_screen s"
  shows "abs_screen (putch c s) = show_char (attr16 s) c (abs_screen s) \<and> on_screen (putch c s) \<and> screen_frame s (putch c s)"
proof -
  obtain i j where ij: "csr_x s = int i" "csr_y s = int j" "i < 80" "j < 25" by (rule on_screenE [OF assms])
  have abs_col: "abs_screen (s\<lparr>csr_x := int k\<rparr>) = (abs_screen s)\<lparr>col := k\<rparr>" for k
    by (simp add: abs_screen_def cong: if_cong)
  have inside: ?thesis
    if "after_char c s = t" "on_screen t" "screen_frame s t" "abs_screen t = show_char (attr16 s) c (abs_screen s)" for t
    using finish_inside [OF that(2)] that(1,3,4) screen_frame_trans [OF that(3)] by (simp add: putch_finish)
  have y: "0 \<le> csr_y s" "csr_y s < 25" using ij by simp_all
  note brk = finish_break [OF y refl]
  consider "c = 0x08" | "c = 0x09" | "c = 0x0D" | "c = 0x0A" | "c \<ge> 0x20"
    | "c \<noteq> 0x08" "c \<noteq> 0x09" "c \<noteq> 0x0D" "c \<noteq> 0x0A" "\<not> c \<ge> 0x20" by blast
  then show ?thesis
  proof cases
    case 1
    have "after_char c s = s\<lparr>csr_x := int (i - 1)\<rparr>" using 1 ij by (simp add: after_char_def of_nat_diff)
    then show ?thesis
      by (rule inside) (use 1 ij in \<open>auto simp: on_screen_def screen_frame_def abs_col show_char_def\<close>)
  next
    case 2
    have tab: "after_char c s = s\<lparr>csr_x := int (i div 8 * 8 + 8)\<rparr>"
      using 2 ij tab_stop [of "int i"] by (simp add: after_char_def zdiv_int)
    show ?thesis
    proof (cases "i < 72")
      case True
      then have "i div 8 * 8 + 8 < 80" by linarith
      then show ?thesis
        by (intro inside [OF tab]) (use True 2 ij abs_col [of "i div 8 * 8 + 8"] in \<open>auto simp: on_screen_def screen_frame_def show_char_def\<close>)
    next
      case False
      then have "i div 8 = 9" using ij by simp
      then have "finish (after_char c s) = finish (s\<lparr>csr_x := 0, csr_y := csr_y s + 1\<rparr>)"
        using tab by (simp add: finish_def)
      then show ?thesis
        using brk [OF disjI1 [OF refl]] False 2 ij by (simp add: putch_finish show_char_def)
    qed
  next
    case 3
    have "after_char c s = s\<lparr>csr_x := int 0\<rparr>" using 3 by (simp add: after_char_def)
    then show ?thesis
      by (rule inside) (use 3 ij in \<open>auto simp: on_screen_def screen_frame_def abs_col [of 0, simplified] show_char_def\<close>)
  next
    case 4
    then have "after_char c s = s\<lparr>csr_x := 0, csr_y := csr_y s + 1\<rparr>" by (simp add: after_char_def)
    then show ?thesis using brk [OF disjI1 [OF refl]] 4 by (simp add: putch_finish show_char_def)
  next
    case 5
    then have ne: "c \<noteq> 0x08" "c \<noteq> 0x09" "c \<noteq> 0x0D" "c \<noteq> 0x0A" "\<not> c < 0x20" by auto
    have put: "after_char c s = put_cell c s" using 5 ne by (simp add: after_char_def)
    note p = abs_put_cell [OF assms, of c]
    show ?thesis
    proof (cases "i < 79")
      case True
      then show ?thesis
        by (intro inside [OF put]) (use p ij ne frame_put_cell [OF assms] in \<open>auto simp: on_screen_def show_char_def Let_def\<close>)
    next
      case False
      let ?q = "put_cell c s"
      have b: "abs_screen (finish ?q) = feed (attr16 ?q) (abs_screen ?q)" "on_screen (finish ?q)" "screen_frame ?q (finish ?q)"
        using finish_break [of ?q "?q\<lparr>csr_x := 0, csr_y := csr_y ?q + 1\<rparr>" ?q] y p(2,3) ij False by auto
      have "abs_screen (finish ?q) = show_char (attr16 s) c (abs_screen s)"
        using ne False ij by (simp add: b(1) p feed_upd show_char_def Let_def)
      then show ?thesis using b(2,3) screen_frame_trans [OF frame_put_cell [OF assms] b(3)] by (simp add: putch_finish put)
    qed
  next
    case 6
    then have "after_char c s = s" by (simp add: after_char_def)
    then show ?thesis
      by (rule inside) (use 6 assms in \<open>auto simp: show_char_def\<close>)
  qed
qed

text \<open>Strings.\<close>

fun show_text :: "u16 \<Rightarrow> string \<Rightarrow> terminal \<Rightarrow> terminal" where
  "show_text a [] t = t"
| "show_text a (c # text) t = (if c = CHR 0x00 then t else show_text a text (show_char a (of_char c) t))"

lemma frame_attr16: "screen_frame s t \<Longrightarrow> attr16 t = attr16 s"
  by (simp add: screen_frame_def attr16_def)

lemma puts_step:
  "on_screen s \<Longrightarrow>
    abs_screen (puts str s) = show_text (attr16 s) str (abs_screen s) \<and> on_screen (puts str s) \<and> screen_frame s (puts str s)"
proof (induction str arbitrary: s)
  case (Cons c str)
  show ?case
  proof (cases "c = CHR 0x00")
    case False
    have p: "abs_screen (putch (of_char c) s) = show_char (attr16 s) (of_char c) (abs_screen s)"
      "on_screen (putch (of_char c) s)" "screen_frame s (putch (of_char c) s)"
      using putch_step [OF Cons.prems, of "of_char c"] by simp_all
    then show ?thesis
      using Cons.IH [OF p(2)] False screen_frame_trans [OF p(3)] by (simp add: frame_attr16 [OF p(3)])
  qed (simp add: Cons.prems)
qed simp

lemma cell_fold_lines:
  assumes "y < 25" "x < 80" "n \<le> 25"
  shows "load16 (fold (\<lambda>i. memsetw (p + 2 * (i * 80)) v 80) [0..<n] m) (p + 2 * (y * 80 + x)) =
    (if y < n then v else load16 m (p + 2 * (y * 80 + x)))"
  using assms(3)
proof (induction n)
  case (Suc n)
  let ?m = "fold (\<lambda>i. memsetw (p + 2 * (i * 80)) v 80) [0..<n] m"
  have other: "load16 (memsetw (p + 2 * (n * 80)) v 80 ?m) (p + 2 * (y * 80 + x)) = load16 ?m (p + 2 * (y * 80 + x))"
    if "y \<noteq> n"
  proof -
    have "p + 2 * (y * 80 + x) + 1 < p + 2 * (n * 80) \<or> p + 2 * (n * 80) + 2 * 80 \<le> p + 2 * (y * 80 + x)"
      using that assms(2) by (cases "y < n") auto
    then show ?thesis by (auto simp: load16_def memsetw_frame)
  qed
  show ?case
  proof (cases "y = n")
    case True
    then show ?thesis using assms(2) by (simp add: memsetw_at)
  qed (use Suc other in auto)
qed simp

lemma fold_lines_frame:
  "n \<le> 25 \<Longrightarrow> a < p \<or> p + 4000 \<le> a \<Longrightarrow> fold (\<lambda>i. memsetw (p + 2 * (i * 80)) v 80) [0..<n] m a = m a"
  by (induction n) (auto simp: memsetw_frame)

lemma cls_ok:
  "abs_screen (cls s) = \<lparr>grid = (\<lambda>y x. if y < 25 \<and> x < 80 then attr16 s OR 0x20 else 0), col = 0, row = 0\<rparr>"
  "on_screen (cls s)" "screen_frame s (cls s)"
proof -
  have "cell (cls s) y x = attr16 s OR 0x20" if "y < 25" "x < 80" for y x
    using cell_fold_lines [OF that, of 25] that by (simp add: cell_def cls_def Let_def blank_attr16 [symmetric] del: upt_Suc)
  then show "abs_screen (cls s) = \<lparr>grid = (\<lambda>y x. if y < 25 \<and> x < 80 then attr16 s OR 0x20 else 0), col = 0, row = 0\<rparr>"
    by (intro abs_screen_eqI) (auto simp: cls_def Let_def)
  show "on_screen (cls s)" by (simp add: on_screen_def cls_def Let_def)
  show "screen_frame s (cls s)"
    using fold_lines_frame [of 25] by (simp add: screen_frame_def cls_def Let_def)
qed

section \<open>The cursor of the hardware\<close>

text \<open>The position the display controller was last told: the bytes written to its registers 14 and 15.\<close>

definition cursor_told :: "screen \<Rightarrow> nat option" where
  "cursor_told s = (case io_out (hw (kern s)) of
     Outb p1 lo # Outb p2 r1 # Outb p3 hi # Outb p4 r2 # _ \<Rightarrow>
       if p1 = 0x3D5 \<and> p2 = 0x3D4 \<and> p3 = 0x3D5 \<and> p4 = 0x3D4 \<and> r1 = 15 \<and> r2 = 14
       then Some (unat hi * 256 + unat lo) else None
   | _ \<Rightarrow> None)"

lemma unat_drop8: "unat (drop_bit 8 (w :: u32)) = unat w div 256"
  by (simp only: unat_drop_bit_eq) (simp add: drop_bit_eq_div)

lemma cursor_move:
  assumes "csr_x s = int i" "csr_y s = int j" "i < 80" "j < 25"
  shows "cursor_told (move_csr s) = Some (80 * j + i)"
proof -
  define n where "n = j * 80 + i"
  have n: "n < 2000" using assms(3,4) by (simp add: n_def)
  have w: "(word_of_int (csr_y s * 80 + csr_x s) :: u32) = of_nat n" by (simp add: assms n_def)
  have "unat (ucast (of_nat n :: u32) :: u8) = n mod 256"
    using n by (simp add: unsigned_ucast_eq take_bit_eq_mod unat_of_nat)
  moreover have "unat (ucast (drop_bit 8 (of_nat n :: u32)) :: u8) = n div 256"
    using n by (simp add: unsigned_ucast_eq take_bit_eq_mod unat_of_nat unat_drop8 del: drop_bit_numeral_minus_bit1)
  ultimately show ?thesis
    unfolding move_csr_def Let_def w by (simp add: cursor_told_def outb_scr_def outb_def) (simp add: n_def)
qed

lemma cursor_putch:
  assumes "on_screen s"
  shows "cursor_told (putch c s) = Some (80 * row (abs_screen (putch c s)) + col (abs_screen (putch c s)))"
proof -
  obtain t where t: "putch c s = move_csr t" unfolding putch_finish finish_def by blast
  have "on_screen (putch c s)" using putch_step [OF assms] by blast
  then have "on_screen t" by (simp add: t on_screen_def)
  then obtain i j where ij: "csr_x t = int i" "csr_y t = int j" "i < 80" "j < 25" by (rule on_screenE)
  show ?thesis using cursor_move [OF ij] ij by (simp add: t)
qed

section \<open>Hexadecimal output\<close>

lemma TO_HEX_digit: "n < 16 \<Longrightarrow> TO_HEX (of_nat n) = of_char (upper_digits ! n)"
proof -
  have "list_all (\<lambda>n. TO_HEX (of_nat n) = of_char (upper_digits ! n)) [0..<16]"
    by (simp add: upt_rec TO_HEX_def upper_digits_def)
  then show "n < 16 \<Longrightarrow> TO_HEX (of_nat n) = of_char (upper_digits ! n)" by (simp add: list_all_iff)
qed

lemma nibble:
  assumes "k \<le> 28"
  shows "drop_bit k (d AND push_bit k 15) = (of_nat (unat d div 2 ^ k mod 16) :: u32)"
proof -
  have "drop_bit k (d AND push_bit k (mask 4)) = take_bit 4 (drop_bit k d)"
    using assms by (intro bit_word_eqI) (auto simp: bit_simps)
  moreover have "unat (take_bit 4 (drop_bit k d)) = unat d div 2 ^ k mod 16"
    by (simp only: unsigned_take_bit_eq unat_drop_bit_eq) (simp add: drop_bit_eq_div take_bit_eq_mod)
  moreover have "(15 :: u32) = mask 4" by (simp add: mask_eq_exp_minus_1)
  ultimately show ?thesis by (metis of_nat_unat ucast_id)
qed

lemma hex_char: "k \<le> 28 \<Longrightarrow> TO_HEX (drop_bit k (d AND push_bit k 15)) = of_char (upper_digits ! (unat d div 2 ^ k mod 16))"
  unfolding nibble by (rule TO_HEX_digit) simp

lemma putx_number: "\<exists>t. number d 16 8 8 0 = Some t \<and> putx d s = puts t s"
proof -
  define t where "t = map (\<lambda>i. upper_digits ! (unat d div 16 ^ i mod 16)) (rev [0..<8])"
  have d: "unat d < 16 ^ 8" using unsigned_less [of d] by simp
  have "number d 16 8 8 0 = Some (replicate (8 - length (digit_text d 16 0)) (CHR ''0'') @ digit_text d 16 0)"
    by (simp add: number_layout Let_def layout_def sign_text_def prefix_text_def magnitude_def negative_def nat_diff_distrib')
  then have num: "number d 16 8 8 0 = Some t" using digit_text_fixed [of 16 d 8] d by (simp add: t_def)
  have nz: "upper_digits ! (n mod 16) \<noteq> CHR 0x00" for n
  proof -
    have "list_all (\<lambda>n. upper_digits ! n \<noteq> CHR 0x00) [0..<16]" by (simp add: upt_rec upper_digits_def)
    then show ?thesis by (simp add: list_all_iff)
  qed
  have "putx d s = puts t s"
    unfolding putx_def t_def Let_def
    using hex_char [of 28 d] hex_char [of 24 d] hex_char [of 20 d] hex_char [of 16 d] hex_char [of 12 d]
      hex_char [of 8 d] hex_char [of 4 d] hex_char [of 0 d]
    by (simp add: upt_rec nz)
  then show ?thesis using num by blast
qed

end
