(* ===== verification/Fs_State.thy ===== *)
theory Fs_State
  imports Buffer Util
begin

text \<open>
  The state of the file system (\<open>src/inc/fs.h\<close>): the table of inodes in memory and the table of super
  blocks, above the kernel state of the block layer, and the sequencing of file-system code.
\<close>

section \<open>Data\<close>

record m_inode =
  i_mode :: u16
  i_uid :: u16
  i_size :: u32
  i_mtime :: u32
  i_gid :: u8
  i_nlinks :: u8
  i_zone :: "nat \<Rightarrow> u16"
  i_atime :: u32
  i_ctime :: u32
  i_dev :: u16
  i_num :: u16
  i_count :: u16
  i_lock :: u8
  i_dirt :: u8
  i_pipe :: u8
  i_mount :: u8
  i_seek :: u8
  i_update :: u8

definition zero_inode :: m_inode where
  "zero_inode = \<lparr>i_mode = 0, i_uid = 0, i_size = 0, i_mtime = 0, i_gid = 0, i_nlinks = 0, i_zone = (\<lambda>_. 0),
     i_atime = 0, i_ctime = 0, i_dev = 0, i_num = 0, i_count = 0, i_lock = 0, i_dirt = 0, i_pipe = 0, i_mount = 0,
     i_seek = 0, i_update = 0\<rparr>"

record super_block =
  s_ninodes :: u16
  s_nzones :: u16
  s_imap_blocks :: u16
  s_zmap_blocks :: u16
  s_firstdatazone :: u16
  s_log_zone_size :: u16
  s_max_size :: u32
  s_magic :: u16
  s_imap :: "nat \<Rightarrow> ptr"
  s_zmap :: "nat \<Rightarrow> ptr"
  s_dev :: u16
  s_isup :: ptr
  s_imount :: ptr
  s_time :: u32
  s_lock :: u8
  s_rd_only :: u8
  s_dirt :: u8

definition zero_super :: super_block where
  "zero_super = \<lparr>s_ninodes = 0, s_nzones = 0, s_imap_blocks = 0, s_zmap_blocks = 0, s_firstdatazone = 0,
     s_log_zone_size = 0, s_max_size = 0, s_magic = 0, s_imap = (\<lambda>_. NULL), s_zmap = (\<lambda>_. NULL), s_dev = 0,
     s_isup = NULL, s_imount = NULL, s_time = 0, s_lock = 0, s_rd_only = 0, s_dirt = 0\<rparr>"

text \<open>
  Inodes and super blocks are numbered from 1; entry \<open>NULL\<close> of a table is what an access through a null
  pointer finds in low memory. \<open>last_inode\<close> is the static variable of \<open>new_inode\<close>.
\<close>

record fsys =
  krn :: kst
  inode_list :: "ptr \<Rightarrow> m_inode"
  super_block_list :: "ptr \<Rightarrow> super_block"
  last_inode :: ptr

abbreviation NR_INODE :: nat where "NR_INODE \<equiv> 32"
abbreviation NR_SUPER :: nat where "NR_SUPER \<equiv> 8"
abbreviation ROOT_INO :: u32 where "ROOT_INO \<equiv> 1"
abbreviation ROOT_DEV :: u32 where "ROOT_DEV \<equiv> 0x301"
abbreviation I_MAP_SLOTS :: nat where "I_MAP_SLOTS \<equiv> 8"
abbreviation Z_MAP_SLOTS :: nat where "Z_MAP_SLOTS \<equiv> 8"
abbreviation SUPER_MAGIC :: u16 where "SUPER_MAGIC \<equiv> 0x138F"
abbreviation INODES_PER_BLOCK :: nat where "INODES_PER_BLOCK \<equiv> 32"
abbreviation DIR_ENTRIES_PER_BLOCK :: nat where "DIR_ENTRIES_PER_BLOCK \<equiv> 32"

section \<open>Sequencing\<close>

type_synonym 'a fsm = "fsys \<Rightarrow> ('a \<times> fsys) kres"

definition ret :: "'a \<Rightarrow> 'a fsm" where
  "ret x s = Inr (x, s)"

definition fbind :: "'a fsm \<Rightarrow> ('a \<Rightarrow> 'b fsm) \<Rightarrow> 'b fsm" where
  "fbind m f s = bnd (m s) (\<lambda>r. f (fst r) (snd r))"

definition fstop :: "stop \<Rightarrow> 'a fsm" where
  "fstop e s = Inl e"

definition gets :: "(fsys \<Rightarrow> 'a) \<Rightarrow> 'a fsm" where
  "gets f s = Inr (f s, s)"

definition upd_inode :: "ptr \<Rightarrow> (m_inode \<Rightarrow> m_inode) \<Rightarrow> unit fsm" where
  "upd_inode p f s = Inr ((), s\<lparr>inode_list := (inode_list s)(p := f (inode_list s p))\<rparr>)"

definition upd_super :: "ptr \<Rightarrow> (super_block \<Rightarrow> super_block) \<Rightarrow> unit fsm" where
  "upd_super p f s = Inr ((), s\<lparr>super_block_list := (super_block_list s)(p := f (super_block_list s p))\<rparr>)"

abbreviation ino :: "ptr \<Rightarrow> (m_inode \<Rightarrow> 'a) \<Rightarrow> 'a fsm" where
  "ino p f \<equiv> gets (\<lambda>s. f (inode_list s p))"

abbreviation sbk :: "ptr \<Rightarrow> (super_block \<Rightarrow> 'a) \<Rightarrow> 'a fsm" where
  "sbk p f \<equiv> gets (\<lambda>s. f (super_block_list s p))"

text \<open>Operations of the block layer.\<close>

definition kcall :: "(kst \<Rightarrow> ('a \<times> kst) kres) \<Rightarrow> 'a fsm" where
  "kcall f s = bnd (f (krn s)) (\<lambda>r. Inr (fst r, s\<lparr>krn := snd r\<rparr>))"

definition kproc :: "(kst \<Rightarrow> kst kres) \<Rightarrow> unit fsm" where
  "kproc f s = bnd (f (krn s)) (\<lambda>k. Inr ((), s\<lparr>krn := k\<rparr>))"

definition kmod :: "(kst \<Rightarrow> kst) \<Rightarrow> unit fsm" where
  "kmod f s = Inr ((), s\<lparr>krn := f (krn s)\<rparr>)"

text \<open>The block of a buffer. A null buffer head has an unknown data pointer.\<close>

definition get_data :: "ptr \<Rightarrow> (mem \<Rightarrow> 'a) \<Rightarrow> 'a fsm" where
  "get_data bh f s = (if bh = NULL then Inl Fault else Inr (f (bdata (cache (krn s)) bh), s))"

definition upd_data :: "ptr \<Rightarrow> (mem \<Rightarrow> mem) \<Rightarrow> unit fsm" where
  "upd_data bh f s =
     (if bh = NULL then Inl Fault
      else Inr ((), s\<lparr>krn := (krn s)\<lparr>cache := (cache (krn s))\<lparr>bdata := (bdata (cache (krn s)))(bh := f (bdata (cache (krn s)) bh))\<rparr>\<rparr>\<rparr>))"

definition upd_head :: "ptr \<Rightarrow> (buffer_head \<Rightarrow> buffer_head) \<Rightarrow> unit fsm" where
  "upd_head bh f = kmod (upd_bh bh f)"

definition fprintk :: "string \<Rightarrow> arg list \<Rightarrow> unit fsm" where
  "fprintk fmt as = kmod (printk fmt as)"

abbreviation fpanic :: "string \<Rightarrow> 'a fsm" where
  "fpanic msg \<equiv> fstop (Panic msg)"

text \<open>The debugging output of the file system is compiled in: \<open>src/inc/system.h\<close> defines \<open>_DEBUG_FLAG_FS\<close>.\<close>

abbreviation debug2 :: "string \<Rightarrow> u32 \<Rightarrow> u32 \<Rightarrow> unit fsm" where
  "debug2 fmt a b \<equiv> fprintk fmt [ArgI a, ArgI b]"

text \<open>A statement under a condition, and a loop over a list of values.\<close>

definition iff_do :: "bool \<Rightarrow> unit fsm \<Rightarrow> unit fsm" where
  "iff_do c m = (if c then m else ret ())"

fun each :: "'a list \<Rightarrow> ('a \<Rightarrow> unit fsm) \<Rightarrow> unit fsm" where
  "each [] f = ret ()"
| "each (x # xs) f = fbind (f x) (\<lambda>_. each xs f)"

section \<open>Rules\<close>

lemma fbind_cong [fundef_cong]:
  "m = m' \<Longrightarrow> s = s' \<Longrightarrow> (\<And>r. m' s' = Inr r \<Longrightarrow> f (fst r) (snd r) = f' (fst r) (snd r)) \<Longrightarrow> fbind m f s = fbind m' f' s'"
  unfolding fbind_def by (intro bnd_cong) auto

lemma fsm_simps [simp]:
  "ret v s = Inr (v, s)" "fstop e s = Inl e" "gets g s = Inr (g s, s)"
  "fbind m f s = bnd (m s) (\<lambda>r. f (fst r) (snd r))"
  "kmod h s = Inr ((), s\<lparr>krn := h (krn s)\<rparr>)"
  "iff_do c n s = (if c then n s else Inr ((), s))"
  "upd_inode p fi s = Inr ((), s\<lparr>inode_list := (inode_list s)(p := fi (inode_list s p))\<rparr>)"
  "upd_super p fs s = Inr ((), s\<lparr>super_block_list := (super_block_list s)(p := fs (super_block_list s p))\<rparr>)"
  by (simp_all add: ret_def fstop_def gets_def fbind_def kmod_def iff_do_def upd_inode_def upd_super_def)

lemma fsm_if [simp]: "(if c then m else n) (s :: fsys) = (if c then m s else n s)"
  by simp

lemma fsm_wp [simp, wp_rules]:
  "wp (kcall kf s) E Q \<longleftrightarrow> wp (kf (krn s)) E (\<lambda>r. Q (fst r, s\<lparr>krn := snd r\<rparr>))"
  "wp (kproc kp s) E Q' \<longleftrightarrow> wp (kp (krn s)) E (\<lambda>k. Q' ((), s\<lparr>krn := k\<rparr>))"
  by (simp_all add: kcall_def kproc_def)

text \<open>Two states with the same tables.\<close>

definition same_tables :: "fsys \<Rightarrow> fsys \<Rightarrow> bool" where
  "same_tables s t \<longleftrightarrow> inode_list t = inode_list s \<and> super_block_list t = super_block_list s \<and> last_inode t = last_inode s"

lemma same_tables_refl [simp]: "same_tables s s"
  by (simp add: same_tables_def)

lemma same_tables_krn [simp]: "same_tables s (s\<lparr>krn := k\<rparr>)"
  by (simp add: same_tables_def)

lemma same_tables_trans [trans]: "same_tables s t \<Longrightarrow> same_tables t u \<Longrightarrow> same_tables s u"
  by (simp add: same_tables_def)

end
