(* ===== verification/Super.thy ===== *)
theory Super
  imports Fs_State
begin

text \<open>
  Super blocks, their bitmaps of inodes and zones (\<open>src/fs/super.c\<close>) and the allocation of zones
  (\<open>src/fs/zone.c\<close>).
\<close>

section \<open>Bit operations on a block\<close>

text \<open>\<open>set_bit\<close> and \<open>clear_bit\<close>: the old bit, respectively its complement, and the block.\<close>

definition bit_of :: "mem \<Rightarrow> nat \<Rightarrow> bool" where
  "bit_of m nr = bit (m (nr div 8)) (nr mod 8)"

definition btsl :: "nat \<Rightarrow> mem \<Rightarrow> bool \<times> mem" where
  "btsl nr m = (bit_of m nr, m(nr div 8 := m (nr div 8) OR push_bit (nr mod 8) 1))"

definition btrl :: "nat \<Rightarrow> mem \<Rightarrow> bool \<times> mem" where
  "btrl nr m = (\<not> bit_of m nr, m(nr div 8 := m (nr div 8) AND NOT (push_bit (nr mod 8) 1)))"

text \<open>\<open>bsfl\<close> on a word that is not zero: the number of its lowest set bit.\<close>

fun bsf :: "nat \<Rightarrow> nat \<Rightarrow> u32 \<Rightarrow> nat" where
  "bsf 0 i w = i"
| "bsf (Suc n) i w = (if bit w i then i else bsf n (i + 1) w)"

text \<open>\<open>find_first_zero\<close>: \<open>n\<close> words are left, \<open>ecx\<close> is the number of bits before them.\<close>

fun ffz_words :: "nat \<Rightarrow> nat \<Rightarrow> mem \<Rightarrow> nat" where
  "ffz_words 0 ecx m = ecx"
| "ffz_words (Suc n) ecx m =
     (let eax = NOT (load32 m (ecx div 8)) in if eax = 0 then ffz_words n (ecx + 32) m else ecx + bsf 31 0 eax)"

definition find_first_zero :: "mem \<Rightarrow> nat" where
  "find_first_zero m = ffz_words 256 0 m"

section \<open>Locks\<close>

text \<open>
  With the calls to \<open>sleep_on\<close> commented out, the assignment is the body of the loop of \<open>lock_super\<close>: a
  super block that is free is not locked, and one that is locked spins for ever.
\<close>

definition lock_super :: "ptr \<Rightarrow> unit fsm" where
  "lock_super sb =
     fbind (kmod cli) (\<lambda>_.
     fbind (sbk sb s_lock) (\<lambda>l.
     if l \<noteq> 0 then fstop Hang else kmod sti))"

definition unlock_super :: "ptr \<Rightarrow> unit fsm" where
  "unlock_super sb =
     fbind (kmod cli) (\<lambda>_.
     fbind (upd_super sb (\<lambda>b. b\<lparr>s_lock := 0\<rparr>)) (\<lambda>_.
     kmod sti))"

text \<open>No interrupt handler touches a super block: while it waits, the condition does not change.\<close>

definition wait_on_super :: "ptr \<Rightarrow> unit fsm" where
  "wait_on_super sb =
     fbind (sbk sb s_lock) (\<lambda>l.
     kproc (\<lambda>k. spin_until (\<lambda>_. l = 0) sti (cli k)))"

section \<open>The table of super blocks\<close>

text \<open>\<open>find_super\<close>: a pass takes nine steps; starting over costs fuel.\<close>

fun super_scan :: "nat \<Rightarrow> ptr \<Rightarrow> u32 \<Rightarrow> ptr fsm" where
  "super_scan 0 p dev = fstop Hang"
| "super_scan (Suc n) p dev =
     (if p > NR_SUPER then ret NULL
      else fbind (sbk p s_dev) (\<lambda>d.
        if ucast d = dev
        then fbind (wait_on_super p) (\<lambda>_.
             fbind (sbk p s_dev) (\<lambda>d.
             if ucast d = dev then ret p else super_scan n 1 dev))
        else super_scan n (p + 1) dev))"

definition find_super :: "u32 \<Rightarrow> ptr fsm" where
  "find_super dev = (if dev = 0 then ret NULL else super_scan 9 1 dev)"

definition put_maps :: "ptr \<Rightarrow> unit fsm" where
  "put_maps sb =
     fbind (each [0..<I_MAP_SLOTS] (\<lambda>i. fbind (sbk sb (\<lambda>b. s_imap b i)) (\<lambda>bh. kproc (put_buff bh)))) (\<lambda>_.
     each [0..<Z_MAP_SLOTS] (\<lambda>i. fbind (sbk sb (\<lambda>b. s_zmap b i)) (\<lambda>bh. kproc (put_buff bh))))"

definition put_super :: "u32 \<Rightarrow> unit fsm" where
  "put_super dev =
     (if dev = ROOT_DEV then fprintk (''root diskette changed: prepare for armageddon'' @ NLCR) []
      else fbind (find_super dev) (\<lambda>sb.
        if sb = NULL then ret ()
        else fbind (sbk sb s_imount) (\<lambda>m.
        if m \<noteq> NULL then fprintk (''Mounted disk changed - tssk, tssk'' @ NLCR) []
        else fbind (lock_super sb) (\<lambda>_.
             fbind (upd_super sb (\<lambda>b. b\<lparr>s_dev := 0\<rparr>)) (\<lambda>_.
             fbind (put_maps sb) (\<lambda>_.
             unlock_super sb))))))"

text \<open>The first slot without a device, from \<open>p\<close>, with \<open>n\<close> slots left.\<close>

fun free_super :: "nat \<Rightarrow> ptr \<Rightarrow> ptr fsm" where
  "free_super 0 p = ret NULL"
| "free_super (Suc n) p = fbind (sbk p s_dev) (\<lambda>d. if d = 0 then ret p else free_super n (p + 1))"

text \<open>The copy of \<open>struct d_super_block\<close> from the start of a block.\<close>

definition decode_super :: "mem \<Rightarrow> super_block \<Rightarrow> super_block" where
  "decode_super m b = b\<lparr>s_ninodes := load16 m 0, s_nzones := load16 m 2, s_imap_blocks := load16 m 4,
     s_zmap_blocks := load16 m 6, s_firstdatazone := load16 m 8, s_log_zone_size := load16 m 10,
     s_max_size := load32 m 12, s_magic := load16 m 16\<rparr>"

text \<open>
  The loops that read the map blocks: slot \<open>i\<close> with \<open>n\<close> slots to go, from disk block \<open>block\<close>. \<open>store\<close> is the
  assignment to slot \<open>i\<close>. A slot above 7 is outside the array.
\<close>

fun read_map :: "(nat \<Rightarrow> ptr \<Rightarrow> unit fsm) \<Rightarrow> u32 \<Rightarrow> nat \<Rightarrow> nat \<Rightarrow> u32 \<Rightarrow> u32 fsm" where
  "read_map store dev 0 i block = ret block"
| "read_map store dev (Suc n) i block =
     (if i \<ge> 8 then fstop Fault
      else fbind (kcall (read_buff dev block)) (\<lambda>bh.
           fbind (store i bh) (\<lambda>_.
           if bh \<noteq> NULL then read_map store dev n (i + 1) (block + 1) else ret block)))"

definition set_imap :: "ptr \<Rightarrow> nat \<Rightarrow> ptr \<Rightarrow> unit fsm" where
  "set_imap sb i bh = upd_super sb (\<lambda>b. b\<lparr>s_imap := (s_imap b)(i := bh)\<rparr>)"

definition set_zmap :: "ptr \<Rightarrow> nat \<Rightarrow> ptr \<Rightarrow> unit fsm" where
  "set_zmap sb i bh = upd_super sb (\<lambda>b. b\<lparr>s_zmap := (s_zmap b)(i := bh)\<rparr>)"

definition read_maps :: "ptr \<Rightarrow> u32 \<Rightarrow> ptr fsm" where
  "read_maps sb dev =
     fbind (upd_super sb (\<lambda>b. b\<lparr>s_imap := (\<lambda>_. NULL), s_zmap := (\<lambda>_. NULL)\<rparr>)) (\<lambda>_.
     fbind (sbk sb (\<lambda>b. (unat (s_imap_blocks b), unat (s_zmap_blocks b)))) (\<lambda>(ni, nz).
     fbind (read_map (set_imap sb) dev ni 0 2) (\<lambda>block.
     fbind (read_map (set_zmap sb) dev nz 0 block) (\<lambda>block.
     if unat block \<noteq> 2 + ni + nz
     then fbind (put_maps sb) (\<lambda>_.
          fbind (upd_super sb (\<lambda>b. b\<lparr>s_dev := 0\<rparr>)) (\<lambda>_.
          fbind (unlock_super sb) (\<lambda>_. ret NULL)))
     else fbind (sbk sb (\<lambda>b. (s_imap b 0, s_zmap b 0))) (\<lambda>(im, zm).
          fbind (upd_data im (\<lambda>m. m(0 := m 0 OR 1))) (\<lambda>_.
          fbind (upd_data zm (\<lambda>m. m(0 := m 0 OR 1))) (\<lambda>_.
          fbind (unlock_super sb) (\<lambda>_. ret sb))))))))"

definition print_super :: "ptr \<Rightarrow> unit fsm" where
  "print_super sb =
     fbind (sbk sb id) (\<lambda>b.
     fprintk (''debug_fs:read super block ok dev[0x%x] ni[%d] nz[%d] imb[%d] zmb[%d]'' @ NLCR @ ''           ###fd[%d] ms[%d] magic[0x%x]'' @ NL)
       [ArgI (ucast (s_dev b)), ArgI (ucast (s_ninodes b)), ArgI (ucast (s_nzones b)), ArgI (ucast (s_imap_blocks b)),
        ArgI (ucast (s_zmap_blocks b)), ArgI (ucast (s_firstdatazone b)), ArgI (s_max_size b), ArgI (ucast (s_magic b))])"

text \<open>The rest of \<open>read_super\<close> once slot \<open>sb\<close> is the device's.\<close>

definition fill_super :: "ptr \<Rightarrow> u32 \<Rightarrow> ptr fsm" where
  "fill_super sb dev =
     fbind (lock_super sb) (\<lambda>_.
     fbind (kcall (read_buff dev 1)) (\<lambda>bh.
     if bh = NULL
     then fbind (upd_super sb (\<lambda>b. b\<lparr>s_dev := 0\<rparr>)) (\<lambda>_.
          fbind (unlock_super sb) (\<lambda>_. ret NULL))
     else fbind (get_data bh decode_super) (\<lambda>copy.
          fbind (upd_super sb copy) (\<lambda>_.
          fbind (print_super sb) (\<lambda>_.
          fbind (kproc (put_buff bh)) (\<lambda>_.
          fbind (sbk sb s_magic) (\<lambda>magic.
          if magic \<noteq> SUPER_MAGIC
          then fbind (upd_super sb (\<lambda>b. b\<lparr>s_dev := 0\<rparr>)) (\<lambda>_.
               fbind (unlock_super sb) (\<lambda>_. ret NULL))
          else read_maps sb dev)))))))"

definition read_super :: "u32 \<Rightarrow> ptr fsm" where
  "read_super dev =
     (if dev = 0 then ret NULL
      else fbind (find_super dev) (\<lambda>sb.
      if sb \<noteq> NULL then ret sb
      else fbind (free_super NR_SUPER 1) (\<lambda>sb.
      if sb = NULL then ret NULL
      else fbind (upd_super sb (\<lambda>b. b\<lparr>s_dev := ucast dev, s_isup := NULL, s_imount := NULL, s_time := 0,
                                     s_rd_only := 0, s_dirt := 0\<rparr>)) (\<lambda>_.
           fill_super sb dev))))"

section \<open>Allocation in the bitmaps\<close>

text \<open>
  The search: the map blocks from slot \<open>i\<close>, with \<open>n\<close> to go; the result is the last buffer looked at, the bit
  and the slot. A missing buffer leaves the bit as it was.
\<close>

fun map_scan :: "(nat \<Rightarrow> ptr) \<Rightarrow> nat \<Rightarrow> nat \<Rightarrow> ptr option \<Rightarrow> nat \<Rightarrow> (ptr option \<times> nat \<times> nat) fsm" where
  "map_scan slots 0 i bh j = ret (bh, j, i)"
| "map_scan slots (Suc n) i bh j =
     (if i \<ge> 8 then fstop Fault
      else if slots i \<noteq> NULL
      then fbind (get_data (slots i) find_first_zero) (\<lambda>j.
           if j < 8192 then ret (Some (slots i), j, i) else map_scan slots n (i + 1) (Some (slots i)) j)
      else map_scan slots n (i + 1) (Some NULL) j)"

text \<open>Marking the bit. \<open>bh\<close> is uninitialised if there are no map blocks at all.\<close>

definition mark_bit :: "ptr \<Rightarrow> nat \<Rightarrow> string \<Rightarrow> unit fsm" where
  "mark_bit bh j msg =
     fbind (get_data bh (btsl j)) (\<lambda>r.
     fbind (upd_data bh (\<lambda>_. snd r)) (\<lambda>_.
     if fst r then fpanic msg else upd_head bh (\<lambda>b. b\<lparr>b_dirt := 1\<rparr>)))"

definition add_inode_bitmap :: "u32 \<Rightarrow> nat fsm" where
  "add_inode_bitmap dev =
     fbind (find_super dev) (\<lambda>sb.
     if sb = NULL then fpanic ''trying to get add_inode_bitmap from nonexistant device''
     else fbind (sbk sb id) (\<lambda>b.
          fbind (map_scan (s_imap b) (unat (s_imap_blocks b)) 0 None 8192) (\<lambda>(bh, j, i).
          let imap_pos = j + i * 8192
          in case bh of None \<Rightarrow> fstop Fault
             | Some bh \<Rightarrow>
                 if bh = NULL \<or> j \<ge> 8192 \<or> imap_pos > unat (s_ninodes b)
                 then fbind (fprintk (''can'' @ [CHR 0x27] @ ''t find empty inode map entry'') []) (\<lambda>_. ret 0)
                 else fbind (mark_bit bh j ''add_inode_bitmap: bit already set'') (\<lambda>_. ret imap_pos))))"

definition add_zone_bitmap :: "u32 \<Rightarrow> int fsm" where
  "add_zone_bitmap dev =
     fbind (find_super dev) (\<lambda>sb.
     if sb = NULL then fpanic ''trying to get new block from nonexistant device''
     else fbind (sbk sb id) (\<lambda>b.
          fbind (map_scan (s_zmap b) (unat (s_zmap_blocks b)) 0 None 8192) (\<lambda>(bh, j, i).
          let block = int (j + i * 8192) - 1 + int (unat (s_firstdatazone b))
          in case bh of None \<Rightarrow> fstop Fault
             | Some bh \<Rightarrow>
                 if bh = NULL \<or> j \<ge> 8192 \<or> block > int (unat (s_nzones b))
                 then fbind (fprintk (''can'' @ [CHR 0x27] @ ''t find empty zone map entry'') []) (\<lambda>_. ret 0)
                 else fbind (mark_bit bh j ''new_block: bit already set'') (\<lambda>_. ret block))))"

text \<open>Clearing the bit of number \<open>n\<close> in the map \<open>slots\<close>.\<close>

definition clear_map_bit :: "(nat \<Rightarrow> ptr) \<Rightarrow> u32 \<Rightarrow> string \<Rightarrow> string \<Rightarrow> unit fsm" where
  "clear_map_bit slots n nomap msg =
     (let i = unat (drop_bit 13 n)
      in if i \<ge> 8 then fstop Fault
         else if slots i = NULL then fpanic nomap
         else fbind (get_data (slots i) (btrl (unat (n AND 8191)))) (\<lambda>r.
              fbind (upd_data (slots i) (\<lambda>_. snd r)) (\<lambda>_.
              fbind (iff_do (fst r) (fprintk msg [])) (\<lambda>_.
              upd_head (slots i) (\<lambda>b. b\<lparr>b_dirt := 1\<rparr>)))))"

definition free_inode_bitmap :: "u32 \<Rightarrow> u32 \<Rightarrow> unit fsm" where
  "free_inode_bitmap dev inode_num =
     fbind (find_super dev) (\<lambda>sb.
     if sb = NULL then fpanic ''trying to free inode on nonexistent device''
     else fbind (sbk sb id) (\<lambda>b.
          if inode_num < 1 \<or> inode_num > ucast (s_ninodes b) then fpanic ''trying to free inode 0 or nonexistant inode''
          else clear_map_bit (s_imap b) inode_num ''nonexistent imap in superblock''
                 (''free_inode: bit already cleared.'' @ NLCR)))"

definition free_zone_bitmap :: "u32 \<Rightarrow> u32 \<Rightarrow> unit fsm" where
  "free_zone_bitmap dev block =
     fbind (find_super dev) (\<lambda>sb.
     if sb = NULL then fpanic ''trying to free block on nonexistent device''
     else fbind (sbk sb id) (\<lambda>b.
          if block < ucast (s_firstdatazone b) \<or> block \<ge> ucast (s_nzones b) then fpanic ''trying to free block not in datazone''
          else clear_map_bit (s_zmap b) (block - (ucast (s_firstdatazone b) - 1)) ''nonexistent zmap in superblock''
                 (''free_block: bit already cleared.'' @ NLCR)))"

definition testSuper :: "unit fsm" where
  "testSuper =
     fbind (read_super 0x301) (\<lambda>_.
     fbind (add_inode_bitmap 0x301) (\<lambda>i1.
     fbind (add_inode_bitmap 0x301) (\<lambda>i2.
     fbind (add_inode_bitmap 0x301) (\<lambda>i3.
     fbind (add_zone_bitmap 0x301) (\<lambda>b1.
     fbind (add_zone_bitmap 0x301) (\<lambda>b2.
     fbind (add_zone_bitmap 0x301) (\<lambda>b3.
     fbind (kproc (sync_dev 0x301)) (\<lambda>_.
     fbind (each [i1, i2, i3] (\<lambda>i. free_inode_bitmap 0x301 (of_nat i))) (\<lambda>_.
     fbind (each [b1, b2, b3] (\<lambda>b. free_zone_bitmap 0x301 (word_of_int b))) (\<lambda>_.
     kproc (sync_dev 0x301)))))))))))"

end
