(* ===== verification/Zone.thy ===== *)
theory Zone
  imports Super
begin

text \<open>Zones (\<open>src/fs/zone.c\<close>).\<close>

definition delete_block :: "u32 \<Rightarrow> u32 \<Rightarrow> unit fsm" where
  "delete_block dev block =
     fbind (kproc (invalidate_buff dev block)) (\<lambda>_. free_zone_bitmap dev block)"

definition clear_block :: "mem \<Rightarrow> mem" where
  "clear_block m = stosl 0 0 (1024 div 4) m"

text \<open>The result of \<open>add_zone_bitmap\<close> is not tested: without a free zone, block 0 is cleared.\<close>

definition create_block :: "u32 \<Rightarrow> u32 fsm" where
  "create_block dev =
     fbind (add_zone_bitmap dev) (\<lambda>block.
     fbind (kcall (get_buff dev (word_of_int block))) (\<lambda>bh.
     if bh = NULL then fpanic ''new_block: cannot get block''
     else fbind (gets (\<lambda>s. b_count (bh_of (krn s) bh))) (\<lambda>c.
     if c \<noteq> 1 then fpanic ''new block: count is != 1''
     else fbind (upd_data bh clear_block) (\<lambda>_.
          fbind (upd_head bh (\<lambda>b. b\<lparr>b_uptodate := 1, b_dirt := 1\<rparr>)) (\<lambda>_.
          fbind (kproc (put_buff bh)) (\<lambda>_.
          ret (word_of_int block)))))))"

text \<open>
  The entries of an indirect block: \<open>del\<close> is what is done with each entry that is not 0. The block is read
  again for each entry.
\<close>

definition each_entry :: "ptr \<Rightarrow> (u32 \<Rightarrow> unit fsm) \<Rightarrow> unit fsm" where
  "each_entry bh del =
     each [0..<512] (\<lambda>i. fbind (get_data bh (\<lambda>m. load16 m (2 * i))) (\<lambda>z. iff_do (z \<noteq> 0) (del (ucast z))))"

definition delete_indirecte_block :: "u32 \<Rightarrow> u32 \<Rightarrow> unit fsm" where
  "delete_indirecte_block dev block =
     (if block = 0 then ret ()
      else fbind (kcall (read_buff dev block)) (\<lambda>bh.
           fbind (iff_do (bh \<noteq> NULL)
             (fbind (each_entry bh (delete_block dev)) (\<lambda>_. kproc (put_buff bh)))) (\<lambda>_.
           delete_block dev block)))"

definition delete_double_indirecte_block :: "u32 \<Rightarrow> u32 \<Rightarrow> unit fsm" where
  "delete_double_indirecte_block dev block =
     (if block = 0 then ret ()
      else fbind (kcall (read_buff dev block)) (\<lambda>bh.
           fbind (iff_do (bh \<noteq> NULL)
             (fbind (each_entry bh (delete_indirecte_block dev)) (\<lambda>_. kproc (put_buff bh)))) (\<lambda>_.
           delete_block dev block)))"

end
