(* ===== verification/Inode.thy ===== *)
theory Inode
  imports Zone
begin

text \<open>
  Inodes (\<open>src/fs/inode.c\<close>): the table of inodes in memory, their copies in the buffers, their creation
  and deletion, and the map from the blocks of a file to the blocks of the device.
\<close>

section \<open>Locks\<close>

definition wait_on_inode :: "ptr \<Rightarrow> unit fsm" where
  "wait_on_inode inode =
     fbind (ino inode i_lock) (\<lambda>l.
     kproc (\<lambda>k. spin_until (\<lambda>_. l = 0) sti (cli k)))"

text \<open>As in \<open>lock_super\<close>, the assignment is the body of the loop.\<close>

definition lock_inode :: "ptr \<Rightarrow> unit fsm" where
  "lock_inode inode =
     fbind (kmod cli) (\<lambda>_.
     fbind (ino inode i_lock) (\<lambda>l.
     if l \<noteq> 0 then fstop Hang else kmod sti))"

definition unlock_inode :: "ptr \<Rightarrow> unit fsm" where
  "unlock_inode inode = upd_inode inode (\<lambda>i. i\<lparr>i_lock := 0\<rparr>)"

section \<open>Inodes on the disk\<close>

text \<open>\<open>struct d_inode\<close>, 32 bytes, which are also the first 32 bytes of \<open>struct m_inode\<close>.\<close>

definition encode_inode :: "nat \<Rightarrow> m_inode \<Rightarrow> mem \<Rightarrow> mem" where
  "encode_inode off i m0 =
     (let m1 = store16 off (i_mode i) m0;
          m2 = store16 (off + 2) (i_uid i) m1;
          m3 = store32 (off + 4) (i_size i) m2;
          m4 = store32 (off + 8) (i_mtime i) m3;
          m5 = m4(off + 12 := i_gid i, off + 13 := i_nlinks i)
      in fold (\<lambda>z. store16 (off + 14 + 2 * z) (i_zone i z)) [0..<9] m5)"

definition decode_inode :: "nat \<Rightarrow> mem \<Rightarrow> m_inode \<Rightarrow> m_inode" where
  "decode_inode off m i = i\<lparr>i_mode := load16 m off, i_uid := load16 m (off + 2), i_size := load32 m (off + 4),
     i_mtime := load32 m (off + 8), i_gid := m (off + 12), i_nlinks := m (off + 13),
     i_zone := (\<lambda>z. if z < 9 then load16 m (off + 14 + 2 * z) else i_zone i z)\<rparr>"

text \<open>The block of an inode and its place there. The subtraction is an unsigned one: inode 0 wraps around.\<close>

definition inode_block :: "super_block \<Rightarrow> m_inode \<Rightarrow> u32" where
  "inode_block b i = 2 + ucast (s_imap_blocks b) + ucast (s_zmap_blocks b) + (ucast (i_num i) - 1) div 32"

definition inode_offset :: "m_inode \<Rightarrow> nat" where
  "inode_offset i = 32 * (unat (ucast (i_num i) - 1 :: u32) mod INODES_PER_BLOCK)"

definition read_inode_from_buff :: "ptr \<Rightarrow> unit fsm" where
  "read_inode_from_buff inode =
     fbind (lock_inode inode) (\<lambda>_.
     fbind (ino inode i_dev) (\<lambda>dev.
     fbind (find_super (ucast dev)) (\<lambda>sb.
     if sb = NULL then fpanic ''trying to read inode without dev''
     else fbind (sbk sb id) (\<lambda>b.
          fbind (ino inode id) (\<lambda>i.
          fbind (kcall (read_buff (ucast dev) (inode_block b i))) (\<lambda>bh.
          if bh = NULL then fpanic ''unable to read i-node block''
          else fbind (get_data bh (decode_inode (inode_offset i))) (\<lambda>copy.
               fbind (upd_inode inode copy) (\<lambda>_.
               fbind (kproc (put_buff bh)) (\<lambda>_.
               unlock_inode inode)))))))))"

definition sync_inode_to_buff :: "ptr \<Rightarrow> unit fsm" where
  "sync_inode_to_buff inode =
     fbind (ino inode id) (\<lambda>i.
     fbind (debug2 (''debug_fs:sync inode[0x%x:0x%x]'' @ NL) (ucast (i_dev i)) (ucast (i_num i))) (\<lambda>_.
     fbind (lock_inode inode) (\<lambda>_.
     if i_dirt i = 0 \<or> i_dev i = 0 then unlock_inode inode
     else fbind (find_super (ucast (i_dev i))) (\<lambda>sb.
     if sb = NULL then fpanic ''trying to write inode without device''
     else fbind (sbk sb id) (\<lambda>b.
          fbind (kcall (read_buff (ucast (i_dev i)) (inode_block b i))) (\<lambda>bh.
          if bh = NULL then fpanic ''unable to read i-node block''
          else fbind (upd_data bh (encode_inode (inode_offset i) i)) (\<lambda>_.
               fbind (upd_head bh (\<lambda>b. b\<lparr>b_dirt := 1\<rparr>)) (\<lambda>_.
               fbind (upd_inode inode (\<lambda>i. i\<lparr>i_dirt := 0\<rparr>)) (\<lambda>_.
               fbind (kproc (put_buff bh)) (\<lambda>_.
               unlock_inode inode))))))))))"

definition sync_all_inodes_to_buff :: "unit fsm" where
  "sync_all_inodes_to_buff =
     fbind (fprintk (''debug_fs:sync all inodes'' @ NL) []) (\<lambda>_.
     each [1..<NR_INODE + 1] (\<lambda>p.
       fbind (wait_on_inode p) (\<lambda>_.
       fbind (ino p id) (\<lambda>i.
       iff_do (i_dirt i \<noteq> 0 \<and> i_pipe i = 0) (sync_inode_to_buff p)))))"

section \<open>The table of inodes\<close>

text \<open>The super block that is mounted on inode \<open>p\<close>, from slot \<open>i\<close> with \<open>n\<close> slots to go.\<close>

fun mount_slot :: "nat \<Rightarrow> ptr \<Rightarrow> ptr \<Rightarrow> (ptr \<Rightarrow> super_block) \<Rightarrow> ptr" where
  "mount_slot 0 i p sbs = i"
| "mount_slot (Suc n) i p sbs = (if s_imount (sbs i) = p then i else mount_slot n (i + 1) p sbs)"

text \<open>
  \<open>find_inode\<close> returns the inode and the device and number, which it changes when it crosses a mount
  point. A pass takes 33 steps at most and each of the 8 super blocks can be entered once, unless the mount
  points form a cycle, in which the loop never ends. The addresses that the message prints are logged as 0.
\<close>

fun inode_scan :: "nat \<Rightarrow> ptr \<Rightarrow> u32 \<Rightarrow> u32 \<Rightarrow> (ptr \<times> u32 \<times> u32) fsm" where
  "inode_scan 0 p dev nr = fstop Hang"
| "inode_scan (Suc n) p dev nr =
     (if p > NR_INODE then ret (NULL, dev, nr)
      else fbind (ino p id) (\<lambda>i.
        if ucast (i_dev i) \<noteq> dev \<or> ucast (i_num i) \<noteq> nr then inode_scan n (p + 1) dev nr
        else if i_mount i \<noteq> 0
        then fbind (gets (\<lambda>s. mount_slot NR_SUPER 1 p (super_block_list s))) (\<lambda>k.
             if k > NR_SUPER
             then fbind (fprintk (''Mounted inode hasn'' @ [CHR 0x27] @ ''t got sb'' @ NL) []) (\<lambda>_.
                  fbind (fprintk (''debug_fs:find inode[0x%x:0x%x]'' @ NLCR) [ArgI 0, ArgI 0]) (\<lambda>_.
                  ret (p, dev, nr)))
             else fbind (sbk k s_dev) (\<lambda>d. inode_scan n 1 (ucast d) ROOT_INO))
        else fbind (debug2 (''debug_fs:found inode[0x%x:0x%x]'' @ NLCR) dev nr) (\<lambda>_. ret (p, dev, nr))))"

definition find_inode :: "u32 \<Rightarrow> u32 \<Rightarrow> (ptr \<times> u32 \<times> u32) fsm" where
  "find_inode dev nr =
     (if dev = 0 then fpanic ''find inode with dev==0''
      else fbind (debug2 (''debug_fs: in find_inode[0x%x:0x%x]'' @ NLCR) dev nr) (\<lambda>_. inode_scan (9 * 33) 1 dev nr))"

fun retain_inode_loop :: "nat \<Rightarrow> u32 \<Rightarrow> u32 \<Rightarrow> (ptr \<times> u32 \<times> u32) fsm" where
  "retain_inode_loop 0 dev nr = fstop Hang"
| "retain_inode_loop (Suc n) dev nr =
     fbind (find_inode dev nr) (\<lambda>(p, dev, nr).
     if p = NULL then ret (NULL, dev, nr)
     else fbind (wait_on_inode p) (\<lambda>_.
          fbind (ino p id) (\<lambda>i.
          if ucast (i_dev i) \<noteq> dev \<or> ucast (i_num i) \<noteq> nr then retain_inode_loop n dev nr
          else fbind (upd_inode p (\<lambda>i. i\<lparr>i_count := i_count i + 1\<rparr>)) (\<lambda>_.
               fbind (debug2 (''debug_fs:retained inode[0x%x:0x%x]'' @ NLCR) dev nr) (\<lambda>_.
               ret (p, dev, nr))))))"

definition retain_inode :: "u32 \<Rightarrow> u32 \<Rightarrow> (ptr \<times> u32 \<times> u32) fsm" where
  "retain_inode dev nr =
     (if dev = 0 then fpanic ''retain inode with dev==0'' else retain_inode_loop 2 dev nr)"

definition inode_badness :: "m_inode \<Rightarrow> nat" where
  "inode_badness i = 2 * unat (i_dirt i) + unat (i_lock i)"

text \<open>The search of \<open>new_inode\<close>, with \<open>n\<close> inodes to go, starting after the last one looked at.\<close>

definition next_inode :: "ptr fsm" where
  "next_inode s = (let p = (if last_inode s + 1 > NR_INODE then 1 else last_inode s + 1) in Inr (p, s\<lparr>last_inode := p\<rparr>))"

fun pick_inode :: "nat \<Rightarrow> ptr \<Rightarrow> ptr fsm" where
  "pick_inode 0 best = ret best"
| "pick_inode (Suc n) best =
     fbind next_inode (\<lambda>p.
     fbind (gets (\<lambda>s. (inode_list s p, inode_list s best))) (\<lambda>(i, b).
     if i_count i = 0 \<and> (best = NULL \<or> inode_badness i < inode_badness b)
     then (if inode_badness i = 0 then ret p else pick_inode n p)
     else pick_inode n best))"

fun clean_inode :: "nat \<Rightarrow> ptr \<Rightarrow> bool fsm" where
  "clean_inode 0 p = fstop Hang"
| "clean_inode (Suc n) p =
     fbind (ino p i_dirt) (\<lambda>d.
     if d = 0 then ret True
     else fbind (wait_on_inode p) (\<lambda>_.
          fbind (sync_inode_to_buff p) (\<lambda>_.
          fbind (ino p i_count) (\<lambda>c.
          if c \<noteq> 0 then ret False else clean_inode n p))))"

definition print_inodes :: "unit fsm" where
  "print_inodes = each [1..<NR_INODE + 1] (\<lambda>p.
     fbind (ino p id) (\<lambda>i. fprintk (''%04x: %6d'' @ [CHR 0x09]) [ArgI (ucast (i_dev i)), ArgI (ucast (i_num i))]))"

text \<open>The end of \<open>new_inode\<close>: inode \<open>p\<close>, which is clean now, is given to the device and number.\<close>

definition install_inode :: "ptr \<Rightarrow> u32 \<Rightarrow> u32 \<Rightarrow> ptr fsm" where
  "install_inode p dev nr =
     fbind (find_inode dev nr) (\<lambda>(q, dev, nr).
     if q \<noteq> NULL then fbind (fprintk ''inode bad luck'' []) (\<lambda>_. ret NULL)
     else fbind (upd_inode p (\<lambda>_. zero_inode\<lparr>i_count := 1, i_dev := ucast dev, i_num := ucast nr\<rparr>)) (\<lambda>_.
          fbind (debug2 (''debug_fs:new inode[0x%x:0x%x]'' @ NLCR) (ucast (ucast dev :: u16)) (ucast (ucast nr :: u16))) (\<lambda>_.
          ret p)))"

definition new_inode :: "u32 \<Rightarrow> u32 \<Rightarrow> ptr fsm" where
  "new_inode dev nr =
     fbind (fprintk (''debug_fs: in new_inode'' @ NL) []) (\<lambda>_.
     fbind (pick_inode NR_INODE NULL) (\<lambda>p.
     if p = NULL then fbind print_inodes (\<lambda>_. fpanic ''No free inodes in mem'')
     else fbind (clean_inode 2 p) (\<lambda>ok.
     if \<not> ok then ret NULL else install_inode p dev nr)))"

text \<open>
  \<open>get_inode\<close>. Nothing between \<open>retain_inode\<close> and \<open>new_inode\<close> adds an inode, so a second round is not
  needed unless the first one is repeated for ever.
\<close>

fun get_inode_loop :: "nat \<Rightarrow> u32 \<Rightarrow> u32 \<Rightarrow> ptr fsm" where
  "get_inode_loop 0 dev nr = fstop Hang"
| "get_inode_loop (Suc n) dev nr =
     fbind (retain_inode dev nr) (\<lambda>(p, dev, nr).
     if p \<noteq> NULL then ret p
     else fbind (new_inode dev nr) (\<lambda>p.
          if p \<noteq> NULL then ret p else get_inode_loop n dev nr))"

definition get_inode :: "u32 \<Rightarrow> u32 \<Rightarrow> ptr fsm" where
  "get_inode dev nr = get_inode_loop 2 dev nr"

definition read_inode :: "u32 \<Rightarrow> u32 \<Rightarrow> ptr fsm" where
  "read_inode dev nr =
     fbind (debug2 (''debug_fs:read inode[0x%x:0x%x]'' @ NL) dev nr) (\<lambda>_.
     fbind (get_inode dev nr) (\<lambda>p.
     fbind (ino p i_nlinks) (\<lambda>l.
     fbind (iff_do (l = 0) (read_inode_from_buff p)) (\<lambda>_. ret p))))"

section \<open>Creation and deletion\<close>

definition delete_inode :: "ptr \<Rightarrow> unit fsm" where
  "delete_inode p =
     (if p = NULL then ret ()
      else fbind (ino p id) (\<lambda>i.
      if i_dev i = 0 then upd_inode p (\<lambda>_. zero_inode)
      else if i_count i > 1
      then fbind (fprintk (''trying to free inode with count=%d'' @ NL) [ArgI (ucast (i_count i))]) (\<lambda>_. fpanic ''free_inode'')
      else if i_nlinks i \<noteq> 0 then fpanic ''trying to free inode with links''
      else fbind (free_inode_bitmap (ucast (i_dev i)) (ucast (i_num i))) (\<lambda>_.
           upd_inode p (\<lambda>_. zero_inode))))"

definition create_inode :: "u32 \<Rightarrow> ptr fsm" where
  "create_inode dev =
     fbind (add_inode_bitmap dev) (\<lambda>i_num.
     if i_num = 0 then ret NULL
     else fbind (new_inode dev (of_nat i_num)) (\<lambda>p.
          if p = NULL then ret NULL
          else fbind (upd_inode p (\<lambda>i. i\<lparr>i_nlinks := 1, i_dirt := 1\<rparr>)) (\<lambda>_. ret p)))"

definition S_ISREG :: "u16 \<Rightarrow> bool" where
  "S_ISREG m \<longleftrightarrow> m AND 0xF000 = 0x8000"

definition S_ISDIR :: "u16 \<Rightarrow> bool" where
  "S_ISDIR m \<longleftrightarrow> m AND 0xF000 = 0x4000"

definition truncate_inode :: "ptr \<Rightarrow> unit fsm" where
  "truncate_inode p =
     fbind (ino p i_mode) (\<lambda>mode.
     iff_do (S_ISREG mode \<or> S_ISDIR mode)
       (fbind (each [0..<7] (\<lambda>k. fbind (ino p id) (\<lambda>i.
                 iff_do (i_zone i k \<noteq> 0)
                   (fbind (delete_block (ucast (i_dev i)) (ucast (i_zone i k))) (\<lambda>_.
                    upd_inode p (\<lambda>i. i\<lparr>i_zone := (i_zone i)(k := 0)\<rparr>)))))) (\<lambda>_.
        fbind (ino p id) (\<lambda>i.
        fbind (delete_indirecte_block (ucast (i_dev i)) (ucast (i_zone i 7))) (\<lambda>_.
        fbind (ino p id) (\<lambda>i.
        fbind (delete_double_indirecte_block (ucast (i_dev i)) (ucast (i_zone i 8))) (\<lambda>_.
        upd_inode p (\<lambda>i. i\<lparr>i_zone := (i_zone i)(8 := 0, 7 := 0), i_size := 0, i_dirt := 1\<rparr>))))))))"

text \<open>
  \<open>put_inode\<close>. Writing the inode back makes it clean and the second round leaves, unless it has no
  device: then it stays dirty and the loop never ends.
\<close>

fun put_inode_loop :: "nat \<Rightarrow> ptr \<Rightarrow> unit fsm" where
  "put_inode_loop 0 p = fstop Hang"
| "put_inode_loop (Suc n) p =
     fbind (ino p id) (\<lambda>i.
     if i_count i = 1 \<and> i_nlinks i = 0
     then fbind (truncate_inode p) (\<lambda>_. delete_inode p)
     else if i_count i = 1 \<and> i_dirt i \<noteq> 0
     then fbind (sync_inode_to_buff p) (\<lambda>_. fbind (wait_on_inode p) (\<lambda>_. put_inode_loop n p))
     else upd_inode p (\<lambda>i. i\<lparr>i_count := i_count i - 1\<rparr>))"

definition put_inode :: "ptr \<Rightarrow> unit fsm" where
  "put_inode p =
     (if p = NULL then ret ()
      else fbind (wait_on_inode p) (\<lambda>_.
           fbind (ino p i_count) (\<lambda>c.
           if c = 0 then fpanic ''iput: trying to free free inode'' else put_inode_loop 2 p)))"

section \<open>The blocks of a file\<close>

text \<open>\<open>i_zone[k]\<close>, created if it is missing and \<open>create\<close> is set.\<close>

definition zone_slot :: "ptr \<Rightarrow> nat \<Rightarrow> bool \<Rightarrow> u16 fsm" where
  "zone_slot p k create =
     fbind (ino p id) (\<lambda>i.
     fbind (iff_do (create \<and> i_zone i k = 0)
       (fbind (create_block (ucast (i_dev i))) (\<lambda>z.
        fbind (upd_inode p (\<lambda>i. i\<lparr>i_zone := (i_zone i)(k := ucast z)\<rparr>)) (\<lambda>_.
        iff_do ((ucast z :: u16) \<noteq> 0) (upd_inode p (\<lambda>i. i\<lparr>i_dirt := 1\<rparr>)))))) (\<lambda>_.
     ino p (\<lambda>i. i_zone i k)))"

text \<open>Entry \<open>k\<close> of the indirect block \<open>z\<close>, created if it is missing and \<open>create\<close> is set; 0 for an unreadable block.\<close>

definition table_entry :: "ptr \<Rightarrow> u32 \<Rightarrow> nat \<Rightarrow> bool \<Rightarrow> u32 fsm" where
  "table_entry p z k create =
     fbind (ino p i_dev) (\<lambda>dev.
     fbind (kcall (read_buff (ucast dev) z)) (\<lambda>bh.
     if bh = NULL then ret 0
     else fbind (get_data bh (\<lambda>m. ucast (load16 m (2 * k)))) (\<lambda>i.
          fbind (if create \<and> i = 0
                 then fbind (create_block (ucast dev)) (\<lambda>i.
                      fbind (iff_do (i \<noteq> 0) (fbind (upd_data bh (store16 (2 * k) (ucast i))) (\<lambda>_.
                                              upd_head bh (\<lambda>b. b\<lparr>b_dirt := 1\<rparr>)))) (\<lambda>_. ret i))
                 else ret i) (\<lambda>i.
          fbind (kproc (put_buff bh)) (\<lambda>_. ret i)))))"

definition locate_by_inode :: "ptr \<Rightarrow> int \<Rightarrow> bool \<Rightarrow> u32 fsm" where
  "locate_by_inode p block create =
     (if block < 0 then fpanic ''locate_in_inode: block<0''
      else if block \<ge> 7 + 512 + 512 * 512 then fpanic ''locate_in_inode: block>big''
      else if block < 7 then fbind (zone_slot p (nat block) create) (\<lambda>z. ret (ucast z))
      else if block - 7 < 512
      then fbind (zone_slot p 7 create) (\<lambda>z.
           if z = 0 then ret 0 else table_entry p (ucast z) (nat (block - 7)) create)
      else let b = block - 7 - 512
           in fbind (zone_slot p 8 create) (\<lambda>z.
              if z = 0 then ret 0
              else fbind (table_entry p (ucast z) (nat (b div 512)) create) (\<lambda>i.
              if i = 0 then ret 0 else table_entry p i (nat (b mod 512)) create)))"

end
