(* ===== verification/Dir.thy ===== *)
theory Dir
  imports Inode
begin

text \<open>
  Directories and path names (\<open>src/fs/inode.c\<close>). A
  name is the list of its bytes; a byte after its end is a null byte.
\<close>

definition str_mem :: "u8 list \<Rightarrow> mem" where
  "str_mem xs i = (if i < length xs then xs ! i else 0)"

section \<open>Looking up a name\<close>

text \<open>
  The step from a full block to the next: \<open>de\<close> points into the block of buffer \<open>bh\<close>, which is null after a
  block that could not be read, and entry \<open>i\<close> is the next one. With \<open>create\<close> a missing block ends the search,
  without it the search skips to the next block. The result is the place of the entry: its address, the
  address of the block and the buffer.
\<close>

datatype entry_place = Entry_at nat nat ptr | Skip_block | Stop_scan

definition dir_block :: "ptr \<Rightarrow> nat \<Rightarrow> nat \<Rightarrow> ptr \<Rightarrow> bool \<Rightarrow> entry_place fsm" where
  "dir_block p i de bh create =
     fbind (gets (\<lambda>s. b_data (bh_of (krn s) bh))) (\<lambda>data.
     if de \<ge> 1024 + data
     then fbind (kproc (put_buff bh)) (\<lambda>_.
          fbind (locate_by_inode p (int (i div DIR_ENTRIES_PER_BLOCK)) create) (\<lambda>block.
          if block = 0 then ret (if create then Stop_scan else Skip_block)
          else fbind (ino p i_dev) (\<lambda>dev.
               fbind (kcall (read_buff (ucast dev) block)) (\<lambda>bh.
               if bh = NULL then ret Skip_block
               else fbind (gets (\<lambda>s. b_data (bh_of (krn s) bh))) (\<lambda>data. ret (Entry_at data data bh))))))
     else ret (Entry_at de data bh))"

text \<open>The C string at an offset of a block, cut off at the end of the block.\<close>

definition c_string :: "mem \<Rightarrow> nat \<Rightarrow> string" where
  "c_string m off = takeWhile (\<lambda>c. c \<noteq> CHR 0x00) (map (\<lambda>i. char_of (unat (m i))) [off..<1024])"

text \<open>
  The search in a directory of \<open>entries\<close> entries. Each round advances \<open>i\<close>, so \<open>entries\<close> rounds are
  enough. The result is the last buffer and the address of the entry found.
\<close>

fun dir_scan :: "nat \<Rightarrow> ptr \<Rightarrow> nat \<Rightarrow> nat \<Rightarrow> nat \<Rightarrow> ptr \<Rightarrow> u8 list \<Rightarrow> int \<Rightarrow> (ptr \<times> nat option) fsm" where
  "dir_scan 0 p entries i de bh name len = ret (bh, None)"
| "dir_scan (Suc n) p entries i de bh name len =
     (if i \<ge> entries then ret (bh, None)
      else fbind (dir_block p i de bh False) (\<lambda>r.
           case r of
             Entry_at de data bh \<Rightarrow>
               fbind (get_data bh (\<lambda>m. c_string m (de - data + 2))) (\<lambda>entry.
               fbind (fprintk ''%.*s,'' [ArgI (word_of_int len), ArgS entry]) (\<lambda>_.
               fbind (get_data bh (match len 0 (de - data + 2) True (str_mem name))) (\<lambda>found.
               if found
               then fbind (get_data bh (\<lambda>m. load16 m (de - data))) (\<lambda>nr.
                    fbind (fprintk ''found! inode[0x%x]'' [ArgI (ucast nr)]) (\<lambda>_. ret (bh, Some de)))
               else dir_scan n p entries (i + 1) (de + 32) bh name len)))
           | _ \<Rightarrow> dir_scan n p entries (i + DIR_ENTRIES_PER_BLOCK) de NULL name len))"

text \<open>The treatment of \<open>..\<close> in the root of a mounted device: the directory becomes the mount point.\<close>

definition cross_parent :: "ptr \<Rightarrow> u8 list \<Rightarrow> int \<Rightarrow> ptr fsm" where
  "cross_parent p name len =
     fbind (ino p id) (\<lambda>i.
     if len = 2 \<and> str_mem name 0 = 0x2E \<and> str_mem name 1 = 0x2E \<and> ucast (i_num i) = ROOT_INO
     then fbind (find_super (ucast (i_dev i))) (\<lambda>sb.
          fbind (sbk sb s_imount) (\<lambda>m.
          if m \<noteq> NULL
          then fbind (put_inode p) (\<lambda>_.
               fbind (sbk sb s_imount) (\<lambda>q.
               fbind (upd_inode q (\<lambda>i. i\<lparr>i_count := i_count i + 1\<rparr>)) (\<lambda>_. ret q)))
          else ret p))
     else ret p)"

definition retain_inode_by_name :: "ptr \<Rightarrow> u8 list \<Rightarrow> int \<Rightarrow> (ptr \<times> ptr) fsm" where
  "retain_inode_by_name p0 name namelen =
     (let len = (if namelen > NAME_LEN then NAME_LEN else namelen)
      in fbind (ino p0 i_num) (\<lambda>nr.
         fbind (fprintk (''debug_fs:retain inode by name[%.*s] in inode[%d]'' @ NL)
                  [ArgI (word_of_int namelen), ArgS (takeWhile (\<lambda>c. c \<noteq> CHR 0x00) (map (\<lambda>c. char_of (unat c)) name)), ArgI (ucast nr)]) (\<lambda>_.
         fbind (ino p0 (\<lambda>i. unat (i_size i) div 32)) (\<lambda>entries.
         if len = 0 then ret (NULL, p0)
         else fbind (cross_parent p0 name len) (\<lambda>p.
              fbind (ino p id) (\<lambda>i.
              if i_zone i 0 = 0 then ret (NULL, p)
              else fbind (kcall (read_buff (ucast (i_dev i)) (ucast (i_zone i 0)))) (\<lambda>bh.
              if bh = NULL then ret (NULL, p)
              else fbind (gets (\<lambda>s. b_data (bh_of (krn s) bh))) (\<lambda>data.
                   fbind (fprintk ''debug_fs:entries['' []) (\<lambda>_.
                   fbind (dir_scan entries p entries 0 data bh name len) (\<lambda>(bh, res).
                   fbind (fprintk ('']'' @ NL) []) (\<lambda>_.
                   fbind (kproc (put_buff bh)) (\<lambda>_.
                   case res of
                     None \<Rightarrow> ret (NULL, p)
                   | Some de \<Rightarrow>
                       fbind (gets (\<lambda>s. b_data (bh_of (krn s) bh))) (\<lambda>data.
                       fbind (get_data bh (\<lambda>m. load16 m (de - data))) (\<lambda>nr.
                       fbind (ino p i_dev) (\<lambda>dev.
                       fbind (read_inode (ucast dev) (ucast nr)) (\<lambda>q. ret (q, p)))))))))))))))))"

section \<open>Path names\<close>

definition permission :: "ptr \<Rightarrow> nat \<Rightarrow> bool" where
  "permission inode may = True"

abbreviation MAY_EXEC :: nat where
  "MAY_EXEC \<equiv> 1"

text \<open>
  The loop of \<open>retain_inode_by_path\<close>: \<open>thisname\<close> is the rest of the path from the current component on,
  \<open>len\<close> the length of the component so far. The check is about the inode the walk started from.
\<close>

fun path_loop :: "ptr \<Rightarrow> ptr \<Rightarrow> u8 list \<Rightarrow> u8 list \<Rightarrow> nat \<Rightarrow> ptr fsm" where
  "path_loop inode res [] thisname len = ret res"
| "path_loop inode res (c # rest) thisname len =
     (if c = 0 then ret res
      else if c \<noteq> 0x2F then path_loop inode res rest thisname (len + 1)
      else fbind (ino inode i_mode) (\<lambda>mode.
           if \<not> S_ISDIR mode \<or> \<not> permission inode MAY_EXEC then ret NULL
           else fbind (retain_inode_by_name res thisname (int len)) (\<lambda>(tmp, res).
                if tmp = NULL then ret NULL
                else fbind (put_inode res) (\<lambda>_. path_loop inode tmp rest rest 0))))"

definition retain_inode_by_path :: "ptr \<Rightarrow> u8 list \<Rightarrow> ptr fsm" where
  "retain_inode_by_path inode pathname =
     (if str_mem pathname 0 = 0 then ret NULL
      else let path = (if str_mem pathname 0 = 0x2F then tl pathname else pathname)
           in fbind (upd_inode inode (\<lambda>i. i\<lparr>i_count := i_count i + 1\<rparr>)) (\<lambda>_.
              path_loop inode inode path path 0))"

section \<open>Creating a name\<close>

text \<open>The entry is written at offset \<open>off\<close> of the block: the inode number and the name, padded with zeros.\<close>

definition write_entry :: "nat \<Rightarrow> u16 \<Rightarrow> u8 list \<Rightarrow> int \<Rightarrow> mem \<Rightarrow> mem" where
  "write_entry off nr name len m =
     fold (\<lambda>k m. m(off + 2 + k := if int k < len then str_mem name k else 0)) [0..<30] (store16 off nr m)"

text \<open>
  Entry \<open>i\<close> at address \<open>de\<close> of buffer \<open>bh\<close>: an entry past the end extends the directory, and a free entry is
  given to a new inode. \<open>None\<close>: the entry is in use.
\<close>

definition create_entry :: "ptr \<Rightarrow> nat \<Rightarrow> nat \<Rightarrow> ptr \<Rightarrow> u8 list \<Rightarrow> int \<Rightarrow> ptr option fsm" where
  "create_entry p i off bh name len =
     fbind (ino p id) (\<lambda>ip.
     fbind (iff_do (of_nat (i * 32) \<ge> i_size ip)
       (fbind (upd_data bh (store16 off 0)) (\<lambda>_.
        upd_inode p (\<lambda>i'. i'\<lparr>i_size := of_nat ((i + 1) * 32), i_dirt := 1\<rparr>)))) (\<lambda>_.
     fbind (get_data bh (\<lambda>m. load16 m off)) (\<lambda>used.
     if used \<noteq> 0 then ret None
     else fbind (create_inode (ucast (i_dev ip))) (\<lambda>q.
          if q = NULL then fbind (kproc (put_buff bh)) (\<lambda>_. ret (Some NULL))
          else fbind (upd_inode q (\<lambda>i. i\<lparr>i_dirt := 1\<rparr>)) (\<lambda>_.
               fbind (ino q i_num) (\<lambda>nr.
               fbind (upd_data bh (write_entry off nr name len)) (\<lambda>_.
               fbind (upd_head bh (\<lambda>b. b\<lparr>b_dirt := 1\<rparr>)) (\<lambda>_.
               fbind (kproc (put_buff bh)) (\<lambda>_. ret (Some q))))))))))"

text \<open>
  The search for a free entry. It advances \<open>i\<close> in each round and panics in \<open>locate_by_inode\<close> at the end of
  the largest file, so \<open>(7 + 512 + 512 * 512) * 32 + 1\<close> rounds are enough.
\<close>

fun create_scan :: "nat \<Rightarrow> ptr \<Rightarrow> nat \<Rightarrow> nat \<Rightarrow> ptr \<Rightarrow> u8 list \<Rightarrow> int \<Rightarrow> ptr fsm" where
  "create_scan 0 p i de bh name len = fstop Hang"
| "create_scan (Suc n) p i de bh name len =
     fbind (dir_block p i de bh True) (\<lambda>r.
     case r of
       Stop_scan \<Rightarrow> ret NULL
     | Skip_block \<Rightarrow> create_scan n p (i + DIR_ENTRIES_PER_BLOCK) de NULL name len
     | Entry_at de data bh \<Rightarrow>
         fbind (create_entry p i (de - data) bh name len) (\<lambda>r.
         case r of Some q \<Rightarrow> ret q | None \<Rightarrow> create_scan n p (i + 1) (de + 32) bh name len))"

definition create_inode_by_name :: "ptr \<Rightarrow> u8 list \<Rightarrow> int \<Rightarrow> ptr fsm" where
  "create_inode_by_name p name namelen =
     (let len = (if namelen > NAME_LEN then NAME_LEN else namelen)
      in if len = 0 then ret NULL
         else fbind (ino p id) (\<lambda>i.
              if i_zone i 0 = 0 then ret NULL
              else fbind (kcall (read_buff (ucast (i_dev i)) (ucast (i_zone i 0)))) (\<lambda>bh.
              if bh = NULL then ret NULL
              else fbind (gets (\<lambda>s. b_data (bh_of (krn s) bh))) (\<lambda>data.
                   create_scan ((7 + 512 + 512 * 512) * 32 + 1) p 0 data bh name len))))"

section \<open>The self-test\<close>

definition test_inode :: "unit fsm" where
  "test_inode =
     fbind (read_inode 0x301 1) (\<lambda>inode.
     fbind (retain_inode_by_path inode (map of_char ''123/456/789/aaa'')) (\<lambda>inode_2.
     iff_do (inode_2 \<noteq> NULL)
       (fbind (ino inode_2 i_num) (\<lambda>n. fprintk (''found path:%x'' @ NL) [ArgI (ucast n)]))))"

end
