(* ===== verification/Setup.thy ===== *)
theory Setup
  imports Dir Boot
begin

text \<open>The set-up of the file system at boot (\<open>src/fs/sys_fs.c\<close>).\<close>

text \<open>The counting loops: the numbers below \<open>n\<close> whose bit is clear, from above.\<close>

fun count_free :: "nat \<Rightarrow> (nat \<Rightarrow> ptr) \<Rightarrow> nat \<Rightarrow> nat fsm" where
  "count_free 0 slots free = ret free"
| "count_free (Suc i) slots free =
     fbind (get_data (slots (i div 8192)) (\<lambda>m. bit_of m (i mod 8192))) (\<lambda>b.
     count_free i slots (if b then free else free + 1))"

text \<open>The part of \<open>sys_setup\<close> after \<open>init_blk\<close>.\<close>

definition mount_root :: "unit fsm" where
  "mount_root =
     (if MAJOR (int (unat ROOT_DEV)) = 2 then fpanic (''don'' @ [CHR 0x27] @ ''t support floppy'')
     else
     fbind (each [1..<NR_SUPER + 1] (\<lambda>p. upd_super p (\<lambda>b. b\<lparr>s_dev := 0, s_lock := 0\<rparr>))) (\<lambda>_.
     fbind (read_super ROOT_DEV) (\<lambda>p.
     if p = NULL then fpanic ''Unable to mount root''
     else fbind (read_inode ROOT_DEV ROOT_INO) (\<lambda>mi.
     if mi = NULL then fpanic ''Unable to read root i-node''
     else fbind (upd_inode mi (\<lambda>i. i\<lparr>i_count := i_count i + 3\<rparr>)) (\<lambda>_.
          fbind (upd_super p (\<lambda>b. b\<lparr>s_isup := mi, s_imount := mi\<rparr>)) (\<lambda>_.
          fbind (sbk p id) (\<lambda>b.
          fbind (count_free (unat (s_nzones b)) (s_zmap b) 0) (\<lambda>free.
          fbind (fprintk (''%d/%d free blocks'' @ NLCR) [ArgI (of_nat free), ArgI (ucast (s_nzones b))]) (\<lambda>_.
          fbind (count_free (unat (s_ninodes b) + 1) (s_imap b) 0) (\<lambda>free.
          fprintk (''%d/%d free inodes'' @ NLCR) [ArgI (of_nat free), ArgI (ucast (s_ninodes b))]))))))))))"

text \<open>
  \<open>sys_setup\<close> with the arguments of \<open>init_blk\<close> that the multiboot structure holds. The test of the size of
  \<open>struct d_inode\<close> is decided at compile time.
\<close>

definition sys_setup :: "nat \<Rightarrow> mem \<Rightarrow> u32 \<Rightarrow> u32 \<Rightarrow> u32 \<Rightarrow> unit fsm" where
  "sys_setup start mem flags drives_addr drives_length =
     fbind (kproc (init_blk start mem flags drives_addr drives_length)) (\<lambda>_. mount_root)"

end
