(* ===== verification/Bitmap.thy ===== *)
theory Bitmap
  imports Super
begin

text \<open>
  The bitmaps of inodes and zones: what the bit instructions do to the set of used numbers, first for one block
  as an interface, then for the blocks of a map.
\<close>

section \<open>Single bits\<close>

lemma place_eq: "n div 8 = k div 8 \<and> n mod 8 = k mod 8 \<longleftrightarrow> n = (k :: nat)"
  by (metis mod_div_mult_eq)

lemma btsl_bits: "bit_of (snd (btsl nr m)) k \<longleftrightarrow> k = nr \<or> bit_of m k"
proof -
  have "bit (m (nr div 8) OR push_bit (nr mod 8) 1) (k mod 8) \<longleftrightarrow> k mod 8 = nr mod 8 \<or> bit (m (nr div 8)) (k mod 8)"
    by (auto simp: bit_simps)
  then show ?thesis using place_eq [of k nr] by (auto simp: btsl_def bit_of_def)
qed

lemma btrl_bits: "bit_of (snd (btrl nr m)) k \<longleftrightarrow> k \<noteq> nr \<and> bit_of m k"
proof -
  have "bit (m (nr div 8) AND NOT (push_bit (nr mod 8) 1)) (k mod 8) \<longleftrightarrow> k mod 8 \<noteq> nr mod 8 \<and> bit (m (nr div 8)) (k mod 8)"
    by (auto simp: bit_simps)
  then show ?thesis using place_eq [of k nr] by (auto simp: btrl_def bit_of_def)
qed

lemma bt_old: "fst (btsl nr m) = bit_of m nr" "fst (btrl nr m) = (\<not> bit_of m nr)"
  by (simp_all add: btsl_def btrl_def)

lemma bit_load16: "bit (load16 m a) i \<longleftrightarrow> i < 16 \<and> bit (m (a + i div 8)) (i mod 8)"
proof -
  consider "i < 8" | "8 \<le> i" "i < 16" | "16 \<le> i" by linarith
  then show ?thesis
  proof cases
    case 2
    then have "i div 8 = 1" "i mod 8 = i - 8" by (simp_all add: div_nat_eqI mod_if)
    then show ?thesis using 2 by (auto simp: load16_def bit_simps dest: bit_imp_le_length)
  qed (auto simp: load16_def bit_simps dest: bit_imp_le_length)
qed

lemma bit_load32: "bit (load32 m a) i \<longleftrightarrow> i < 32 \<and> bit (m (a + i div 8)) (i mod 8)"
proof (cases "i < 16")
  case True
  then show ?thesis by (auto simp: load32_def bit_simps bit_load16)
next
  case False
  then obtain j where j: "i = 16 + j" by (metis le_add_diff_inverse not_less)
  have "i div 8 = 2 + j div 8" "i mod 8 = j mod 8" unfolding j by presburger+
  then show ?thesis by (auto simp: load32_def bit_simps bit_load16 j)
qed

section \<open>The first zero\<close>

lemma bsf_spec:
  "i \<le> bsf n i w \<and> bsf n i w \<le> i + n \<and> (\<forall>k. i \<le> k \<and> k < bsf n i w \<longrightarrow> \<not> bit w k) \<and>
   (bsf n i w < i + n \<longrightarrow> bit w (bsf n i w))"
proof (induction n arbitrary: i)
  case (Suc n)
  show ?case
  proof (cases "bit w i")
    case False
    have "\<not> bit w k" if "i \<le> k" "k < bsf n (i + 1) w" for k
      using that Suc.IH [of "i + 1"] False by (cases "k = i") auto
    then show ?thesis using Suc.IH [of "i + 1"] False by auto
  qed auto
qed auto

lemma bsf_word:
  assumes "w \<noteq> (0 :: u32)"
  shows "bsf 31 0 w < 32" "bit w (bsf 31 0 w)" "k < bsf 31 0 w \<Longrightarrow> \<not> bit w k"
proof -
  note S = bsf_spec [of 0 31 w]
  show "bsf 31 0 w < 32" using S by linarith
  show "k < bsf 31 0 w \<Longrightarrow> \<not> bit w k" using S by blast
  show "bit w (bsf 31 0 w)"
  proof (cases "bsf 31 0 w < 31")
    case False
    then have eq: "bsf 31 0 w = 31" using S by simp
    obtain i where "bit w i" using assms by (metis bit_word_eqI bit_0_eq bot_apply bot_bool_def)
    moreover have "i < 32" using bit_imp_le_length [OF \<open>bit w i\<close>] by simp
    moreover have "\<not> i < 31" using S eq \<open>bit w i\<close> by auto
    ultimately have "i = 31" by linarith
    then show ?thesis using \<open>bit w i\<close> eq by simp
  qed (use S in simp)
qed

lemma ffz_words_spec:
  "32 dvd ecx \<Longrightarrow>
    ecx \<le> ffz_words n ecx m \<and> ffz_words n ecx m \<le> ecx + 32 * n \<and>
    (\<forall>k. ecx \<le> k \<and> k < ffz_words n ecx m \<longrightarrow> bit_of m k) \<and>
    (ffz_words n ecx m < ecx + 32 * n \<longrightarrow> \<not> bit_of m (ffz_words n ecx m))"
proof (induction n arbitrary: ecx)
  case (Suc n)
  define w where "w = NOT (load32 m (ecx div 8))"
  have bits: "bit w i \<longleftrightarrow> \<not> bit_of m (ecx + i)" if "i < 32" for i
  proof -
    have "8 dvd ecx" using Suc.prems dvd_trans [of 8 32 ecx] by simp
    then obtain c where c: "ecx = 8 * c" by (rule dvdE)
    have "(8 * c + i) div 8 = c + i div 8" "(8 * c + i) mod 8 = i mod 8" by simp_all
    then show ?thesis using that by (simp add: w_def c bit_not_iff bit_load32 bit_of_def)
  qed
  show ?case
  proof (cases "w = 0")
    case True
    then have eq: "ffz_words (Suc n) ecx m = ffz_words n (ecx + 32) m" by (simp add: w_def)
    have low: "bit_of m k" if "ecx \<le> k" "k < ecx + 32" for k
      using bits [of "k - ecx"] that True by simp
    have "32 dvd ecx + 32" using Suc.prems by simp
    note IH = Suc.IH [OF this]
    have "bit_of m k" if "ecx \<le> k" "k < ffz_words n (ecx + 32) m" for k
      using low [of k] IH that by (cases "k < ecx + 32") auto
    then show ?thesis unfolding eq using IH by auto
  next
    case False
    then have eq: "ffz_words (Suc n) ecx m = ecx + bsf 31 0 w" by (simp add: w_def Let_def)
    have low: "bit_of m k" if "ecx \<le> k" "k < ecx + bsf 31 0 w" for k
      using bsf_word(1) [OF False] bsf_word(3) [OF False, of "k - ecx"] bits [of "k - ecx"] that by simp
    have "\<not> bit_of m (ecx + bsf 31 0 w)" using bsf_word(1,2) [OF False] bits by simp
    then show ?thesis unfolding eq using low bsf_word(1) [OF False] by auto
  qed
qed auto

lemma find_first_zero_spec:
  "find_first_zero m \<le> 8192" "k < find_first_zero m \<Longrightarrow> bit_of m k"
  "find_first_zero m < 8192 \<Longrightarrow> \<not> bit_of m (find_first_zero m)"
  using ffz_words_spec [of 0 256 m] unfolding find_first_zero_def by auto

section \<open>Bitmaps as sets\<close>

text \<open>What the allocation of numbers needs of the bit operations of a block of \<open>bits\<close> bits.\<close>

locale bitmap =
  fixes test :: "'m \<Rightarrow> nat \<Rightarrow> bool"
    and mark :: "nat \<Rightarrow> 'm \<Rightarrow> 'm"
    and clear :: "nat \<Rightarrow> 'm \<Rightarrow> 'm"
    and first :: "'m \<Rightarrow> nat"
    and bits :: nat
  assumes test_mark: "test (mark n m) k \<longleftrightarrow> k = n \<or> test m k"
    and test_clear: "test (clear n m) k \<longleftrightarrow> k \<noteq> n \<and> test m k"
    and first_le: "first m \<le> bits"
    and first_least: "k < first m \<Longrightarrow> test m k"
    and first_free: "first m < bits \<Longrightarrow> \<not> test m (first m)"
begin

definition used :: "'m \<Rightarrow> nat set" where
  "used m = {k. k < bits \<and> test m k}"

lemma finite_used [simp]: "finite (used m)"
  by (simp add: used_def)

lemma used_mark: "n < bits \<Longrightarrow> used (mark n m) = insert n (used m)"
  by (auto simp: used_def test_mark)

lemma used_clear: "used (clear n m) = used m - {n}"
  by (auto simp: used_def test_clear)

lemma first_new: "first m < bits \<Longrightarrow> first m \<notin> used m"
  by (simp add: used_def first_free)

lemma first_Least: "first m < bits \<Longrightarrow> first m = (LEAST k. k \<notin> used m)"
  by (rule Least_equality [symmetric]) (auto simp: used_def first_free first_least not_less [symmetric])

lemma full_iff: "first m = bits \<longleftrightarrow> used m = {..<bits}"
proof
  assume "used m = {..<bits}"
  then have "first m < bits \<Longrightarrow> test m (first m)" by (auto simp: used_def)
  then show "first m = bits" using first_le [of m] first_free [of m] by fastforce
qed (use first_least [of _ m] in \<open>auto simp: used_def\<close>)

lemma alloc_free: "first m < bits \<Longrightarrow> used (clear (first m) (mark (first m) m)) = used m"
  using first_new [of m] by (simp add: used_mark used_clear)

lemma alloc_card: "first m < bits \<Longrightarrow> card (used (mark (first m) m)) = card (used m) + 1"
  by (simp add: used_mark first_new)

end

interpretation bm: bitmap bit_of "\<lambda>n m. snd (btsl n m)" "\<lambda>n m. snd (btrl n m)" find_first_zero 8192
  by unfold_locales (auto simp: btsl_bits btrl_bits find_first_zero_spec)

section \<open>Maps of several blocks\<close>

definition data_of :: "fsys \<Rightarrow> ptr \<Rightarrow> mem" where
  "data_of s bh = bdata (cache (krn s)) bh"

text \<open>Number \<open>n\<close> is in use according to the map in \<open>slots\<close>; \<open>map_ok\<close>: the first \<open>n\<close> slots hold different buffers.\<close>

definition marked :: "(nat \<Rightarrow> ptr) \<Rightarrow> fsys \<Rightarrow> nat \<Rightarrow> bool" where
  "marked slots s n = bit_of (data_of s (slots (n div 8192))) (n mod 8192)"

definition map_ok :: "(nat \<Rightarrow> ptr) \<Rightarrow> nat \<Rightarrow> bool" where
  "map_ok slots n \<longleftrightarrow> 0 < n \<and> n \<le> 8 \<and> (\<forall>i<n. slots i \<noteq> NULL) \<and> inj_on slots {..<n}"

text \<open>The super block of a device that is mounted and not locked.\<close>

definition super_at :: "u32 \<Rightarrow> ptr \<Rightarrow> fsys \<Rightarrow> bool" where
  "super_at dev p s \<longleftrightarrow> dev \<noteq> 0 \<and> 1 \<le> p \<and> p \<le> NR_SUPER \<and> ucast (s_dev (super_block_list s p)) = dev \<and>
     (\<forall>q. 1 \<le> q \<and> q < p \<longrightarrow> ucast (s_dev (super_block_list s q)) \<noteq> dev) \<and> s_lock (super_block_list s p) = 0"

lemma spin_done: "spin_until (\<lambda>_. True) b k = Inr k"
  by (cases "irqs (hw k)") (simp_all add: spin_until_def)

lemma wait_on_super_free:
  "s_lock (super_block_list s p) = 0 \<Longrightarrow> wait_on_super p s = Inr ((), s\<lparr>krn := cli (krn s)\<rparr>)"
  by (simp add: wait_on_super_def kproc_def spin_done)

lemma super_scan_at:
  assumes "super_at dev p s" "1 \<le> q" "q \<le> p" "p < q + n"
  shows "super_scan n q dev s = Inr (p, s\<lparr>krn := cli (krn s)\<rparr>)"
  using assms(2-4)
proof (induction n arbitrary: q)
  case (Suc n)
  show ?case
  proof (cases "q = p")
    case True
    then show ?thesis using assms(1) by (simp add: super_at_def wait_on_super_free)
  next
    case False
    then have "ucast (s_dev (super_block_list s q)) \<noteq> dev" "q \<le> NR_SUPER"
      using assms(1) Suc.prems by (auto simp: super_at_def)
    then show ?thesis using Suc.IH [of "q + 1"] Suc.prems False by simp
  qed
qed simp

lemma find_super_at:
  assumes "super_at dev p s"
  shows "find_super dev s = Inr (p, s\<lparr>krn := cli (krn s)\<rparr>)" "p \<noteq> NULL"
  using super_scan_at [OF assms, of 1 9] assms by (auto simp: find_super_def super_at_def)

lemma super_scan_none:
  assumes "\<forall>q. 1 \<le> q \<and> q \<le> NR_SUPER \<longrightarrow> ucast (s_dev (super_block_list s q)) \<noteq> dev" "1 \<le> q" "q \<le> 9" "9 < q + n"
  shows "super_scan n q dev s = Inr (NULL, s)"
  using assms(2-4)
proof (induction n arbitrary: q)
  case (Suc n)
  then show ?case using assms(1) by (cases "q = 9") auto
qed simp

text \<open>The result of the search, \<open>first_unmarked\<close> for the whole map.\<close>

lemma map_scan_spec:
  assumes "\<And>k. i \<le> k \<Longrightarrow> k < i + n \<Longrightarrow> slots k \<noteq> NULL" "i + n \<le> 8"
    and "n = 0 \<longrightarrow> j = 8192" "n = 0 \<longrightarrow> bh \<noteq> None"
  shows "\<exists>bh' j' i'. map_scan slots n i bh j s = Inr ((bh', j', i'), s) \<and> bh' \<noteq> None \<and> i \<le> i' \<and> i' \<le> i + n \<and>
    (\<forall>k x. i \<le> k \<and> k < i' \<and> x < 8192 \<longrightarrow> bit_of (data_of s (slots k)) x) \<and>
    (if i' = i + n then j' = 8192 else
       bh' = Some (slots i') \<and> j' < 8192 \<and> (\<forall>x<j'. bit_of (data_of s (slots i')) x) \<and> \<not> bit_of (data_of s (slots i')) j')"
  using assms
proof (induction n arbitrary: i bh j)
  case (Suc n)
  define f where "f = find_first_zero (data_of s (slots i))"
  have F: "f \<le> 8192" "\<And>k. k < f \<Longrightarrow> bit_of (data_of s (slots i)) k" "f < 8192 \<Longrightarrow> \<not> bit_of (data_of s (slots i)) f"
    using find_first_zero_spec by (auto simp: f_def)
  have nn: "slots i \<noteq> NULL" "\<not> 8 \<le> i" using Suc.prems(1) [of i] Suc.prems(2) by simp_all
  then have step: "map_scan slots (Suc n) i bh j s =
      (if f < 8192 then Inr ((Some (slots i), f, i), s) else map_scan slots n (i + 1) (Some (slots i)) f s)"
    by (simp add: get_data_def f_def data_of_def)
  show ?case
  proof (cases "f < 8192")
    case True
    then show ?thesis using step F by (intro exI [of _ "Some (slots i)"] exI [of _ f] exI [of _ i]) auto
  next
    case False
    then have f: "f = 8192" using F(1) by simp
    have "\<And>k. i + 1 \<le> k \<Longrightarrow> k < i + 1 + n \<Longrightarrow> slots k \<noteq> NULL" using Suc.prems(1) by simp
    then obtain bh' j' i' where R: "map_scan slots n (i + 1) (Some (slots i)) f s = Inr ((bh', j', i'), s)" "bh' \<noteq> None"
      "i + 1 \<le> i'" "i' \<le> i + 1 + n" "\<forall>k x. i + 1 \<le> k \<and> k < i' \<and> x < 8192 \<longrightarrow> bit_of (data_of s (slots k)) x"
      "if i' = i + 1 + n then j' = 8192 else
       bh' = Some (slots i') \<and> j' < 8192 \<and> (\<forall>x<j'. bit_of (data_of s (slots i')) x) \<and> \<not> bit_of (data_of s (slots i')) j'"
      using Suc.IH [of "i + 1" f "Some (slots i)"] Suc.prems(2) f by auto
    have "bit_of (data_of s (slots k)) x" if "i \<le> k" "k < i'" "x < 8192" for k x
      using R(5) F(2) [of x] that f by (cases "k = i") auto
    then show ?thesis using R step False by (intro exI [of _ bh'] exI [of _ j'] exI [of _ i']) auto
  qed
qed auto

lemma map_scan_first:
  assumes "map_ok slots N"
  shows "\<exists>bh j i. map_scan slots N 0 None 8192 s = Inr ((Some bh, j, i), s) \<and>
    (\<forall>k<j + i * 8192. k < N * 8192 \<longrightarrow> marked slots s k) \<and>
    (i = N \<and> j = 8192 \<or> i < N \<and> bh = slots i \<and> j < 8192 \<and> \<not> marked slots s (j + i * 8192))"
proof -
  obtain bh j i where R: "map_scan slots N 0 None 8192 s = Inr ((bh, j, i), s)" "bh \<noteq> None" "i \<le> N"
    "\<forall>k x. k < i \<and> x < 8192 \<longrightarrow> bit_of (data_of s (slots k)) x"
    "if i = N then j = 8192 else
       bh = Some (slots i) \<and> j < 8192 \<and> (\<forall>x<j. bit_of (data_of s (slots i)) x) \<and> \<not> bit_of (data_of s (slots i)) j"
    using map_scan_spec [of 0 N slots 8192 None s] assms by (auto simp: map_ok_def)
  have "marked slots s k" if k: "k < j + i * 8192" "k < N * 8192" for k
  proof (cases "k div 8192 < i")
    case True
    then show ?thesis using R(4) by (simp add: marked_def)
  next
    case False
    have "k div 8192 < N" using k(2) by (simp add: less_mult_imp_div_less)
    then have "i \<noteq> N" using False by simp
    then have "j < 8192" using R(5) by simp
    then have "k < (i + 1) * 8192" using k(1) by simp
    then have "k div 8192 < i + 1" by (rule less_mult_imp_div_less)
    then have i: "k div 8192 = i" using False by simp
    moreover have "k mod 8192 < j" using k(1) i div_mult_mod_eq [of k 8192] by simp
    ultimately show ?thesis using R(5) \<open>i \<noteq> N\<close> by (simp add: marked_def)
  qed
  moreover have "\<not> marked slots s (j + i * 8192)" if "i \<noteq> N" using R(5) that by (simp add: marked_def)
  ultimately show ?thesis using R by (cases bh) (auto split: if_splits)
qed

text \<open>The state after a bit has been set or cleared in buffer \<open>bh\<close>.\<close>

definition with_data :: "ptr \<Rightarrow> mem \<Rightarrow> fsys \<Rightarrow> fsys" where
  "with_data bh m s = s\<lparr>krn := upd_bh bh (\<lambda>b. b\<lparr>b_dirt := 1\<rparr>)
     ((krn s)\<lparr>cache := (cache (krn s))\<lparr>bdata := (bdata (cache (krn s)))(bh := m)\<rparr>\<rparr>)\<rparr>"

lemma data_with_data [simp]: "data_of (with_data bh m s) p = (if p = bh then m else data_of s p)"
  by (simp add: data_of_def with_data_def upd_bh_def upd_buf_def)

lemma tables_with_data [simp]:
  "inode_list (with_data bh m s) = inode_list s" "super_block_list (with_data bh m s) = super_block_list s"
  "last_inode (with_data bh m s) = last_inode s"
  by (simp_all add: with_data_def)

lemma mark_bit_free:
  "bh \<noteq> NULL \<Longrightarrow> \<not> bit_of (data_of s bh) j \<Longrightarrow>
    mark_bit bh j msg s = Inr ((), with_data bh (snd (btsl j (data_of s bh))) s)"
  by (simp add: mark_bit_def get_data_def upd_data_def upd_head_def with_data_def data_of_def bt_old)

lemma map_place:
  assumes "map_ok slots N" "n < N * 8192" "k < N * 8192"
  shows "slots (n div 8192) = slots (k div 8192) \<and> n mod 8192 = k mod 8192 \<longleftrightarrow> n = k"
proof -
  have "n div 8192 < N" "k div 8192 < N" using assms(2,3) by (simp_all add: less_mult_imp_div_less)
  then have "slots (n div 8192) = slots (k div 8192) \<longleftrightarrow> n div 8192 = k div 8192"
    using assms(1) by (auto simp: map_ok_def inj_on_def)
  then show ?thesis by (metis div_mult_mod_eq)
qed

lemma marked_set:
  assumes "map_ok slots N" "n < N * 8192" "k < N * 8192"
  shows "marked slots (with_data (slots (n div 8192)) (snd (btsl (n mod 8192) (data_of s (slots (n div 8192))))) s) k
    \<longleftrightarrow> k = n \<or> marked slots s k"
  using map_place [OF assms(1,3,2)] by (auto simp: marked_def btsl_bits)

lemma marked_clear:
  assumes "map_ok slots N" "n < N * 8192" "k < N * 8192"
  shows "marked slots (with_data (slots (n div 8192)) (snd (btrl (n mod 8192) (data_of s (slots (n div 8192))))) s) k
    \<longleftrightarrow> k \<noteq> n \<and> marked slots s k"
  using map_place [OF assms(1,3,2)] by (auto simp: marked_def btrl_bits)

section \<open>Allocation and release\<close>

text \<open>Number \<open>n\<close> has been marked, or cleared, in the map \<open>slots\<close> of \<open>N\<close> blocks, and nothing else has changed.\<close>

definition map_changed :: "(nat \<Rightarrow> ptr) \<Rightarrow> nat \<Rightarrow> nat \<Rightarrow> bool \<Rightarrow> fsys \<Rightarrow> fsys \<Rightarrow> bool" where
  "map_changed slots N n b s t \<longleftrightarrow> same_tables s t \<and>
     (\<forall>k<N * 8192. marked slots t k \<longleftrightarrow> (if k = n then b else marked slots s k)) \<and>
     (\<forall>p. p \<noteq> slots (n div 8192) \<longrightarrow> data_of t p = data_of s p)"

definition map_same :: "fsys \<Rightarrow> fsys \<Rightarrow> bool" where
  "map_same s t \<longleftrightarrow> same_tables s t \<and> (\<forall>p. data_of t p = data_of s p)"

lemma data_krn [simp]:
  "data_of (s\<lparr>krn := cli (krn s)\<rparr>) p = data_of s p" "data_of (s\<lparr>krn := printk fmt as (krn s)\<rparr>) p = data_of s p"
  "data_of (s\<lparr>krn := printk fmt as (cli (krn s))\<rparr>) p = data_of s p"
  by (simp_all add: data_of_def cli_def printk_def)

lemma marked_cli [simp]: "marked slots (s\<lparr>krn := cli (krn s)\<rparr>) k = marked slots s k"
  by (simp add: marked_def)

lemma map_changed_set:
  assumes "map_ok slots N" "n < N * 8192"
  shows "map_changed slots N n True s (with_data (slots (n div 8192))
      (snd (btsl (n mod 8192) (data_of s (slots (n div 8192))))) (s\<lparr>krn := cli (krn s)\<rparr>))"
  using marked_set [OF assms, of _ "s\<lparr>krn := cli (krn s)\<rparr>"]
  by (simp add: map_changed_def same_tables_def)

lemma map_changed_clear:
  assumes "map_ok slots N" "n < N * 8192"
  shows "map_changed slots N n False s (with_data (slots (n div 8192))
      (snd (btrl (n mod 8192) (data_of s (slots (n div 8192))))) (s\<lparr>krn := cli (krn s)\<rparr>))"
  using marked_clear [OF assms, of _ "s\<lparr>krn := cli (krn s)\<rparr>"]
  by (simp add: map_changed_def same_tables_def)

text \<open>The result of an allocation among the numbers below \<open>lim\<close>.\<close>

definition allocated :: "(nat \<Rightarrow> ptr) \<Rightarrow> nat \<Rightarrow> nat \<Rightarrow> fsys \<Rightarrow> nat option \<Rightarrow> fsys \<Rightarrow> bool" where
  "allocated slots N lim s r t \<longleftrightarrow>
     (case r of
        Some n \<Rightarrow> n < lim \<and> n < N * 8192 \<and> \<not> marked slots s n \<and> (\<forall>k<n. marked slots s k) \<and> map_changed slots N n True s t
      | None \<Rightarrow> (\<forall>k<N * 8192. k < lim \<longrightarrow> marked slots s k) \<and> map_same s t)"

lemma add_inode_bitmap_ok:
  assumes at: "super_at dev p s" and b: "b = super_block_list s p" and m: "map_ok (s_imap b) (unat (s_imap_blocks b))"
  shows "\<exists>r t. add_inode_bitmap dev s = Inr (case r of Some n \<Rightarrow> n | None \<Rightarrow> 0, t) \<and>
    allocated (s_imap b) (unat (s_imap_blocks b)) (unat (s_ninodes b) + 1) s r t"
proof -
  let ?s = "s\<lparr>krn := cli (krn s)\<rparr>" and ?N = "unat (s_imap_blocks b)" and ?sl = "s_imap b"
  note F = find_super_at [OF at]
  obtain bh j i where R: "map_scan ?sl ?N 0 None 8192 ?s = Inr ((Some bh, j, i), ?s)"
    "\<forall>k<j + i * 8192. k < ?N * 8192 \<longrightarrow> marked ?sl s k"
    "i = ?N \<and> j = 8192 \<or> i < ?N \<and> bh = ?sl i \<and> j < 8192 \<and> \<not> marked ?sl s (j + i * 8192)"
    using map_scan_first [OF m, of ?s] unfolding marked_cli by blast
  let ?n = "j + i * 8192"
  have run: "add_inode_bitmap dev s = (if bh = NULL \<or> j \<ge> 8192 \<or> ?n > unat (s_ninodes b)
      then Inr (0, ?s\<lparr>krn := printk (''can'' @ [CHR 0x27] @ ''t find empty inode map entry'') [] (cli (krn s))\<rparr>)
      else bnd (mark_bit bh j ''add_inode_bitmap: bit already set'' ?s) (\<lambda>r. Inr (?n, snd r)))"
    using F R(1) by (simp add: add_inode_bitmap_def fprintk_def b [symmetric])
  show ?thesis
  proof (cases "i \<noteq> ?N \<and> ?n \<le> unat (s_ninodes b)")
    case True
    then have i: "i < ?N" "bh = ?sl i" "j < 8192" "\<not> marked ?sl s ?n" using R(3) by auto
    have n: "?n < ?N * 8192" "?n div 8192 = i" "?n mod 8192 = j" using i by auto
    have nn: "bh \<noteq> NULL" using m i by (auto simp: map_ok_def)
    have "\<not> bit_of (data_of ?s bh) j" using i(2,4) n by (simp add: marked_def)
    then have "add_inode_bitmap dev s = Inr (?n, with_data bh (snd (btsl j (data_of ?s bh))) ?s)"
      using run True nn i(3) by (simp add: mark_bit_free)
    moreover have "map_changed ?sl ?N ?n True s (with_data bh (snd (btsl j (data_of ?s bh))) ?s)"
      using map_changed_set [OF m n(1), of s] i(2) n(2,3) by simp
    moreover have "\<forall>k<?n. marked ?sl s k" using R(2) n(1) by auto
    ultimately show ?thesis using True i(4) n(1)
      by (intro exI [of _ "Some ?n"] exI [of _ "with_data bh (snd (btsl j (data_of ?s bh))) ?s"]) (simp add: allocated_def)
  next
    case False
    then have "bh = NULL \<or> j \<ge> 8192 \<or> ?n > unat (s_ninodes b)" using R(3) by auto
    moreover have "marked ?sl s k" if "k < ?N * 8192" "k < unat (s_ninodes b) + 1" for k
    proof -
      have "k < ?n" using that False R(3) by (cases "i = ?N") auto
      then show ?thesis using R(2) that by blast
    qed
    ultimately show ?thesis using run
      by (intro exI [of _ None] exI) (auto simp: allocated_def map_same_def same_tables_def)
  qed
qed

text \<open>Zone number \<open>k\<close> of the map is block \<open>k - 1 + s_firstdatazone\<close> of the device.\<close>

definition zone_block :: "super_block \<Rightarrow> nat \<Rightarrow> int" where
  "zone_block b k = int k - 1 + int (unat (s_firstdatazone b))"

definition zone_limit :: "super_block \<Rightarrow> nat" where
  "zone_limit b = nat (int (unat (s_nzones b)) - int (unat (s_firstdatazone b)) + 2)"

lemma zone_limit: "k < zone_limit b \<longleftrightarrow> zone_block b k \<le> int (unat (s_nzones b))"
  by (auto simp: zone_limit_def zone_block_def)

text \<open>The state in which the bit of the number found has been set and its block is dirty.\<close>

definition marking :: "(nat \<Rightarrow> ptr) \<Rightarrow> fsys \<Rightarrow> nat option \<Rightarrow> fsys \<Rightarrow> bool" where
  "marking slots s r t \<longleftrightarrow>
     (let k = s\<lparr>krn := cli (krn s)\<rparr>
      in case r of
           Some n \<Rightarrow> t = with_data (slots (n div 8192)) (snd (btsl (n mod 8192) (data_of k (slots (n div 8192))))) k
         | None \<Rightarrow> \<exists>fmt as. t = k\<lparr>krn := printk fmt as (krn k)\<rparr>)"

lemma add_zone_bitmap_run:
  assumes at: "super_at dev p s" and b: "b = super_block_list s p" and m: "map_ok (s_zmap b) (unat (s_zmap_blocks b))"
  shows "\<exists>r t. add_zone_bitmap dev s = Inr (case r of Some n \<Rightarrow> zone_block b n | None \<Rightarrow> 0, t) \<and>
    allocated (s_zmap b) (unat (s_zmap_blocks b)) (zone_limit b) s r t \<and> marking (s_zmap b) s r t"
proof -
  let ?s = "s\<lparr>krn := cli (krn s)\<rparr>" and ?N = "unat (s_zmap_blocks b)" and ?sl = "s_zmap b"
  note F = find_super_at [OF at]
  obtain bh j i where R: "map_scan ?sl ?N 0 None 8192 ?s = Inr ((Some bh, j, i), ?s)"
    "\<forall>k<j + i * 8192. k < ?N * 8192 \<longrightarrow> marked ?sl s k"
    "i = ?N \<and> j = 8192 \<or> i < ?N \<and> bh = ?sl i \<and> j < 8192 \<and> \<not> marked ?sl s (j + i * 8192)"
    using map_scan_first [OF m, of ?s] unfolding marked_cli by blast
  let ?n = "j + i * 8192"
  have run: "add_zone_bitmap dev s = (if bh = NULL \<or> j \<ge> 8192 \<or> \<not> ?n < zone_limit b
      then Inr (0, ?s\<lparr>krn := printk (''can'' @ [CHR 0x27] @ ''t find empty zone map entry'') [] (cli (krn s))\<rparr>)
      else bnd (mark_bit bh j ''new_block: bit already set'' ?s) (\<lambda>r. Inr (zone_block b ?n, snd r)))"
    using F R(1) unfolding zone_limit by (simp add: add_zone_bitmap_def fprintk_def b [symmetric] zone_block_def not_le)
  show ?thesis
  proof (cases "i \<noteq> ?N \<and> ?n < zone_limit b")
    case True
    then have i: "i < ?N" "bh = ?sl i" "j < 8192" "\<not> marked ?sl s ?n" using R(3) by auto
    have n: "?n < ?N * 8192" "?n div 8192 = i" "?n mod 8192 = j" using i by auto
    have nn: "bh \<noteq> NULL" using m i by (auto simp: map_ok_def)
    have "\<not> bit_of (data_of ?s bh) j" using i(2,4) n by (simp add: marked_def)
    then have "add_zone_bitmap dev s = Inr (zone_block b ?n, with_data bh (snd (btsl j (data_of ?s bh))) ?s)"
      using run True nn i(3) by (simp add: mark_bit_free)
    moreover have "map_changed ?sl ?N ?n True s (with_data bh (snd (btsl j (data_of ?s bh))) ?s)"
      using map_changed_set [OF m n(1), of s] i(2) n(2,3) by simp
    moreover have "\<forall>k<?n. marked ?sl s k" using R(2) n(1) by auto
    ultimately show ?thesis using True i(4) n(1)
      by (intro exI [of _ "Some ?n"] exI [of _ "with_data bh (snd (btsl j (data_of ?s bh))) ?s"])
        (simp add: allocated_def marking_def i(2,3))
  next
    case False
    then have "bh = NULL \<or> j \<ge> 8192 \<or> \<not> ?n < zone_limit b" using R(3) by auto
    moreover have "marked ?sl s k" if "k < ?N * 8192" "k < zone_limit b" for k
    proof -
      have "k < ?n" using that False R(3) by (cases "i = ?N") auto
      then show ?thesis using R(2) that by blast
    qed
    ultimately show ?thesis using run
      by (intro exI [of _ None] exI) (auto simp: allocated_def map_same_def same_tables_def marking_def)
  qed
qed

lemma add_zone_bitmap_ok:
  assumes "super_at dev p s" "b = super_block_list s p" "map_ok (s_zmap b) (unat (s_zmap_blocks b))"
  shows "\<exists>r t. add_zone_bitmap dev s = Inr (case r of Some n \<Rightarrow> zone_block b n | None \<Rightarrow> 0, t) \<and>
    allocated (s_zmap b) (unat (s_zmap_blocks b)) (zone_limit b) s r t"
  using add_zone_bitmap_run [OF assms] by blast

lemma drop13: "unat (drop_bit 13 (n :: u32)) = unat n div 8192" "unat (n AND 8191) = unat n mod 8192"
proof -
  show "unat (drop_bit 13 n) = unat n div 8192"
    by (simp only: unat_drop_bit_eq) (simp add: drop_bit_eq_div)
  have "n AND 8191 = take_bit 13 n" by (simp add: take_bit_eq_mask mask_eq_exp_minus_1)
  then show "unat (n AND 8191) = unat n mod 8192"
    by (simp only: unsigned_take_bit_eq) (simp add: take_bit_eq_mod)
qed

lemma clear_map_bit_ok:
  assumes "map_ok slots N" "unat n < N * 8192"
  shows "\<exists>t. clear_map_bit slots n nomap msg (s\<lparr>krn := cli (krn s)\<rparr>) = Inr ((), t) \<and>
    map_changed slots N (unat n) False s t \<and>
    klog (krn t) = klog (krn s) @ (if marked slots s (unat n) then [] else [(msg, [])])"
proof -
  let ?i = "unat n div 8192" and ?s = "s\<lparr>krn := cli (krn s)\<rparr>"
  let ?t = "with_data (slots ?i) (snd (btrl (unat n mod 8192) (data_of s (slots ?i)))) ?s"
  have i: "?i < N" using assms(2) by (simp add: less_mult_imp_div_less)
  then have ok: "slots ?i \<noteq> NULL" "?i < 8" using assms(1) by (auto simp: map_ok_def)
  have ch: "map_changed slots N (unat n) False s ?t" using map_changed_clear [OF assms] by simp
  define t where "t = (if marked slots s (unat n) then ?t else ?t\<lparr>krn := printk msg [] (krn ?t)\<rparr>)"
  have "clear_map_bit slots n nomap msg ?s = Inr ((), t)"
    using ok by (simp add: t_def clear_map_bit_def drop13 get_data_def upd_data_def upd_head_def with_data_def
        data_of_def marked_def bt_old fprintk_def Let_def printk_def upd_bh_def cli_def)
  moreover have "map_changed slots N (unat n) False s t"
    using ch by (simp add: t_def map_changed_def marked_def same_tables_def)
  moreover have "klog (krn t) = klog (krn s) @ (if marked slots s (unat n) then [] else [(msg, [])])"
    by (simp add: t_def printk_def with_data_def upd_bh_def cli_def)
  ultimately show ?thesis by blast
qed

lemma free_inode_bitmap_ok:
  assumes at: "super_at dev p s" and b: "b = super_block_list s p" and m: "map_ok (s_imap b) (unat (s_imap_blocks b))"
    and n: "1 \<le> unat n" "unat n \<le> unat (s_ninodes b)" "unat n < unat (s_imap_blocks b) * 8192"
  shows "\<exists>t. free_inode_bitmap dev n s = Inr ((), t) \<and> map_changed (s_imap b) (unat (s_imap_blocks b)) (unat n) False s t"
proof -
  have "\<not> n < 1" "\<not> n > ucast (s_ninodes b)" using n by (auto simp: word_less_nat_alt)
  then show ?thesis
    using find_super_at [OF at] clear_map_bit_ok [OF m n(3), of _ _ s] by (auto simp: free_inode_bitmap_def b [symmetric])
qed

lemma free_zone_bitmap_ok:
  assumes at: "super_at dev p s" and b: "b = super_block_list s p" and m: "map_ok (s_zmap b) (unat (s_zmap_blocks b))"
    and k: "zone_block b k < int (unat (s_nzones b))" "1 \<le> k" "k < unat (s_zmap_blocks b) * 8192"
  shows "\<exists>t. free_zone_bitmap dev (word_of_int (zone_block b k)) s = Inr ((), t) \<and>
    map_changed (s_zmap b) (unat (s_zmap_blocks b)) k False s t"
proof -
  let ?blk = "word_of_int (zone_block b k) :: u32"
  have lt: "unat (s_nzones b) < 65536" "unat (s_firstdatazone b) < 65536" by (rule unat_u16_bound)+
  obtain z where z: "zone_block b k = int z" "z + 1 = k + unat (s_firstdatazone b)"
  proof
    show "zone_block b k = int (k + unat (s_firstdatazone b) - 1)" using k(2) by (simp add: zone_block_def of_nat_diff)
  qed (use k(2) in simp)
  have zlt: "z < unat (s_nzones b)" using k(1) unfolding z(1) of_nat_less_iff .
  have ub: "unat ?blk = z" using zlt lt by (simp add: z(1) unat_of_nat)
  have "?blk - (ucast (s_firstdatazone b) - 1) = (of_nat k :: u32)"
  proof -
    have "(of_nat (z + 1) :: u32) = of_nat k + of_nat (unat (s_firstdatazone b))" by (simp only: z(2) of_nat_add)
    then show ?thesis by (simp add: z(1) algebra_simps)
  qed
  moreover have uk: "unat (of_nat k :: u32) = k" using z(2) zlt lt by (simp add: unat_of_nat)
  moreover have "\<not> ?blk < ucast (s_firstdatazone b)" "\<not> ?blk \<ge> ucast (s_nzones b)"
    using ub zlt z(2) k(2) by (auto simp: word_less_nat_alt word_le_nat_alt)
  ultimately show ?thesis
    using find_super_at [OF at] clear_map_bit_ok [OF m, of "of_nat k" _ _ s] k(3)
    by (auto simp: free_zone_bitmap_def b [symmetric])
qed

lemma super_at_tables: "same_tables s t \<Longrightarrow> super_at dev p t = super_at dev p s"
  by (simp add: super_at_def same_tables_def)

lemma allocated_first:
  assumes "allocated slots N lim s r t" "n < lim" "n < N * 8192" "\<not> marked slots s n" "\<forall>k<n. marked slots s k"
  shows "r = Some n"
proof (cases r)
  case None
  then show ?thesis using assms by (auto simp: allocated_def)
next
  case (Some k)
  then have k: "\<not> marked slots s k" "\<forall>j<k. marked slots s j" using assms(1) by (auto simp: allocated_def)
  have "k = n" using k assms(4,5) by (metis linorder_neqE_nat)
  then show ?thesis using Some by simp
qed

lemma map_changed_back:
  assumes "map_changed slots N n True s t" "map_changed slots N n False t u" "\<not> marked slots s n" "n < N * 8192"
  shows "\<forall>k<N * 8192. marked slots u k = marked slots s k"
  using assms by (auto simp: map_changed_def)

lemma map_changed_tables: "map_changed slots N n b s t \<Longrightarrow> same_tables s t"
  by (simp add: map_changed_def)

text \<open>The block that is one past the last zone is handed out, and cannot be given back.\<close>

lemma zone_past_end:
  assumes at: "super_at dev p s" and b: "b = super_block_list s p" and m: "map_ok (s_zmap b) (unat (s_zmap_blocks b))"
    and k: "zone_block b k = int (unat (s_nzones b))" "k < unat (s_zmap_blocks b) * 8192"
    and free: "\<not> marked (s_zmap b) s k" "\<forall>j<k. marked (s_zmap b) s j"
  shows "\<exists>t. add_zone_bitmap dev s = Inr (int (unat (s_nzones b)), t) \<and>
    free_zone_bitmap dev (ucast (s_nzones b)) t = Inl (Panic ''trying to free block not in datazone'')"
proof -
  obtain r t where r: "add_zone_bitmap dev s = Inr (case r of Some n \<Rightarrow> zone_block b n | None \<Rightarrow> 0, t)"
    "allocated (s_zmap b) (unat (s_zmap_blocks b)) (zone_limit b) s r t"
    using add_zone_bitmap_ok [OF at b m] by blast
  have "k < zone_limit b" using k(1) by (simp add: zone_limit)
  then have rk: "r = Some k" using allocated_first [OF r(2)] k(2) free by blast
  then have st: "same_tables s t" using r(2) by (simp add: allocated_def map_changed_def)
  have "super_at dev p t" using super_at_tables [OF st] at by simp
  moreover have "super_block_list t p = b" using st b by (simp add: same_tables_def)
  ultimately have "free_zone_bitmap dev (ucast (s_nzones b)) t = Inl (Panic ''trying to free block not in datazone'')"
    using find_super_at [of dev p t] by (simp add: free_zone_bitmap_def)
  then show ?thesis using r(1) rk k(1) by simp
qed

end
