(* ===== verification/Inode_Inv.thy ===== *)
theory Inode_Inv
  imports Inode Bitmap
begin

text \<open>
  Properties of inodes: their encoding on the disk, the table of inodes in memory, and the locks.
\<close>

section \<open>The encoding\<close>

text \<open>Loads skip stores elsewhere.\<close>

named_theorems skip_store

lemma skip16 [skip_store]:
  "b + 1 < a \<or> a + 1 < b \<Longrightarrow> load16 (store16 a v m) b = load16 m b"
  "b + 1 < a \<or> a + 3 < b \<Longrightarrow> load16 (store32 a w m) b = load16 m b"
  "b + 1 < a \<or> a < b \<Longrightarrow> load16 (m(a := c)) b = load16 m b"
  by (rule load_store16_other, assumption) (auto intro!: load16_cong simp: store32_frame)

lemma skip32 [skip_store]:
  "b + 3 < a \<or> a + 1 < b \<Longrightarrow> load32 (store16 a v m) b = load32 m b"
  "b + 3 < a \<or> a + 3 < b \<Longrightarrow> load32 (store32 a w m) b = load32 m b"
  "b + 3 < a \<or> a < b \<Longrightarrow> load32 (m(a := c)) b = load32 m b"
  by (auto intro!: load32_cong simp: store32_frame store16_frame)

lemma skip8 [skip_store]:
  "x < a \<or> a + 1 < x \<Longrightarrow> store16 a v m x = m x"
  "x < a \<or> a + 3 < x \<Longrightarrow> store32 a w m x = m x"
  by (auto simp: store32_frame store16_frame)

definition put_zones :: "nat \<Rightarrow> (nat \<Rightarrow> u16) \<Rightarrow> nat \<Rightarrow> mem \<Rightarrow> mem" where
  "put_zones a zs n m = fold (\<lambda>z. store16 (a + 2 * z) (zs z)) [0..<n] m"

lemma put_zones_Suc: "put_zones a zs (Suc n) m = store16 (a + 2 * n) (zs n) (put_zones a zs n m)"
  by (simp add: put_zones_def)

lemma put_zones_frame: "x < a \<or> a + 2 * n \<le> x \<Longrightarrow> put_zones a zs n m x = m x"
proof (induction n)
  case (Suc n)
  then show ?case by (auto simp: put_zones_Suc store16_frame)
qed (simp add: put_zones_def)

lemma put_zones_load: "z < n \<Longrightarrow> load16 (put_zones a zs n m) (a + 2 * z) = zs z"
proof (induction n)
  case (Suc n)
  then show ?case
    by (cases "z = n") (simp_all add: put_zones_Suc load_store16 load_store16_other)
qed simp

lemma encode_inode_zones:
  "encode_inode off i m = put_zones (off + 14) (i_zone i) 9
     ((store32 (off + 8) (i_mtime i) (store32 (off + 4) (i_size i) (store16 (off + 2) (i_uid i) (store16 off (i_mode i) m))))
        (off + 12 := i_gid i, off + 13 := i_nlinks i))"
  by (simp only: encode_inode_def put_zones_def Let_def)

lemma encode_inode_frame: "x < off \<or> off + 32 \<le> x \<Longrightarrow> encode_inode off i m x = m x"
  unfolding encode_inode_zones by (subst put_zones_frame) (auto simp: skip_store)

lemma encode_inode_fields:
  fixes off i m
  defines "m' \<equiv> encode_inode off i m"
  shows "load16 m' off = i_mode i" "load16 m' (off + 2) = i_uid i" "load32 m' (off + 4) = i_size i"
    "load32 m' (off + 8) = i_mtime i" "m' (off + 12) = i_gid i" "m' (off + 13) = i_nlinks i"
    "z < 9 \<Longrightarrow> load16 m' (off + 14 + 2 * z) = i_zone i z"
proof -
  have l16: "load16 (put_zones (off + 14) zs 9 n) a = load16 n a" if "a + 1 < off + 14" for a zs n
    using that by (intro load16_cong put_zones_frame) auto
  have l32: "load32 (put_zones (off + 14) zs 9 n) a = load32 n a" if "a + 3 < off + 14" for a zs n
    using that by (intro load32_cong put_zones_frame) auto
  show "load16 m' off = i_mode i" "load16 m' (off + 2) = i_uid i" "load32 m' (off + 4) = i_size i"
    "load32 m' (off + 8) = i_mtime i" "m' (off + 12) = i_gid i" "m' (off + 13) = i_nlinks i"
    unfolding m'_def encode_inode_zones
    by (simp_all add: l16 l32 skip_store load_store16 load_store32 put_zones_frame)
  show "z < 9 \<Longrightarrow> load16 m' (off + 14 + 2 * z) = i_zone i z"
    unfolding m'_def encode_inode_zones by (rule put_zones_load)
qed

text \<open>Two inodes that agree in everything but what is kept in memory only.\<close>

lemma decode_encode:
  "decode_inode off (encode_inode off i m) j =
     j\<lparr>i_mode := i_mode i, i_uid := i_uid i, i_size := i_size i, i_mtime := i_mtime i, i_gid := i_gid i,
       i_nlinks := i_nlinks i, i_zone := (\<lambda>z. if z < 9 then i_zone i z else i_zone j z)\<rparr>"
  unfolding decode_inode_def encode_inode_fields(1-6)
  by (intro m_inode.equality) (simp_all add: fun_eq_iff encode_inode_fields(7))

section \<open>What code leaves alone\<close>

text \<open>
  A relation between the states before and after, with the rules that establish it for a piece of code from
  its parts.
\<close>

definition keeps :: "(fsys \<Rightarrow> fsys \<Rightarrow> bool) \<Rightarrow> 'a fsm \<Rightarrow> bool" where
  "keeps R m \<longleftrightarrow> (\<forall>s r t. m s = Inr (r, t) \<longrightarrow> R s t)"

named_theorems keep_rules

locale kept =
  fixes R :: "fsys \<Rightarrow> fsys \<Rightarrow> bool"
  assumes refl: "R s s"
    and trans: "R s t \<Longrightarrow> R t u \<Longrightarrow> R s u"
begin

lemma keep_pure [keep_rules]: "keeps R (ret v)" "keeps R (fstop e)" "keeps R (gets g)" "keeps R (get_data bh gd)"
  by (auto simp: keeps_def refl get_data_def split: if_splits)

lemma keep_bind [keep_rules]: "keeps R m \<Longrightarrow> (\<And>x. keeps R (f x)) \<Longrightarrow> keeps R (fbind m f)"
  unfolding keeps_def fsm_simps bnd_eq_Inr by (metis fst_conv snd_conv surj_pair trans)

lemma keep_bind_when:
  "(\<And>s x t. m s = Inr (x, t) \<Longrightarrow> P x) \<Longrightarrow> keeps R m \<Longrightarrow> (\<And>x. P x \<Longrightarrow> keeps R (f x)) \<Longrightarrow> keeps R (fbind m f)"
  unfolding keeps_def fsm_simps bnd_eq_Inr by (metis fst_conv snd_conv surj_pair trans)

lemma keep_let [keep_rules]: "keeps R (f x) \<Longrightarrow> keeps R (Let x f)"
  by simp

lemma keep_if [keep_rules]: "(c \<Longrightarrow> keeps R m) \<Longrightarrow> (\<not> c \<Longrightarrow> keeps R n) \<Longrightarrow> keeps R (if c then m else n)"
  by simp

lemma keep_iff_do [keep_rules]: "(c \<Longrightarrow> keeps R m) \<Longrightarrow> keeps R (iff_do c m)"
  by (auto simp: keeps_def refl)

lemma keep_prod [keep_rules]: "(\<And>x y. keeps R (f x y)) \<Longrightarrow> keeps R (case z of (x, y) \<Rightarrow> f x y)"
  by (cases z) simp

lemma keep_option [keep_rules]: "keeps R m \<Longrightarrow> (\<And>x. keeps R (f x)) \<Longrightarrow> keeps R (case z of None \<Rightarrow> m | Some x \<Rightarrow> f x)"
  by (cases z) simp_all

lemma keep_each [keep_rules]: "(\<And>x. keeps R (f x)) \<Longrightarrow> keeps R (each xs f)"
  by (induction xs) (simp_all add: keep_pure keep_bind)

end

text \<open>If the relation ignores the block layer, all code of that layer keeps it.\<close>

locale frame = kept +
  assumes below: "R s (s\<lparr>krn := k\<rparr>)"
begin

lemma keep_basic [keep_rules]:
  "keeps R (kmod h)" "keeps R (kcall kc)" "keeps R (kproc kp)"
  "keeps R (upd_data bh ud)" "keeps R (upd_head bh uh)" "keeps R (fprintk fmt as)"
  by (auto simp: keeps_def refl below kcall_def kproc_def bnd_eq_Inr upd_data_def upd_head_def fprintk_def
      split: if_splits)

end

text \<open>The tables are unchanged, or changed only in the counts, locks and dirty marks of inodes and the locks of super blocks.\<close>

interpretation tables: frame same_tables
  by unfold_locales (auto simp: same_tables_def)

definition same_keys :: "fsys \<Rightarrow> fsys \<Rightarrow> bool" where
  "same_keys s t \<longleftrightarrow> (\<forall>q. i_dev (inode_list t q) = i_dev (inode_list s q) \<and> i_num (inode_list t q) = i_num (inode_list s q) \<and>
     i_count (inode_list t q) = i_count (inode_list s q))"

interpretation keys: frame same_keys
  by unfold_locales (auto simp: same_keys_def)

lemma keeps_mono: "keeps R m \<Longrightarrow> (\<And>s t. R s t \<Longrightarrow> R' s t) \<Longrightarrow> keeps R' m"
  by (auto simp: keeps_def)

lemma same_tables_keys: "same_tables s t \<Longrightarrow> same_keys s t"
  by (simp add: same_tables_def same_keys_def)

lemma keeps_keys_upd [keep_rules]:
  "(\<And>i. i_dev (f i) = i_dev i \<and> i_num (f i) = i_num i \<and> i_count (f i) = i_count i) \<Longrightarrow> keeps same_keys (upd_inode p f)"
  "keeps same_keys (upd_super q g)"
  by (simp_all add: keeps_def same_keys_def)

lemma keeps_super_scan: "keeps same_tables (super_scan n p dev)"
  by (induction n arbitrary: p) (simp_all add: tables.keep_basic tables.keep_pure tables.keep_bind wait_on_super_def)

lemma keeps_find_super [keep_rules]: "keeps same_tables (find_super dev)" "keeps same_keys (find_super dev)"
proof -
  show "keeps same_tables (find_super dev)" by (simp add: find_super_def tables.keep_pure keeps_super_scan)
  then show "keeps same_keys (find_super dev)" by (rule keeps_mono) (rule same_tables_keys)
qed

lemma keeps_sync_inode [keep_rules]: "keeps same_keys (sync_inode_to_buff p)"
  unfolding sync_inode_to_buff_def lock_inode_def unlock_inode_def by (intro keep_rules) auto

lemma keeps_wait_on_inode [keep_rules]: "keeps same_keys (wait_on_inode p)" "keeps same_tables (wait_on_inode p)"
  unfolding wait_on_inode_def by (intro keep_rules)+

lemma keeps_clean_inode [keep_rules]: "keeps same_keys (clean_inode n p)"
proof (induction n)
  case (Suc n)
  show ?case unfolding clean_inode.simps by (intro keep_rules Suc)
qed (unfold clean_inode.simps, rule keep_rules)

section \<open>The table of inodes\<close>

definition inode_key :: "m_inode \<Rightarrow> u32 \<times> u32" where
  "inode_key i = (ucast (i_dev i), ucast (i_num i))"

abbreviation key_at :: "fsys \<Rightarrow> ptr \<Rightarrow> u32 \<times> u32" where
  "key_at s p \<equiv> inode_key (inode_list s p)"

definition slot :: "ptr \<Rightarrow> bool" where
  "slot p \<longleftrightarrow> 1 \<le> p \<and> p \<le> NR_INODE"

text \<open>No inode is in the table twice.\<close>

definition unique_inodes :: "fsys \<Rightarrow> bool" where
  "unique_inodes s \<longleftrightarrow> (\<forall>p q. slot p \<and> slot q \<and> key_at s p = key_at s q \<and> i_dev (inode_list s p) \<noteq> 0 \<longrightarrow> p = q)"

definition short :: "u32 \<Rightarrow> bool" where
  "short w \<longleftrightarrow> unat w < 65536"

lemma same_keys_at: "same_keys s t \<Longrightarrow> key_at t p = key_at s p"
  by (simp add: same_keys_def inode_key_def)

lemma unique_inodes_cong: "same_keys s t \<Longrightarrow> unique_inodes t = unique_inodes s"
  by (simp add: unique_inodes_def same_keys_at) (simp add: same_keys_def)

text \<open>\<open>find_inode\<close>: what is not found is not in the table, for the device and number it ends with.\<close>

lemma inode_scan_result:
  assumes "inode_scan n p dev nr s = Inr ((r, d, k), t)" "1 \<le> p"
    "\<forall>q. 1 \<le> q \<and> q < p \<longrightarrow> key_at s q \<noteq> (dev, nr)"
  shows "same_tables s t \<and> (r = NULL \<longrightarrow> (\<forall>q. slot q \<longrightarrow> key_at s q \<noteq> (d, k))) \<and>
    (r \<noteq> NULL \<longrightarrow> slot r \<and> key_at s r = (d, k)) \<and> (short dev \<and> short nr \<longrightarrow> short d \<and> short k)"
  using assms
proof (induction n arbitrary: p dev nr)
  case (Suc n)
  let ?i = "inode_list s p"
  consider "p > NR_INODE" | "p \<le> NR_INODE" "key_at s p \<noteq> (dev, nr)"
    | "p \<le> NR_INODE" "key_at s p = (dev, nr)" "i_mount ?i = 0" | "p \<le> NR_INODE" "key_at s p = (dev, nr)" "i_mount ?i \<noteq> 0"
    by linarith
  then show ?case
  proof cases
    case 1
    then show ?thesis using Suc.prems by (auto simp: slot_def)
  next
    case 2
    then have "inode_scan n (p + 1) dev nr s = Inr ((r, d, k), t)"
      using Suc.prems(1) by (auto simp: inode_key_def split: if_splits)
    then show ?thesis using Suc.IH [of "p + 1" dev nr] Suc.prems(3) 2 by (auto simp: less_Suc_eq)
  next
    case 3
    then show ?thesis using Suc.prems by (auto simp: inode_key_def slot_def fprintk_def)
  next
    case 4
    let ?k = "mount_slot NR_SUPER 1 p (super_block_list s)"
    show ?thesis
    proof (cases "?k > NR_SUPER")
      case True
      then show ?thesis using 4 Suc.prems by (auto simp: inode_key_def slot_def fprintk_def)
    next
      case False
      then have "inode_scan n 1 (ucast (s_dev (super_block_list s ?k))) ROOT_INO s = Inr ((r, d, k), t)"
        using 4 Suc.prems(1) by (simp add: inode_key_def)
      moreover have "short (ucast (s_dev (super_block_list s ?k)))" "short ROOT_INO"
        using unat_u16_bound by (simp_all add: short_def)
      ultimately show ?thesis using Suc.IH [of 1] by auto
    qed
  qed
qed simp

lemma find_inode_result:
  assumes "find_inode dev nr s = Inr ((r, d, k), t)"
  shows "same_tables s t \<and> (r = NULL \<longrightarrow> (\<forall>q. slot q \<longrightarrow> key_at s q \<noteq> (d, k))) \<and>
    (r \<noteq> NULL \<longrightarrow> slot r \<and> key_at s r = (d, k)) \<and> (short dev \<and> short nr \<longrightarrow> short d \<and> short k)"
proof -
  let ?s = "s\<lparr>krn := printk (''debug_fs: in find_inode[0x%x:0x%x]'' @ NLCR) [ArgI dev, ArgI nr] (krn s)\<rparr>"
  have "inode_scan (9 * 33) 1 dev nr ?s = Inr ((r, d, k), t)"
    using assms by (simp add: find_inode_def fprintk_def split: if_splits del: inode_scan.simps)
  from inode_scan_result [OF this] show ?thesis by (simp add: same_tables_def)
qed

lemma pick_inode_ok:
  assumes "slot (last_inode s)"
  shows "\<exists>p t. pick_inode n best s = Inr (p, t) \<and> inode_list t = inode_list s \<and> super_block_list t = super_block_list s \<and>
    krn t = krn s \<and> slot (last_inode t) \<and> (p = best \<or> slot p \<and> i_count (inode_list s p) = 0)"
  using assms
proof (induction n arbitrary: best s)
  case (Suc n)
  define p where "p = (if last_inode s + 1 > NR_INODE then 1 else last_inode s + 1)"
  have sp: "slot p" using Suc.prems by (simp add: slot_def p_def)
  let ?s = "s\<lparr>last_inode := p\<rparr>"
  have IH: "\<exists>q t. pick_inode n b ?s = Inr (q, t) \<and> inode_list t = inode_list s \<and> super_block_list t = super_block_list s \<and>
      krn t = krn s \<and> slot (last_inode t) \<and> (q = b \<or> slot q \<and> i_count (inode_list s q) = 0)" for b
    using Suc.IH [of ?s b] sp by simp
  have "next_inode s = Inr (p, ?s)" by (simp add: next_inode_def p_def Let_def)
  then have run: "pick_inode (Suc n) best s =
      (if i_count (inode_list s p) = 0 \<and> (best = NULL \<or> inode_badness (inode_list s p) < inode_badness (inode_list s best))
       then (if inode_badness (inode_list s p) = 0 then Inr (p, ?s) else pick_inode n p ?s)
       else pick_inode n best ?s)"
    by auto
  show ?case
  proof (cases "i_count (inode_list s p) = 0 \<and> (best = NULL \<or> inode_badness (inode_list s p) < inode_badness (inode_list s best))")
    case True
    show ?thesis
    proof (cases "inode_badness (inode_list s p) = 0")
      case False
      then show ?thesis using run True IH [of p] sp by auto
    qed (use run True sp in simp)
  next
    case False
    show ?thesis unfolding run if_not_P [OF False] by (rule IH)
  qed
qed auto

text \<open>\<open>new_inode\<close> gives an unused slot to an inode that is not in the table.\<close>

definition renewed_inode :: "ptr \<Rightarrow> fsys \<Rightarrow> fsys \<Rightarrow> bool" where
  "renewed_inode p s t \<longleftrightarrow> slot p \<and> i_count (inode_list s p) = 0 \<and> i_count (inode_list t p) = 1 \<and>
     (\<forall>q. slot q \<longrightarrow> key_at s q \<noteq> key_at t p) \<and>
     (\<forall>q. q \<noteq> p \<longrightarrow> key_at t q = key_at s q \<and> i_count (inode_list t q) = i_count (inode_list s q))"

lemma install_inode_result:
  assumes "slot p" "i_count (inode_list s p) = 0" "same_keys s s2" "short dev" "short nr" "install_inode p dev nr s2 = Inr (q, t)"
  shows "if q = NULL then same_keys s t else q = p \<and> renewed_inode p s t"
proof -
  obtain r d k s3 where f: "find_inode dev nr s2 = Inr ((r, d, k), s3)"
    using assms(6) by (auto simp: install_inode_def bnd_eq_Inr)
  note F = find_inode_result [OF f]
  have k3: "same_keys s s3" using F same_tables_keys keys.trans [OF assms(3)] by blast
  show ?thesis
  proof (cases "r = NULL")
    case False
    then show ?thesis using assms(6) f keys.trans [OF k3 keys.below] by (auto simp: install_inode_def fprintk_def)
  next
    case True
    have sh: "short d" "short k" using F assms(4,5) by blast+
    have trunc: "(ucast (ucast d :: u16) :: u32) = d" "(ucast (ucast k :: u16) :: u32) = k"
      using sh by (simp_all add: short_def ucast_u16_u32)
    have pq: "q = p" and t: "inode_list t = (inode_list s3)(p := zero_inode\<lparr>i_count := 1, i_dev := ucast d, i_num := ucast k\<rparr>)"
      using assms(6) f True by (auto simp: install_inode_def fprintk_def)
    have kq: "key_at t p = (d, k)" by (simp add: t inode_key_def trunc)
    have "key_at t q' = key_at s q' \<and> i_count (inode_list t q') = i_count (inode_list s q')" if "q' \<noteq> p" for q'
      using k3 that by (simp add: t same_keys_at) (simp add: same_keys_def)
    moreover have "\<forall>q'. slot q' \<longrightarrow> key_at s q' \<noteq> (d, k)" using F True same_keys_at [OF assms(3)] by simp
    ultimately have "renewed_inode p s t" using assms(1,2) kq by (simp add: renewed_inode_def) (simp add: t)
    then show ?thesis using pq assms(1) by (simp add: slot_def)
  qed
qed

lemma new_inode_result:
  assumes "slot (last_inode s)" "short dev" "short nr" "new_inode dev nr s = Inr (p, t)"
  shows "if p = NULL then same_keys s t else renewed_inode p s t"
proof -
  let ?s = "s\<lparr>krn := printk (''debug_fs: in new_inode'' @ NL) [] (krn s)\<rparr>"
  obtain q s1 where q: "pick_inode NR_INODE NULL ?s = Inr (q, s1)" "inode_list s1 = inode_list s"
      "q = NULL \<or> slot q \<and> i_count (inode_list s q) = 0"
    using pick_inode_ok [of ?s NR_INODE NULL] assms(1) by auto
  have k1: "same_keys s s1" using q(2) by (simp add: same_keys_def)
  have run: "new_inode dev nr s = (if q = NULL then bnd (print_inodes s1) (\<lambda>_. Inl (Panic ''No free inodes in mem''))
      else bnd (clean_inode 2 q s1) (\<lambda>r. if \<not> fst r then Inr (NULL, snd r) else install_inode q dev nr (snd r)))"
    using q(1) by (simp add: new_inode_def fprintk_def cong: if_cong)
  have qn: "q \<noteq> NULL"
  proof
    assume "q = NULL"
    then have "bnd (print_inodes s1) (\<lambda>_. Inl (Panic ''No free inodes in mem'')) = Inr (p, t)" using assms(4) run by simp
    then show False by (auto simp: bnd_eq_Inr)
  qed
  then obtain c s2 where c: "clean_inode 2 q s1 = Inr (c, s2)"
      "(if \<not> c then Inr (NULL, s2) else install_inode q dev nr s2) = Inr (p, t)"
    using assms(4) run by (auto simp: bnd_eq_Inr cong: if_cong)
  have k2: "same_keys s s2" using keeps_clean_inode [of 2 q] c(1) keys.trans [OF k1] by (auto simp: keeps_def)
  show ?thesis
  proof (cases c)
    case False
    then show ?thesis using c(2) k2 by simp
  next
    case True
    have sq: "slot q" "i_count (inode_list s q) = 0" using q(3) qn by auto
    have "install_inode q dev nr s2 = Inr (p, t)" using c(2) True by simp
    from install_inode_result [OF sq k2 assms(2,3) this] show ?thesis by (auto split: if_splits)
  qed
qed

lemma renewed_unique:
  assumes "unique_inodes s" "renewed_inode p s t"
  shows "unique_inodes t"
  unfolding unique_inodes_def
proof (intro allI impI)
  fix a b
  assume a: "slot a \<and> slot b \<and> key_at t a = key_at t b \<and> i_dev (inode_list t a) \<noteq> 0"
  have dev: "i_dev (inode_list t a) = i_dev (inode_list s a)" if "a \<noteq> p"
  proof -
    have "key_at t a = key_at s a" using assms(2) that by (simp add: renewed_inode_def)
    then show ?thesis by (simp add: inode_key_def ucast_u32_inj)
  qed
  show "a = b"
  proof (cases "a = p \<or> b = p")
    case True
    show ?thesis
    proof (rule ccontr)
      assume "a \<noteq> b"
      then obtain c where c: "c \<noteq> p" "slot c" "key_at t c = key_at t p" using True a by metis
      then have "key_at s c = key_at t p" using assms(2) by (simp add: renewed_inode_def)
      then show False using assms(2) c(2) by (simp add: renewed_inode_def)
    qed
  next
    case False
    then show ?thesis using a assms dev by (auto simp: renewed_inode_def unique_inodes_def)
  qed
qed

text \<open>The search pointer of \<open>new_inode\<close> stays in the table.\<close>

definition keeps_last :: "fsys \<Rightarrow> fsys \<Rightarrow> bool" where
  "keeps_last s t \<longleftrightarrow> (slot (last_inode s) \<longrightarrow> slot (last_inode t))"

interpretation last: frame keeps_last
  by unfold_locales (auto simp: keeps_last_def)

lemma keeps_last_basic [keep_rules]:
  "keeps keeps_last (upd_inode p f)" "keeps keeps_last (upd_super q g)" "keeps keeps_last (find_super dev)"
  "keeps keeps_last (wait_on_inode p)" "keeps keeps_last next_inode"
proof -
  show "keeps keeps_last (find_super dev)" "keeps keeps_last (wait_on_inode p)"
    by (rule keeps_mono [of same_tables], rule keep_rules, simp add: keeps_last_def same_tables_def)+
qed (auto simp: keeps_def keeps_last_def next_inode_def slot_def Let_def)

lemma keeps_last_inode_scan [keep_rules]: "keeps keeps_last (inode_scan n p dev nr)"
proof (induction n arbitrary: p dev nr)
  case (Suc n)
  show ?case unfolding inode_scan.simps by (intro keep_rules Suc)
qed (unfold inode_scan.simps, rule keep_rules)

lemma keeps_last_pick [keep_rules]: "keeps keeps_last (pick_inode n best)"
proof (induction n arbitrary: best)
  case (Suc n)
  show ?case unfolding pick_inode.simps by (intro keep_rules Suc)
qed (unfold pick_inode.simps, rule keep_rules)

lemma keeps_last_sync [keep_rules]: "keeps keeps_last (sync_inode_to_buff p)"
  unfolding sync_inode_to_buff_def lock_inode_def unlock_inode_def by (intro keep_rules)

lemma keeps_last_clean [keep_rules]: "keeps keeps_last (clean_inode n p)"
proof (induction n)
  case (Suc n)
  show ?case unfolding clean_inode.simps by (intro keep_rules Suc)
qed (unfold clean_inode.simps, rule keep_rules)

lemma keeps_last_new_inode [keep_rules]: "keeps keeps_last (new_inode dev nr)"
  unfolding new_inode_def install_inode_def find_inode_def print_inodes_def by (intro keep_rules)

text \<open>\<open>retain_inode\<close> and \<open>get_inode\<close>.\<close>

definition counted_inode :: "ptr \<Rightarrow> fsys \<Rightarrow> fsys \<Rightarrow> bool" where
  "counted_inode p s t \<longleftrightarrow> slot p \<and> (\<forall>q. key_at t q = key_at s q \<and> i_dev (inode_list t q) = i_dev (inode_list s q) \<and>
     i_count (inode_list t q) = (if q = p then i_count (inode_list s q) + 1 else i_count (inode_list s q)))"

lemma retain_inode_result:
  assumes "retain_inode dev nr s = Inr ((p, d, k), t)"
  shows "(if p = NULL then same_tables s t else counted_inode p s t \<and> key_at t p = (d, k) \<and> last_inode t = last_inode s) \<and>
    (short dev \<and> short nr \<longrightarrow> short d \<and> short k)"
proof -
  have dev: "dev \<noteq> 0" using assms by (auto simp: retain_inode_def)
  have "retain_inode_loop (Suc 1) dev nr s = Inr ((p, d, k), t)"
    using assms by (simp add: retain_inode_def numeral_2_eq_2 split: if_splits del: retain_inode_loop.simps)
  then obtain r d' k' s1 where f: "find_inode dev nr s = Inr ((r, d', k'), s1)"
    by (auto simp: bnd_eq_Inr)
  note F = find_inode_result [OF f]
  have run: "retain_inode dev nr s = (if r = NULL then Inr ((NULL, d', k'), s1)
      else bnd (wait_on_inode r s1) (\<lambda>x. let s2 = snd x; i = inode_list s2 r in
        if ucast (i_dev i) \<noteq> d' \<or> ucast (i_num i) \<noteq> k' then retain_inode_loop 1 d' k' s2
        else Inr ((r, d', k'), s2\<lparr>inode_list := (inode_list s2)(r := i\<lparr>i_count := i_count i + 1\<rparr>),
                krn := printk (''debug_fs:retained inode[0x%x:0x%x]'' @ NLCR) [ArgI d', ArgI k'] (krn s2)\<rparr>)))"
    using f dev by (simp add: retain_inode_def numeral_2_eq_2 fprintk_def Let_def cong: if_cong)
  show ?thesis
  proof (cases "r = NULL")
    case True
    then show ?thesis using run assms F by auto
  next
    case False
    then obtain x where x: "wait_on_inode r s1 = Inr x"
      using assms unfolding run by (auto simp: bnd_eq_Inr simp del: split_paired_Ex)
    obtain s2 where s2: "wait_on_inode r s1 = Inr ((), s2)" using x by (cases x) simp
    have st: "same_tables s s2"
      using keeps_wait_on_inode(2) [of r] s2 F tables.trans [of s s1 s2] by (auto simp: keeps_def)
    have key: "ucast (i_dev (inode_list s2 r)) = d'" "ucast (i_num (inode_list s2 r)) = k'"
      using F False st by (auto simp: same_tables_def inode_key_def)
    define T where "T = s2\<lparr>inode_list := (inode_list s2)(r := (inode_list s2 r)\<lparr>i_count := i_count (inode_list s2 r) + 1\<rparr>),
           krn := printk (''debug_fs:retained inode[0x%x:0x%x]'' @ NLCR) [ArgI d', ArgI k'] (krn s2)\<rparr>"
    have "retain_inode dev nr s = Inr ((r, d', k'), T)"
      unfolding run T_def using s2 key False by (simp add: Let_def)
    then have res: "p = r" "d = d'" "k = k'" "t = T" using assms by simp_all
    have "counted_inode r s t" using F False st by (auto simp: res T_def counted_inode_def same_tables_def inode_key_def)
    then show ?thesis using F False st key by (simp add: res(1-3)) (simp add: res(4) T_def same_tables_def inode_key_def)
  qed
qed

lemma counted_unique: "unique_inodes s \<Longrightarrow> counted_inode p s t \<Longrightarrow> unique_inodes t"
  by (simp add: unique_inodes_def counted_inode_def)

lemma get_inode_loop_result:
  assumes "slot (last_inode s)" "short dev" "short nr" "unique_inodes s" "get_inode_loop n dev nr s = Inr (p, t)"
  shows "unique_inodes t \<and> (\<exists>u. same_keys s u \<and> (counted_inode p u t \<or> renewed_inode p u t))"
  using assms
proof (induction n arbitrary: s dev nr)
  case (Suc n)
  obtain q d k s1 where r: "retain_inode dev nr s = Inr ((q, d, k), s1)"
    using Suc.prems(5) by (auto simp: bnd_eq_Inr)
  note R = retain_inode_result [OF r]
  show ?case
  proof (cases "q = NULL")
    case False
    then have "p = q" "t = s1" "counted_inode q s t" using Suc.prems(5) r R by auto
    then show ?thesis using counted_unique Suc.prems(4) keys.refl by blast
  next
    case True
    then have st: "same_tables s s1" and sh: "short d" "short k" using R Suc.prems(2,3) by auto
    have k1: "same_keys s s1" by (rule same_tables_keys [OF st])
    have l1: "slot (last_inode s1)" using st Suc.prems(1) by (simp add: same_tables_def)
    have u1: "unique_inodes s1" using unique_inodes_cong [OF k1] Suc.prems(4) by simp
    obtain q2 s2 where n: "new_inode d k s1 = Inr (q2, s2)"
      using Suc.prems(5) r True by (auto simp: bnd_eq_Inr)
    note N = new_inode_result [OF l1 sh n]
    show ?thesis
    proof (cases "q2 = NULL")
      case False
      then have "p = q2" "t = s2" "renewed_inode q2 s1 t" using Suc.prems(5) r True n N by auto
      then show ?thesis using renewed_unique [OF u1] k1 by blast
    next
      case True2: True
      have k2: "same_keys s1 s2" using N True2 by simp
      have "get_inode_loop n d k s2 = Inr (p, t)" using Suc.prems(5) r True n True2 by simp
      moreover have "slot (last_inode s2)" using keeps_last_new_inode [of d k] n l1 by (auto simp: keeps_def keeps_last_def)
      moreover have "unique_inodes s2" using unique_inodes_cong [OF k2] u1 by simp
      ultimately show ?thesis using Suc.IH [OF _ sh] keys.trans [OF keys.trans [OF k1 k2]] by blast
    qed
  qed
qed simp

section \<open>Locks\<close>

lemma lock_inode_run:
  "lock_inode p s = (if i_lock (inode_list s p) = 0 then Inr ((), s\<lparr>krn := sti (cli (krn s))\<rparr>) else Inl Hang)"
  by (simp add: lock_inode_def)

lemma wait_on_inode_run:
  "i_lock (inode_list s p) = 0 \<Longrightarrow> wait_on_inode p s = Inr ((), s\<lparr>krn := cli (krn s)\<rparr>)"
  by (simp add: wait_on_inode_def kproc_def spin_done)

section \<open>A cached inode\<close>

text \<open>The first inode of the table with this device and number is \<open>p\<close>, and nothing is mounted on it.\<close>

definition cached_at :: "u32 \<Rightarrow> u32 \<Rightarrow> ptr \<Rightarrow> fsys \<Rightarrow> bool" where
  "cached_at dev nr p s \<longleftrightarrow> dev \<noteq> 0 \<and> slot p \<and> key_at s p = (dev, nr) \<and> (\<forall>q. 1 \<le> q \<and> q < p \<longrightarrow> key_at s q \<noteq> (dev, nr)) \<and>
     i_mount (inode_list s p) = 0 \<and> i_lock (inode_list s p) = 0"

lemma inode_scan_hit:
  assumes "cached_at dev nr p s" "1 \<le> q" "q \<le> p" "p < q + n"
  shows "inode_scan n q dev nr s =
    Inr ((p, dev, nr), s\<lparr>krn := printk (''debug_fs:found inode[0x%x:0x%x]'' @ NLCR) [ArgI dev, ArgI nr] (krn s)\<rparr>)"
  using assms(2-4)
proof (induction n arbitrary: q)
  case (Suc n)
  show ?case
  proof (cases "q = p")
    case True
    then show ?thesis using assms(1) by (simp add: cached_at_def slot_def inode_key_def fprintk_def)
  next
    case False
    then have "key_at s q \<noteq> (dev, nr)" "q \<le> NR_INODE"
      using assms(1) Suc.prems by (auto simp: cached_at_def slot_def)
    then show ?thesis using Suc.IH [of "q + 1"] Suc.prems False by (auto simp: inode_key_def)
  qed
qed simp

lemma cached_at_krn [simp]: "cached_at dev nr p (s\<lparr>krn := k\<rparr>) = cached_at dev nr p s"
  by (simp add: cached_at_def)

lemma get_inode_hit:
  assumes "cached_at dev nr p s"
  shows "\<exists>t. get_inode dev nr s = Inr (p, t) \<and>
    inode_list t = (inode_list s)(p := (inode_list s p)\<lparr>i_count := i_count (inode_list s p) + 1\<rparr>) \<and>
    super_block_list t = super_block_list s \<and> cache (krn t) = cache (krn s)"
proof -
  have c: "dev \<noteq> 0" "i_lock (inode_list s p) = 0" "p \<noteq> NULL" "1 \<le> p" "p < 1 + 9 * 33"
    "ucast (i_dev (inode_list s p)) = dev" "ucast (i_num (inode_list s p)) = nr"
    using assms by (auto simp: cached_at_def slot_def inode_key_def)
  define s1 where "s1 = s\<lparr>krn := printk (''debug_fs:found inode[0x%x:0x%x]'' @ NLCR) [ArgI dev, ArgI nr]
      (printk (''debug_fs: in find_inode[0x%x:0x%x]'' @ NLCR) [ArgI dev, ArgI nr] (krn s))\<rparr>"
  have f: "find_inode dev nr s = Inr ((p, dev, nr), s1)"
    using inode_scan_hit [of dev nr p "s\<lparr>krn := printk (''debug_fs: in find_inode[0x%x:0x%x]'' @ NLCR) [ArgI dev, ArgI nr] (krn s)\<rparr>" 1 "9 * 33"]
      assms c by (simp add: find_inode_def fprintk_def s1_def del: inode_scan.simps)
  have s1: "inode_list s1 = inode_list s" "super_block_list s1 = super_block_list s" "cache (krn s1) = cache (krn s)"
    by (simp_all add: s1_def printk_def)
  have w: "wait_on_inode p s1 = Inr ((), s1\<lparr>krn := cli (krn s1)\<rparr>)" using c(2) by (simp add: wait_on_inode_run s1)
  have "cache (cli k) = cache k" "cache (printk fmt as k) = cache k" for k fmt as by (simp_all add: cli_def printk_def)
  then show ?thesis
    using c f w s1 by (simp add: get_inode_def numeral_2_eq_2 retain_inode_def fprintk_def)
qed

lemma get_inode_keeps:
  assumes "slot (last_inode s)" "short dev" "short nr" "unique_inodes s"
  shows "wp (get_inode dev nr s) (\<lambda>_. True) (\<lambda>(p, t). unique_inodes t \<and> slot p \<and> slot (last_inode t) \<and>
    (\<forall>q. q \<noteq> p \<longrightarrow> key_at t q = key_at s q \<and> i_count (inode_list t q) = i_count (inode_list s q)) \<and>
    i_count (inode_list t p) = i_count (inode_list s p) + 1)"
proof (cases "get_inode dev nr s")
  case (Inr r)
  obtain p t where r: "r = (p, t)" by fastforce
  have g: "get_inode_loop 2 dev nr s = Inr (p, t)" using Inr by (simp add: r get_inode_def)
  obtain u where u: "unique_inodes t" "same_keys s u" "counted_inode p u t \<or> renewed_inode p u t"
    using get_inode_loop_result [OF assms g] by blast
  have "keeps keeps_last (get_inode_loop n dev nr)" for n dev nr
  proof (induction n arbitrary: dev nr)
    case (Suc n)
    have "keeps keeps_last (retain_inode_loop m dev nr)" for m dev nr
    proof (induction m arbitrary: dev nr)
      case (Suc m)
      show ?case unfolding retain_inode_loop.simps find_inode_def by (intro keep_rules Suc)
    qed (unfold retain_inode_loop.simps, rule keep_rules)
    then show ?case unfolding get_inode_loop.simps retain_inode_def by (intro keep_rules Suc)
  qed (unfold get_inode_loop.simps, rule keep_rules)
  then have "slot (last_inode t)" using g assms(1) by (auto simp: keeps_def keeps_last_def)
  moreover have "key_at u q = key_at s q" "i_count (inode_list u q) = i_count (inode_list s q)" for q
    using same_keys_at [OF u(2)] u(2) by (simp_all add: same_keys_def)
  ultimately show ?thesis using u(1,3) by (auto simp: Inr r counted_inode_def renewed_inode_def)
qed simp

end
