(* ===== verification/Dir_Inv.thy ===== *)
theory Dir_Inv
  imports Dir Inode_Inv
begin

text \<open>Properties of directory entries and of the walk along a path.\<close>

section \<open>Entries\<close>

definition put_name :: "nat \<Rightarrow> u8 list \<Rightarrow> int \<Rightarrow> nat \<Rightarrow> mem \<Rightarrow> mem" where
  "put_name a name len n m = fold (\<lambda>k m. m(a + k := if int k < len then str_mem name k else 0)) [0..<n] m"

lemma put_name_at:
  "put_name a name len n m x =
     (if a \<le> x \<and> x < a + n then (if int (x - a) < len then str_mem name (x - a) else 0) else m x)"
proof (induction n)
  case (Suc n)
  have "put_name a name len (Suc n) m = (put_name a name len n m)(a + n := if int n < len then str_mem name n else 0)"
    by (simp add: put_name_def)
  then show ?case using Suc by (cases "x = a + n") auto
qed (auto simp: put_name_def)

lemma write_entry_put: "write_entry off nr name len m = put_name (off + 2) name len 30 (store16 off nr m)"
  by (simp only: write_entry_def put_name_def)

lemma write_entry_at:
  "write_entry off nr name len m x =
     (if off + 2 \<le> x \<and> x < off + 32 then (if int (x - (off + 2)) < len then str_mem name (x - (off + 2)) else 0)
      else store16 off nr m x)"
  unfolding write_entry_put put_name_at by simp

lemma write_entry_inode: "load16 (write_entry off nr name len m) off = nr"
proof -
  have "load16 (write_entry off nr name len m) off = load16 (store16 off nr m) off"
    by (rule load16_cong) (simp_all add: write_entry_at)
  then show ?thesis by (simp add: load_store16)
qed

lemma write_entry_frame: "x < off \<or> off + 32 \<le> x \<Longrightarrow> write_entry off nr name len m x = m x"
  by (auto simp: write_entry_at store16_frame)

text \<open>A lookup compares as many bytes as it is given: it finds every entry whose name starts with them.\<close>

lemma match_entry:
  assumes "0 < n" "n \<le> 30"
  shows "match n 0 (off + 2) zf (str_mem key) (write_entry off nr name len m) \<longleftrightarrow>
    (\<forall>i<nat n. str_mem key i = (if int i < len then str_mem name i else 0))"
proof -
  have "write_entry off nr name len m (off + 2 + i) = (if int i < len then str_mem name i else 0)" if "i < nat n" for i
  proof -
    have "i < 30" using that assms(2) by linarith
    then show ?thesis by (simp add: write_entry_at)
  qed
  then show ?thesis using assms by (simp add: match_ok)
qed

section \<open>Paths\<close>

lemma path_loop_plain:
  "0x2F \<notin> set path \<Longrightarrow> path_loop inode res path this len s = Inr (res, s)"
  by (induction inode res path this len rule: path_loop.induct) auto

lemma path_last:
  assumes "0x2F \<notin> set path" "path \<noteq> []" "hd path \<noteq> 0"
  shows "retain_inode_by_path p path s =
    Inr (p, s\<lparr>inode_list := (inode_list s)(p := (inode_list s p)\<lparr>i_count := i_count (inode_list s p) + 1\<rparr>)\<rparr>)"
proof -
  have "str_mem path 0 = hd path" "hd path \<in> set path" using assms(2) by (simp_all add: str_mem_def hd_conv_nth)
  then have "str_mem path 0 \<noteq> 0" "str_mem path 0 \<noteq> 0x2F" using assms by metis+
  then show ?thesis using path_loop_plain [OF assms(1)] by (simp add: retain_inode_by_path_def Let_def)
qed

end
