(* ===== verification/File_Map.thy ===== *)
theory File_Map
  imports Inode Buffer_Inv
begin

text \<open>
  The map from the blocks of a file to the blocks of the device, against its definition as a tree of tables
  whose root is the inode and whose nodes are the contents of cached blocks.
\<close>

section \<open>The abstract map\<close>

text \<open>Entry \<open>k\<close> of the table in block \<open>z\<close>; a table that does not exist has only empty entries.\<close>

definition entry_via :: "(u32 \<Rightarrow> mem) \<Rightarrow> u32 \<Rightarrow> nat \<Rightarrow> u32" where
  "entry_via img z k = (if z = 0 then 0 else ucast (load16 (img z) (2 * k)))"

definition file_block :: "(u32 \<Rightarrow> mem) \<Rightarrow> (nat \<Rightarrow> u16) \<Rightarrow> nat \<Rightarrow> u32" where
  "file_block img zone b =
     (if b < 7 then ucast (zone b)
      else if b < 7 + 512 then entry_via img (ucast (zone 7)) (b - 7)
      else entry_via img (entry_via img (ucast (zone 8)) ((b - 519) div 512)) ((b - 519) mod 512))"

text \<open>The tables that are read on the way to block \<open>b\<close>.\<close>

definition tables_of :: "(u32 \<Rightarrow> mem) \<Rightarrow> (nat \<Rightarrow> u16) \<Rightarrow> nat \<Rightarrow> u32 set" where
  "tables_of img zone b =
     (if b < 7 then {}
      else if b < 7 + 512 then {ucast (zone 7)}
      else {ucast (zone 8), entry_via img (ucast (zone 8)) ((b - 519) div 512)}) - {0}"

section \<open>Blocks in memory\<close>

lemma cache_cli [simp]: "cache (cli k) = cache k" "cli (cli k) = cli k"
  by (simp_all add: cli_def)

definition block_image :: "kst \<Rightarrow> u32 \<Rightarrow> u32 \<Rightarrow> mem" where
  "block_image k dev z = bdata (cache k) (or_null (cmap (cache k) (dev, z)))"

definition in_memory :: "kst \<Rightarrow> u32 \<Rightarrow> u32 \<Rightarrow> bool" where
  "in_memory k dev z \<longleftrightarrow> (case cmap (cache k) (dev, z) of None \<Rightarrow> False
     | Some p \<Rightarrow> b_lock (bh_of k p) = 0 \<and> b_uptodate (bh_of k p) \<noteq> 0 \<and> b_count (bh_of k p) \<noteq> 255)"

definition buf_of :: "kst \<Rightarrow> u32 \<Rightarrow> u32 \<Rightarrow> ptr" where
  "buf_of k dev z = or_null (cmap (cache k) (dev, z))"

lemma in_memoryD:
  assumes "in_memory k dev z"
  shows "cmap (cache k) (dev, z) = Some (buf_of k dev z)" "b_lock (bh_of k (buf_of k dev z)) = 0"
    "b_uptodate (bh_of k (buf_of k dev z)) \<noteq> 0" "b_count (bh_of k (buf_of k dev z)) \<noteq> 255" "buf_of k dev z \<noteq> NULL"
    "ucast (b_dev (bh_of k (buf_of k dev z))) = dev" "b_blocknr (bh_of k (buf_of k dev z)) = z"
    "bdata (cache k) (buf_of k dev z) = block_image k dev z"
proof -
  obtain p where p: "cmap (cache k) (dev, z) = Some p" using assms by (auto simp: in_memory_def split: option.splits)
  have "p \<noteq> NULL" "ucast (b_dev (bh_of k p)) = dev" "b_blocknr (bh_of k p) = z"
    using cmap_SomeD [OF p] by (auto simp: hashed_def buffers_def buf_key_def)
  then show "cmap (cache k) (dev, z) = Some (buf_of k dev z)" "b_lock (bh_of k (buf_of k dev z)) = 0"
    "b_uptodate (bh_of k (buf_of k dev z)) \<noteq> 0" "b_count (bh_of k (buf_of k dev z)) \<noteq> 255" "buf_of k dev z \<noteq> NULL"
    "ucast (b_dev (bh_of k (buf_of k dev z))) = dev" "b_blocknr (bh_of k (buf_of k dev z)) = z"
    "bdata (cache k) (buf_of k dev z) = block_image k dev z"
    using p assms by (simp_all add: in_memory_def block_image_def buf_of_def)
qed

text \<open>The kernel that holds one more reference to a buffer.\<close>

definition held :: "ptr \<Rightarrow> kst \<Rightarrow> kst" where
  "held p = upd_bh p (\<lambda>b. b\<lparr>b_count := b_count b + 1\<rparr>)"

lemma read_buff_in_memory:
  assumes c: "cache_inv (cache k)" and m: "in_memory k dev z"
  shows "read_buff dev z k = Inr (buf_of k dev z, held (buf_of k dev z) (cli k))"
proof -
  let ?p = "buf_of k dev z"
  note p = in_memoryD [OF m]
  obtain l ch where q: "queues_ok (cache k) l ch" using c by (auto simp: cache_inv_def)
  have f: "find_buff dev z (cache k) = Inr ?p" using find_buff_cmap [OF q, of dev z] p(1) by simp
  have "retain_buff dev z k = Inr (?p, held ?p (cli k))"
    using p by (simp add: retain_buff_def held_def numeral_2_eq_2 f wait_unlocked cli_def)
  then show ?thesis
    using p(3,5) by (simp add: read_buff_def get_buff_def held_def numeral_2_eq_2 upd_bh_def cli_def)
qed

lemma put_buff_again:
  assumes "p \<noteq> NULL" "b_lock (bh_of k p) = 0" "b_count (bh_of k p) \<noteq> 255"
  shows "put_buff p (held p k) = Inr (cli k)"
proof -
  have "b_count (bh_of k p) + 1 \<noteq> 0"
  proof
    assume "b_count (bh_of k p) + 1 = 0"
    then have "b_count (bh_of k p) = - 1" by (metis add.commute add_eq_0_iff)
    then show False using assms(3) by simp
  qed
  then show ?thesis using assms by (simp add: put_buff_def held_def wait_unlocked upd_bh_def cli_def)
qed

section \<open>\<open>locate_by_inode\<close>\<close>

lemma in_memory_cli [simp]: "in_memory (cli k) dev z = in_memory k dev z" "block_image (cli k) dev = block_image k dev"
  by (simp_all add: in_memory_def block_image_def fun_eq_iff split: option.split)

lemma zone_slot_there:
  assumes "create \<longrightarrow> i_zone (inode_list s p) n \<noteq> 0"
  shows "zone_slot p n create s = Inr (i_zone (inode_list s p) n, s)"
  using assms by (cases create) (simp_all add: zone_slot_def)

lemma table_entry_there:
  fixes s :: fsys and p :: ptr
  defines "dev \<equiv> ucast (i_dev (inode_list s p))"
  assumes c: "cache_inv (cache (krn s))" and m: "in_memory (krn s) dev z" and z: "z \<noteq> 0"
    and e: "create \<longrightarrow> entry_via (block_image (krn s) dev) z n \<noteq> 0"
  shows "table_entry p z n create s = Inr (entry_via (block_image (krn s) dev) z n, s\<lparr>krn := cli (krn s)\<rparr>)"
proof -
  let ?b = "buf_of (krn s) dev z"
  note b = in_memoryD [OF m]
  have read: "read_buff dev z (krn s) = Inr (?b, held ?b (cli (krn s)))" by (rule read_buff_in_memory [OF c m])
  have put: "put_buff ?b (held ?b (cli (krn s))) = Inr (cli (krn s))"
    using put_buff_again [of ?b "cli (krn s)"] b by simp
  have data: "bdata (cache (held ?b (cli (krn s)))) ?b = block_image (krn s) dev z"
    using b(8) by (simp add: held_def upd_bh_def)
  show ?thesis
    using b(5) e z read put data
    by (cases create) (simp_all add: table_entry_def kcall_def kproc_def get_data_def entry_via_def dev_def)
qed

lemma locate_there:
  fixes s :: fsys and b :: nat and p :: ptr
  defines "i \<equiv> inode_list s p"
  defines "img \<equiv> block_image (krn s) (ucast (i_dev i))"
  assumes c: "cache_inv (cache (krn s))" and b: "b < 7 + 512 + 512 * 512"
    and m: "\<And>z. z \<in> tables_of img (i_zone i) b \<Longrightarrow> in_memory (krn s) (ucast (i_dev i)) z"
    and cr: "create \<longrightarrow> file_block img (i_zone i) b \<noteq> 0"
  shows "\<exists>k \<in> {krn s, cli (krn s)}. locate_by_inode p (int b) create s = Inr (file_block img (i_zone i) b, s\<lparr>krn := k\<rparr>)"
proof -
  consider (direct) "b < 7" | (single) "7 \<le> b" "b < 519" | (double) "519 \<le> b" by linarith
  then show ?thesis
  proof cases
    case direct
    then show ?thesis using zone_slot_there [of create s p b] cr by (simp add: locate_by_inode_def file_block_def i_def)
  next
    case single
    let ?z = "ucast (i_zone i 7) :: u32"
    have fb: "file_block img (i_zone i) b = entry_via img ?z (b - 7)" using single by (simp add: file_block_def)
    have n: "nat (int b - 7) = b - 7" using single by linarith
    show ?thesis
    proof (cases "?z = 0")
      case True
      then have "i_zone i 7 = 0" by simp
      then show ?thesis using True single zone_slot_there [of create s p 7] cr fb
        by (auto simp: locate_by_inode_def i_def entry_via_def)
    next
      case False
      have z: "zone_slot p 7 create s = Inr (i_zone i 7, s)"
        using zone_slot_there [of create s p 7] False by (auto simp: i_def)
      have "?z \<in> tables_of img (i_zone i) b" using single False by (simp add: tables_of_def)
      note te = table_entry_there [OF c m [OF this, unfolded i_def] False [unfolded i_def], of create "b - 7",
          folded i_def, folded img_def, folded fb]
      show ?thesis using single False te cr fb z by (simp add: locate_by_inode_def n)
    qed
  next
    case double
    let ?z = "ucast (i_zone i 8) :: u32"
    let ?y = "entry_via img ?z ((b - 519) div 512)"
    have fb: "file_block img (i_zone i) b = entry_via img ?y ((b - 519) mod 512)" using double by (simp add: file_block_def)
    have n: "nat ((int b - 519) div 512) = (b - 519) div 512" "nat ((int b - 519) mod 512) = (b - 519) mod 512"
      using double by (simp_all add: nat_div_distrib nat_mod_distrib nat_diff_distrib')
    show ?thesis
    proof (cases "?z = 0")
      case True
      then have "i_zone i 8 = 0" by simp
      then show ?thesis using True double b zone_slot_there [of create s p 8] cr fb
        by (auto simp: locate_by_inode_def Let_def i_def entry_via_def)
    next
      case False
      have z: "zone_slot p 8 create s = Inr (i_zone i 8, s)"
        using zone_slot_there [of create s p 8] False by (auto simp: i_def)
      have "?z \<in> tables_of img (i_zone i) b" using double False by (simp add: tables_of_def)
      note te = table_entry_there [OF c m [OF this, unfolded i_def] False [unfolded i_def], of create "(b - 519) div 512",
          folded i_def, folded img_def]
      have cy: "create \<longrightarrow> ?y \<noteq> 0" using cr fb by (auto simp: entry_via_def)
      show ?thesis
      proof (cases "?y = 0")
        case True
        then show ?thesis using double b False te cy fb z by (simp add: locate_by_inode_def Let_def n entry_via_def)
      next
        case y: False
        let ?t = "s\<lparr>krn := cli (krn s)\<rparr>"
        have "?y \<in> tables_of img (i_zone i) b" using double y by (simp add: tables_of_def)
        note m2 = m [OF this]
        have "table_entry p ?y ((b - 519) mod 512) create ?t = Inr (file_block img (i_zone i) b, ?t\<lparr>krn := cli (krn ?t)\<rparr>)"
          using table_entry_there [of ?t p ?y create "(b - 519) mod 512"] c m2 y cr fb
          by (simp add: i_def [symmetric] img_def [symmetric])
        then show ?thesis using double b False te cy y z by (simp add: locate_by_inode_def Let_def n cli_def)
      qed
    qed
  qed
qed

end
