(* ===== verification/Dir_Lookup.thy ===== *)
theory Dir_Lookup
  imports File_Map Dir_Inv
begin

text \<open>
  The lookup of a name in a directory, against a search in the list of the directory's entries.
\<close>

section \<open>The abstract directory\<close>

text \<open>Entry \<open>j\<close> of the directory with the zones \<open>zone\<close>: its block, its inode number and the comparison of its name.\<close>

definition entry_block :: "(u32 \<Rightarrow> mem) \<Rightarrow> (nat \<Rightarrow> u16) \<Rightarrow> nat \<Rightarrow> u32" where
  "entry_block img zone j = file_block img zone (j div DIR_ENTRIES_PER_BLOCK)"

definition entry_inode :: "(u32 \<Rightarrow> mem) \<Rightarrow> (nat \<Rightarrow> u16) \<Rightarrow> nat \<Rightarrow> u16" where
  "entry_inode img zone j = load16 (img (entry_block img zone j)) (32 * (j mod DIR_ENTRIES_PER_BLOCK))"

definition entry_matches :: "(u32 \<Rightarrow> mem) \<Rightarrow> (nat \<Rightarrow> u16) \<Rightarrow> u8 list \<Rightarrow> int \<Rightarrow> nat \<Rightarrow> bool" where
  "entry_matches img zone name len j \<longleftrightarrow>
     (\<forall>k < nat len. str_mem name k = img (entry_block img zone j) (32 * (j mod DIR_ENTRIES_PER_BLOCK) + 2 + k))"

definition dir_find :: "(u32 \<Rightarrow> mem) \<Rightarrow> (nat \<Rightarrow> u16) \<Rightarrow> u8 list \<Rightarrow> int \<Rightarrow> nat \<Rightarrow> nat option" where
  "dir_find img zone name len entries = List.find (entry_matches img zone name len) [0..<entries]"

section \<open>States that differ in a reference\<close>

definition same_store :: "fsys \<Rightarrow> fsys \<Rightarrow> bool" where
  "same_store s t \<longleftrightarrow> same_tables s t \<and> cache (krn t) = cache (krn s)"

definition holding :: "ptr \<Rightarrow> fsys \<Rightarrow> fsys \<Rightarrow> bool" where
  "holding p s t \<longleftrightarrow> same_tables s t \<and> cache (krn t) = cache (held p (krn s))"

lemma same_store_refl [simp]: "same_store s s"
  by (simp add: same_store_def)

lemma store_below [simp]:
  "cache k = cache (krn t) \<Longrightarrow> same_store s (t\<lparr>krn := k\<rparr>) = same_store s t"
  "cache k = cache (krn t) \<Longrightarrow> holding p s (t\<lparr>krn := k\<rparr>) = holding p s t"
  by (simp_all add: same_store_def holding_def same_tables_def)

lemma holding_fields:
  assumes "holding p s t"
  shows "inode_list t = inode_list s" "super_block_list t = super_block_list s" "bdata (cache (krn t)) = bdata (cache (krn s))"
    "b_data (bh_of (krn t) q) = b_data (bh_of (krn s) q)"
  using assms by (simp_all add: holding_def same_tables_def held_def upd_bh_def)

lemma in_memory_cong: "cache k = cache l \<Longrightarrow> in_memory k dev z = in_memory l dev z"
  "cache k = cache l \<Longrightarrow> block_image k dev = block_image l dev" "cache k = cache l \<Longrightarrow> buf_of k dev z = buf_of l dev z"
  by (simp_all add: in_memory_def block_image_def buf_of_def fun_eq_iff split: option.split)

lemma read_there:
  assumes "cache_inv (cache (krn s))" "in_memory (krn s) dev z" "same_store s t"
  shows "\<exists>u. kcall (read_buff dev z) t = Inr (buf_of (krn s) dev z, u) \<and> holding (buf_of (krn s) dev z) s u"
proof -
  have c: "cache (krn t) = cache (krn s)" using assms(3) by (simp add: same_store_def)
  have r: "read_buff dev z (krn t) = Inr (buf_of (krn s) dev z, held (buf_of (krn s) dev z) (cli (krn t)))"
    using read_buff_in_memory [of "krn t" dev z] assms(1,2) c in_memory_cong [OF c] by simp
  show ?thesis using assms(3) c
    by (simp add: kcall_def r) (simp add: holding_def same_store_def same_tables_def held_def upd_bh_def)
qed

lemma put_held:
  assumes m: "in_memory (krn s) dev z" and h: "holding (buf_of (krn s) dev z) s t"
  shows "\<exists>u. kproc (put_buff (buf_of (krn s) dev z)) t = Inr ((), u) \<and> same_store s u"
proof -
  let ?p = "buf_of (krn s) dev z" and ?k = "(krn t)\<lparr>cache := cache (krn s)\<rparr>"
  have k: "krn t = held ?p ?k" using h by (simp add: holding_def held_def upd_bh_def)
  have "put_buff ?p (krn t) = Inr (cli ?k)"
    by (subst k, rule put_buff_again) (use in_memoryD [OF m] in simp_all)
  then show ?thesis using h by (simp add: kproc_def holding_def same_store_def same_tables_def cli_def)
qed

lemma locate_at:
  fixes s :: fsys and p :: ptr
  defines "i \<equiv> inode_list s p"
  defines "img \<equiv> block_image (krn s) (ucast (i_dev i))"
  assumes st: "same_store s t" and c: "cache_inv (cache (krn s))" and b: "b < 7 + 512 + 512 * 512"
    and cr: "create \<longrightarrow> file_block img (i_zone i) b \<noteq> 0" and m: "\<And>z. z \<in> tables_of img (i_zone i) b \<Longrightarrow> in_memory (krn s) (ucast (i_dev i)) z"
  shows "\<exists>u. locate_by_inode p (int b) create t = Inr (file_block img (i_zone i) b, u) \<and> same_store s u"
proof -
  have k: "cache (krn t) = cache (krn s)" and il: "inode_list t = inode_list s"
    using st by (simp_all add: same_store_def same_tables_def)
  have "\<exists>l \<in> {krn t, cli (krn t)}. locate_by_inode p (int b) create t = Inr (file_block img (i_zone i) b, t\<lparr>krn := l\<rparr>)"
    using locate_there [of t b p create] c b m cr in_memory_cong [OF k] unfolding il i_def [symmetric] k img_def by simp
  then show ?thesis using st k by auto
qed

section \<open>The search\<close>

text \<open>The directory in slot \<open>p\<close> has a block in memory for each of its entries.\<close>

definition dir_there :: "fsys \<Rightarrow> ptr \<Rightarrow> nat \<Rightarrow> bool" where
  "dir_there s p entries \<longleftrightarrow>
     (let i = inode_list s p; dev = ucast (i_dev i); img = block_image (krn s) dev
      in \<forall>j<entries. j div DIR_ENTRIES_PER_BLOCK < 7 + 512 + 512 * 512 \<and> entry_block img (i_zone i) j \<noteq> 0 \<and>
           in_memory (krn s) dev (entry_block img (i_zone i) j) \<and>
           (\<forall>z \<in> tables_of img (i_zone i) (j div DIR_ENTRIES_PER_BLOCK). in_memory (krn s) dev z))"

definition entry_buf :: "fsys \<Rightarrow> ptr \<Rightarrow> nat \<Rightarrow> ptr" where
  "entry_buf s p j =
     (let i = inode_list s p; dev = ucast (i_dev i)
      in buf_of (krn s) dev (entry_block (block_image (krn s) dev) (i_zone i) j))"

abbreviation entry_addr :: "fsys \<Rightarrow> ptr \<Rightarrow> nat \<Rightarrow> nat" where
  "entry_addr s p j \<equiv> b_data (bh_of (krn s) (entry_buf s p j)) + 32 * (j mod DIR_ENTRIES_PER_BLOCK)"

text \<open>The loop has come from entry \<open>j\<close>, the one before \<open>i\<close> except at the start.\<close>

definition scanning :: "fsys \<Rightarrow> ptr \<Rightarrow> nat \<Rightarrow> nat \<Rightarrow> nat \<Rightarrow> fsys \<Rightarrow> bool" where
  "scanning s p j i de t \<longleftrightarrow> holding (entry_buf s p j) s t \<and>
     (i = 0 \<and> j = 0 \<and> de = entry_addr s p 0 \<or> i = j + 1 \<and> de = entry_addr s p j + 32)"

lemma entry_buf_cong:
  "j div DIR_ENTRIES_PER_BLOCK = i div DIR_ENTRIES_PER_BLOCK \<Longrightarrow> entry_buf s p j = entry_buf s p i"
  by (simp add: entry_buf_def entry_block_def)

lemma next_in_block:
  "Suc j div 32 = j div 32 \<Longrightarrow> Suc j mod 32 = Suc (j mod 32)"
  "Suc j div 32 \<noteq> j div 32 \<Longrightarrow> j mod 32 = 31 \<and> Suc j mod 32 = 0"
  by (simp_all add: div_Suc mod_Suc split: if_splits)

lemma dir_block_there:
  assumes c: "cache_inv (cache (krn s))" and d: "dir_there s p entries" and sc: "scanning s p j i de t"
    and i: "i < entries"
  shows "\<exists>u. dir_block p i de (entry_buf s p j) create t =
      Inr (Entry_at (entry_addr s p i) (b_data (bh_of (krn s) (entry_buf s p i))) (entry_buf s p i), u) \<and>
    holding (entry_buf s p i) s u"
proof -
  let ?i = "inode_list s p"
  let ?dev = "ucast (i_dev ?i) :: u32"
  let ?img = "block_image (krn s) ?dev"
  have h: "holding (entry_buf s p j) s t" using sc by (simp add: scanning_def)
  note H = holding_fields [OF h]
  have buf: "entry_buf s p k = buf_of (krn s) ?dev (entry_block ?img (i_zone ?i) k)" for k
    by (simp add: entry_buf_def Let_def)
  have D: "k < entries \<Longrightarrow> k div 32 < 7 + 512 + 512 * 512 \<and> entry_block ?img (i_zone ?i) k \<noteq> 0 \<and>
      in_memory (krn s) ?dev (entry_block ?img (i_zone ?i) k) \<and> (\<forall>z \<in> tables_of ?img (i_zone ?i) (k div 32). in_memory (krn s) ?dev z)" for k
    using d unfolding dir_there_def Let_def by blast
  show ?thesis
  proof (cases "i div 32 = j div 32")
    case True
    have e: "entry_buf s p j = entry_buf s p i" using True by (intro entry_buf_cong) simp
    have m: "de = entry_addr s p i"
    proof (cases "i = 0")
      case False
      then have "i = j + 1" "de = entry_addr s p j + 32" using sc by (auto simp: scanning_def)
      then show ?thesis using e True next_in_block(1) [of j] by simp
    qed (use sc in \<open>auto simp: scanning_def\<close>)
    have "\<not> 32 \<le> i mod 32" by (simp add: not_le)
    then show ?thesis using h unfolding e by (simp add: dir_block_def H(4) m e)
  next
    case False
    then have ij: "i = j + 1" "de = entry_addr s p j + 32" using sc by (auto simp: scanning_def)
    have jm: "j mod 32 = 31" "i mod 32 = 0" using False ij(1) next_in_block(2) [of j] by simp_all
    have je: "j < entries" using ij(1) i by simp
    obtain u1 where put: "kproc (put_buff (entry_buf s p j)) t = Inr ((), u1)" "same_store s u1"
      using put_held [of s ?dev _ t] D [OF je] h unfolding buf by blast
    obtain u2 where loc: "locate_by_inode p (int (i div 32)) create u1 = Inr (entry_block ?img (i_zone ?i) i, u2)" "same_store s u2"
      using locate_at [OF put(2) c, of "i div 32" create p] D [OF i] unfolding entry_block_def by blast
    obtain u3 where read: "kcall (read_buff ?dev (entry_block ?img (i_zone ?i) i)) u2 = Inr (entry_buf s p i, u3)"
      "holding (entry_buf s p i) s u3"
      using read_there [OF c _ loc(2)] D [OF i] unfolding buf by blast
    have nn: "entry_buf s p i \<noteq> NULL" using in_memoryD(5) D [OF i] unfolding buf by blast
    have il: "inode_list u2 = inode_list s" using loc(2) by (simp add: same_store_def same_tables_def)
    show ?thesis
      using put loc read nn D [OF i] ij(2) jm H(4) holding_fields(4) [OF read(2)]
      by (simp add: dir_block_def il)
  qed
qed

text \<open>Entry \<open>j\<close> of the directory in slot \<open>p\<close>.\<close>

definition found_at :: "fsys \<Rightarrow> ptr \<Rightarrow> u8 list \<Rightarrow> int \<Rightarrow> nat \<Rightarrow> bool" where
  "found_at s p name len =
     (let i = inode_list s p in entry_matches (block_image (krn s) (ucast (i_dev i))) (i_zone i) name len)"

lemma entry_data:
  assumes d: "dir_there s p entries" and i: "i < entries" and h: "holding (entry_buf s p i) s t"
  defines "img \<equiv> block_image (krn s) (ucast (i_dev (inode_list s p)))" and "zone \<equiv> i_zone (inode_list s p)"
  shows "entry_buf s p i \<noteq> NULL" "get_data (entry_buf s p i) g t = Inr (g (img (entry_block img zone i)), t)"
proof -
  have "in_memory (krn s) (ucast (i_dev (inode_list s p))) (entry_block img zone i)"
    using d i unfolding dir_there_def Let_def img_def zone_def by blast
  from in_memoryD(5,8) [OF this]
  show n: "entry_buf s p i \<noteq> NULL"
    and "get_data (entry_buf s p i) g t = Inr (g (img (entry_block img zone i)), t)"
    using holding_fields(3) [OF h] by (simp_all add: entry_buf_def Let_def img_def zone_def get_data_def)
qed

lemma dir_scan_there:
  assumes c: "cache_inv (cache (krn s))" and d: "dir_there s p entries" and len: "0 < len" "len \<le> NAME_LEN"
    and j: "j < entries" and n: "entries \<le> i + n" and sc: "scanning s p j i de t"
  defines "img \<equiv> block_image (krn s) (ucast (i_dev (inode_list s p)))" and "zone \<equiv> i_zone (inode_list s p)"
  shows "\<exists>l u. l < entries \<and> holding (entry_buf s p l) s u \<and>
    dir_scan n p entries i de (entry_buf s p j) name len t =
      Inr ((entry_buf s p l, map_option (entry_addr s p) (List.find (found_at s p name len) [i..<entries])), u) \<and>
    (\<forall>k. List.find (found_at s p name len) [i..<entries] = Some k \<longrightarrow> k = l)"
  using j n sc
proof (induction n arbitrary: i j de t)
  case 0
  then show ?case by (intro exI [of _ j] exI [of _ t]) (auto simp: scanning_def)
next
  case (Suc n)
  show ?case
  proof (cases "i < entries")
    case False
    then show ?thesis using Suc.prems by (intro exI [of _ j] exI [of _ t]) (auto simp: scanning_def)
  next
    case True
    obtain u where u: "dir_block p i de (entry_buf s p j) False t =
        Inr (Entry_at (entry_addr s p i) (b_data (bh_of (krn s) (entry_buf s p i))) (entry_buf s p i), u)"
      "holding (entry_buf s p i) s u"
      using dir_block_there [OF c d Suc.prems(3) True] by blast
    have get: "holding (entry_buf s p i) s v \<Longrightarrow> get_data (entry_buf s p i) g v = Inr (g (img (entry_block img zone i)), v)" for g v
      unfolding img_def zone_def by (rule entry_data(2) [OF d True])
    have m: "match len 0 (32 * (i mod 32) + 2) True (str_mem name) (img (entry_block img zone i)) = found_at s p name len i"
      using len by (simp add: match_ok found_at_def entry_matches_def Let_def img_def zone_def)
    define v where "v = u\<lparr>krn := printk ''%.*s,'' [ArgI (word_of_int len), ArgS (c_string (img (entry_block img zone i)) (32 * (i mod 32) + 2))] (krn u)\<rparr>"
    have v: "holding (entry_buf s p i) s v" using u(2) by (simp add: v_def printk_def)
    have run: "dir_scan (Suc n) p entries i de (entry_buf s p j) name len t =
        (if found_at s p name len i
         then Inr ((entry_buf s p i, Some (entry_addr s p i)),
                v\<lparr>krn := printk ''found! inode[0x%x]'' [ArgI (ucast (entry_inode img zone i))] (krn v)\<rparr>)
         else dir_scan n p entries (i + 1) (entry_addr s p i + 32) (entry_buf s p i) name len v)"
      using True u m by (simp add: fprintk_def get [OF u(2)] v_def [symmetric] get [OF v] entry_inode_def del: add_2_eq_Suc')
    have up: "[i..<entries] = i # [Suc i..<entries]" using True by (simp add: upt_conv_Cons)
    show ?thesis
    proof (cases "found_at s p name len i")
      case f: True
      then show ?thesis using True run v up
        by (intro exI [of _ i] exI [of _ "v\<lparr>krn := printk ''found! inode[0x%x]'' [ArgI (ucast (entry_inode img zone i))] (krn v)\<rparr>"])
          (simp add: printk_def)
    next
      case f: False
      have "scanning s p i (i + 1) (entry_addr s p i + 32) v" using v by (simp add: scanning_def)
      moreover have "entries \<le> i + 1 + n" using Suc.prems(2) by simp
      ultimately show ?thesis using Suc.IH [of i "i + 1" "entry_addr s p i + 32" v] True run f up by simp
    qed
  qed
qed

section \<open>\<open>retain_inode_by_name\<close>\<close>

definition name_length :: "int \<Rightarrow> int" where
  "name_length namelen = (if namelen > NAME_LEN then NAME_LEN else namelen)"

text \<open>The lookup of \<open>..\<close> in a root directory, which leaves the device.\<close>

definition leaves_device :: "m_inode \<Rightarrow> u8 list \<Rightarrow> int \<Rightarrow> bool" where
  "leaves_device i name len \<longleftrightarrow> len = 2 \<and> str_mem name 0 = 0x2E \<and> str_mem name 1 = 0x2E \<and> ucast (i_num i) = ROOT_INO"

lemma cross_parent_stays:
  "\<not> leaves_device (inode_list s p) name len \<Longrightarrow> cross_parent p name len s = Inr (p, s)"
  unfolding cross_parent_def leaves_device_def by auto

lemma retain_inode_by_name_there:
  fixes s :: fsys and p :: ptr and name :: "u8 list" and namelen :: int
  defines "i \<equiv> inode_list s p" and "len \<equiv> name_length namelen"
  defines "img \<equiv> block_image (krn s) (ucast (i_dev i))" and "entries \<equiv> unat (i_size i) div 32"
  assumes c: "cache_inv (cache (krn s))" and d: "dir_there s p entries" and e: "0 < entries" and len: "0 < namelen"
    and stay: "\<not> leaves_device i name len"
  shows "\<exists>t. same_store s t \<and> retain_inode_by_name p name namelen s =
    (case dir_find img (i_zone i) name len entries of
       None \<Rightarrow> Inr ((NULL, p), t)
     | Some j \<Rightarrow> bnd (read_inode (ucast (i_dev i)) (ucast (entry_inode img (i_zone i) j)) t) (\<lambda>r. Inr ((fst r, p), snd r)))"
proof -
  let ?dev = "ucast (i_dev i) :: u32"
  have l: "0 < len" "len \<le> NAME_LEN" using len by (simp_all add: len_def name_length_def)
  have e0: "entry_block img (i_zone i) 0 = ucast (i_zone i 0)" by (simp add: entry_block_def file_block_def)
  have D: "k < entries \<Longrightarrow> entry_block img (i_zone i) k \<noteq> 0 \<and> in_memory (krn s) ?dev (entry_block img (i_zone i) k)" for k
    using d unfolding dir_there_def Let_def i_def img_def by blast
  have z0: "i_zone i 0 \<noteq> 0" using D [OF e] e0 by auto
  have buf: "entry_buf s p k = buf_of (krn s) ?dev (entry_block img (i_zone i) k)" for k
    by (simp add: entry_buf_def Let_def i_def img_def)
  define s1 where "s1 = s\<lparr>krn := printk (''debug_fs:retain inode by name[%.*s] in inode[%d]'' @ NL)
      [ArgI (word_of_int namelen), ArgS (takeWhile (\<lambda>c. c \<noteq> CHR 0x00) (map (\<lambda>c. char_of (unat c)) name)), ArgI (ucast (i_num i))] (krn s)\<rparr>"
  have s1: "same_store s s1" "inode_list s1 = inode_list s" by (simp_all add: s1_def printk_def)
  obtain s2 where s2: "kcall (read_buff ?dev (ucast (i_zone i 0))) s1 = Inr (entry_buf s p 0, s2)" "holding (entry_buf s p 0) s s2"
    using read_there [OF c _ s1(1)] D [OF e] unfolding buf e0 by blast
  define s3 where "s3 = s2\<lparr>krn := printk ''debug_fs:entries['' [] (krn s2)\<rparr>"
  have s3: "holding (entry_buf s p 0) s s3" using s2(2) by (simp add: s3_def printk_def)
  have sc: "scanning s p 0 0 (entry_addr s p 0) s3" using s3 by (simp add: scanning_def)
  obtain l' s4 where s4: "l' < entries" "holding (entry_buf s p l') s s4"
    "dir_scan entries p entries 0 (entry_addr s p 0) (entry_buf s p 0) name len s3 =
      Inr ((entry_buf s p l', map_option (entry_addr s p) (List.find (found_at s p name len) [0..<entries])), s4)"
    "\<forall>k. List.find (found_at s p name len) [0..<entries] = Some k \<longrightarrow> k = l'"
    using dir_scan_there [OF c d l e _ sc, where n = entries and name = name] by auto
  have fnd: "List.find (found_at s p name len) [0..<entries] = dir_find img (i_zone i) name len entries"
    by (simp add: dir_find_def found_at_def Let_def i_def img_def)
  define s5 where "s5 = s4\<lparr>krn := printk ('']'' @ NL) [] (krn s4)\<rparr>"
  have s5: "holding (entry_buf s p l') s s5" using s4(2) by (simp add: s5_def printk_def)
  obtain t where t: "kproc (put_buff (entry_buf s p l')) s5 = Inr ((), t)" "same_store s t"
    using put_held [of s ?dev _ s5] D [OF s4(1)] s5 unfolding buf by blast
  have nn: "entry_buf s p k \<noteq> NULL" if "k < entries" for k using in_memoryD(5) D [OF that] unfolding buf by blast
  have fields: "b_data (bh_of (krn s2) q) = b_data (bh_of (krn s) q)" "b_data (bh_of (krn t) q) = b_data (bh_of (krn s) q)"
    "inode_list t = inode_list s" "bdata (cache (krn t)) = bdata (cache (krn s))" for q
    using holding_fields(4) [OF s2(2)] t(2) by (simp_all add: same_store_def same_tables_def)
  have get: "get_data (entry_buf s p l') g t = Inr (g (img (entry_block img (i_zone i) l')), t)" for g :: "mem \<Rightarrow> u16"
    using nn [OF s4(1)] in_memoryD(8) [of "krn s" ?dev "entry_block img (i_zone i) l'"] D [OF s4(1)]
    by (simp add: get_data_def fields buf img_def)
  have "len \<noteq> 0" using l by simp
  then have run: "retain_inode_by_name p name namelen s =
      (case dir_find img (i_zone i) name len entries of
         None \<Rightarrow> Inr ((NULL, p), t)
       | Some j \<Rightarrow> bnd (read_inode ?dev (ucast (load16 (img (entry_block img (i_zone i) l')) (entry_addr s p j - b_data (bh_of (krn s) (entry_buf s p l'))))) t)
           (\<lambda>r. Inr ((fst r, p), snd r)))"
    using s1 s2 s3 s4(3) t z0 nn [OF e] stay cross_parent_stays [of s1 p name len]
    by (simp add: retain_inode_by_name_def Let_def name_length_def [symmetric] len_def [symmetric] fprintk_def i_def [symmetric]
        s1_def [symmetric] s3_def [symmetric] s5_def [symmetric] fields get fnd entries_def [symmetric] case_prod_beta
        del: append.simps append_Cons split: option.split prod.split)
  show ?thesis
  proof (intro exI conjI)
    show "same_store s t" by (rule t(2))
    show "retain_inode_by_name p name namelen s =
      (case dir_find img (i_zone i) name len entries of
         None \<Rightarrow> Inr ((NULL, p), t)
       | Some j \<Rightarrow> bnd (read_inode ?dev (ucast (entry_inode img (i_zone i) j)) t) (\<lambda>r. Inr ((fst r, p), snd r)))"
      using run s4(4) by (auto simp: fnd entry_inode_def split: option.split)
  qed
qed

section \<open>A step along a path\<close>

definition more_used :: "ptr \<Rightarrow> fsys \<Rightarrow> fsys \<Rightarrow> bool" where
  "more_used q s t \<longleftrightarrow>
     inode_list t = (inode_list s)(q := (inode_list s q)\<lparr>i_count := i_count (inode_list s q) + 1\<rparr>) \<and>
     super_block_list t = super_block_list s \<and> cache (krn t) = cache (krn s)"

lemma read_inode_hit:
  assumes "cached_at dev nr q s" "i_nlinks (inode_list s q) \<noteq> 0"
  shows "\<exists>t. read_inode dev nr s = Inr (q, t) \<and> more_used q s t"
proof -
  let ?s = "s\<lparr>krn := printk (''debug_fs:read inode[0x%x:0x%x]'' @ NL) [ArgI dev, ArgI nr] (krn s)\<rparr>"
  obtain t where "get_inode dev nr ?s = Inr (q, t)" "more_used q ?s t"
    using get_inode_hit [of dev nr q ?s] assms(1) by (auto simp: more_used_def)
  then show ?thesis using assms(2)
    by (simp add: read_inode_def fprintk_def more_used_def del: append.simps append_Cons) (simp add: printk_def)
qed

lemma put_inode_used:
  fixes s :: fsys and p :: ptr
  defines "i \<equiv> inode_list s p"
  assumes "p \<noteq> NULL" "i_lock i = 0" "i_count i \<noteq> 0" "i_count i = 1 \<longrightarrow> i_nlinks i \<noteq> 0 \<and> i_dirt i = 0"
  shows "put_inode p s = Inr ((), s\<lparr>krn := cli (krn s), inode_list := (inode_list s)(p := i\<lparr>i_count := i_count i - 1\<rparr>)\<rparr>)"
  using assms(2-5) unfolding i_def
  by (cases "i_count (inode_list s p) = 1") (simp_all add: put_inode_def wait_on_inode_run numeral_2_eq_2)

lemma path_loop_component:
  "0x2F \<notin> set name \<Longrightarrow> 0 \<notin> set name \<Longrightarrow>
   path_loop inode res (name @ rest) this len s = path_loop inode res rest this (len + length name) s"
  by (induction name arbitrary: len) auto

text \<open>
  \<open>child s p name q\<close>: in a directory whose blocks are in memory, the first entry that starts with the first 30
  bytes of \<open>name\<close> is that of the inode in slot \<open>q\<close>, and slot \<open>p\<close> can be released.
\<close>

definition releasable :: "m_inode \<Rightarrow> bool" where
  "releasable i \<longleftrightarrow> i_lock i = 0 \<and> i_count i \<noteq> -1 \<and> (i_count i = 0 \<longrightarrow> i_nlinks i \<noteq> 0 \<and> i_dirt i = 0)"

definition child :: "fsys \<Rightarrow> ptr \<Rightarrow> u8 list \<Rightarrow> ptr \<Rightarrow> bool" where
  "child s p name q \<longleftrightarrow>
     (let i = inode_list s p; dev = ucast (i_dev i); img = block_image (krn s) dev; entries = unat (i_size i) div 32;
          len = name_length (int (length name))
      in p \<noteq> NULL \<and> q \<noteq> p \<and> releasable i \<and> 0 < entries \<and> dir_there s p entries \<and> \<not> leaves_device i name len \<and>
         i_nlinks (inode_list s q) \<noteq> 0 \<and>
         (case dir_find img (i_zone i) name len entries of None \<Rightarrow> False
          | Some j \<Rightarrow> cached_at dev (ucast (entry_inode img (i_zone i) j)) q s))"

inductive walk :: "fsys \<Rightarrow> ptr \<Rightarrow> u8 list list \<Rightarrow> ptr \<Rightarrow> bool" for s where
  here: "walk s p [] p"
| down: "child s p name r \<Longrightarrow> walk s r names q \<Longrightarrow> walk s p (name # names) q"

lemma more_used_fields:
  assumes "more_used r s t"
  shows "i_dev (inode_list t p) = i_dev (inode_list s p)" "i_num (inode_list t p) = i_num (inode_list s p)"
    "i_zone (inode_list t p) = i_zone (inode_list s p)" "i_size (inode_list t p) = i_size (inode_list s p)"
    "i_mode (inode_list t p) = i_mode (inode_list s p)" "i_nlinks (inode_list t p) = i_nlinks (inode_list s p)"
    "i_lock (inode_list t p) = i_lock (inode_list s p)" "i_mount (inode_list t p) = i_mount (inode_list s p)"
    "i_dirt (inode_list t p) = i_dirt (inode_list s p)" "cache (krn t) = cache (krn s)"
    "block_image (krn t) dev = block_image (krn s) dev"
  using assms in_memory_cong(2) [of "krn t" "krn s"] by (simp_all add: more_used_def)

lemma more_used_there:
  assumes "more_used r s t"
  shows "dir_there t p n = dir_there s p n" "cached_at dev nr q t = cached_at dev nr q s"
proof -
  note F = more_used_fields [OF assms]
  show "dir_there t p n = dir_there s p n"
    unfolding dir_there_def Let_def F in_memory_cong(1) [OF F(10)] by simp
  show "cached_at dev nr q t = cached_at dev nr q s"
    unfolding cached_at_def inode_key_def F ..
qed

lemma str_mem_append: "i < length xs \<Longrightarrow> str_mem (xs @ ys) i = str_mem xs i"
  by (simp add: str_mem_def nth_append)

lemma name_length_le: "nat (name_length (int n)) \<le> n" "0 < n \<Longrightarrow> 0 < name_length (int n)"
  by (simp_all add: name_length_def)

lemma dir_find_prefix:
  "dir_find img zone (name @ rest) (name_length (int (length name))) = dir_find img zone name (name_length (int (length name)))"
proof -
  have E: "entry_matches img zone (name @ rest) (name_length (int (length name))) =
      entry_matches img zone name (name_length (int (length name)))"
    using name_length_le(1) [of "length name"] by (auto simp: fun_eq_iff entry_matches_def str_mem_append)
  show ?thesis by (rule ext) (simp only: dir_find_def E)
qed

lemma leaves_device_prefix:
  "leaves_device i (name @ rest) (name_length (int (length name))) = leaves_device i name (name_length (int (length name)))"
  using name_length_le(1) [of "length name"] by (auto simp: leaves_device_def str_mem_def nth_append split: if_splits)

lemma lookup_child:
  assumes c: "cache_inv (cache (krn s))" and ch: "child s p name q" and u: "more_used p s t" and n: "name \<noteq> []"
  shows "\<exists>v. retain_inode_by_name p (name @ rest) (int (length name)) t = Inr ((q, p), v) \<and> more_used q t v"
proof -
  note F = more_used_fields [OF u] and T = more_used_there [OF u]
  let ?i = "inode_list s p" and ?len = "name_length (int (length name))"
  let ?dev = "ucast (i_dev ?i) :: u32"
  let ?img = "block_image (krn s) ?dev" and ?e = "unat (i_size ?i) div 32"
  obtain j where j: "dir_find ?img (i_zone ?i) name ?len ?e = Some j"
    "cached_at ?dev (ucast (entry_inode ?img (i_zone ?i) j)) q s"
    and C: "0 < ?e" "dir_there s p ?e" "\<not> leaves_device ?i name ?len" "i_nlinks (inode_list s q) \<noteq> 0"
    using ch by (auto simp: child_def Let_def split: option.splits)
  have ld: "leaves_device (inode_list t p) k l = leaves_device ?i k l" for k l
    by (simp add: leaves_device_def F)
  obtain w where w: "same_store t w" "retain_inode_by_name p (name @ rest) (int (length name)) t =
      bnd (read_inode ?dev (ucast (entry_inode ?img (i_zone ?i) j)) w) (\<lambda>r. Inr ((fst r, p), snd r))"
    using retain_inode_by_name_there [of t p "int (length name)" "name @ rest"] c C n j(1)
    unfolding F T ld dir_find_prefix leaves_device_prefix by auto
  have il: "inode_list w = inode_list t" using w(1) by (simp add: same_store_def same_tables_def)
  then have "cached_at d k q w = cached_at d k q t" for d k by (simp add: cached_at_def)
  then have "cached_at ?dev (ucast (entry_inode ?img (i_zone ?i) j)) q w" "i_nlinks (inode_list w q) \<noteq> 0"
    using j(2) C(4) T(2) F(6) il by simp_all
  then obtain v where "read_inode ?dev (ucast (entry_inode ?img (i_zone ?i) j)) w = Inr (q, v)" "more_used q w v"
    using read_inode_hit by blast
  then show ?thesis using w by (simp add: more_used_def same_store_def same_tables_def)
qed

lemma path_step:
  assumes c: "cache_inv (cache (krn s))" and ch: "child s p name q" and u: "more_used p s t"
    and n: "name \<noteq> []" "0 \<notin> set name" "0x2F \<notin> set name" and dir: "S_ISDIR (i_mode (inode_list s root))"
  shows "\<exists>v. path_loop root p (name @ 0x2F # rest) (name @ 0x2F # rest) 0 t = path_loop root q rest rest 0 v \<and> more_used q s v"
proof -
  obtain v where v: "retain_inode_by_name p (name @ 0x2F # rest) (int (length name)) t = Inr ((q, p), v)" "more_used q t v"
    using lookup_child [OF c ch u n(1)] by blast
  have C: "p \<noteq> NULL" "q \<noteq> NULL" "q \<noteq> p" "releasable (inode_list s p)"
    using ch by (auto simp: child_def Let_def cached_at_def slot_def split: option.splits)
  let ?i = "inode_list s p"
  have i: "inode_list v p = ?i\<lparr>i_count := i_count ?i + 1\<rparr>" using u v(2) C(3) by (simp add: more_used_def)
  have ne: "i_count ?i + 1 \<noteq> 0"
    using C(4) by (metis add.commute add_eq_0_iff releasable_def)
  let ?v = "v\<lparr>krn := cli (krn v), inode_list := (inode_list v)(p := ?i)\<rparr>"
  have "put_inode p v = Inr ((), ?v)"
    using put_inode_used [of p v] C ne unfolding i by (auto simp: releasable_def)
  moreover have "S_ISDIR (i_mode (inode_list t root))" using dir more_used_fields(5) [OF u] by simp
  ultimately have "path_loop root p (name @ 0x2F # rest) (name @ 0x2F # rest) 0 t = path_loop root q rest rest 0 ?v"
    using v(1) C(2) path_loop_component [OF n(3,2), of root p "0x2F # rest"] by (simp add: permission_def)
  moreover have "more_used q s ?v"
    using u v(2) C(3) by (auto simp: more_used_def fun_eq_iff)
  ultimately show ?thesis by blast
qed

definition path_of :: "u8 list list \<Rightarrow> u8 list" where
  "path_of names = concat (map (\<lambda>name. name @ [0x2F]) names)"

lemma path_walk:
  assumes "walk s p names q" and c: "cache_inv (cache (krn s))" and dir: "S_ISDIR (i_mode (inode_list s root))"
    and "\<forall>name \<in> set names. name \<noteq> [] \<and> 0 \<notin> set name \<and> 0x2F \<notin> set name" and "0x2F \<notin> set rest" and "more_used p s t"
  shows "\<exists>v. path_loop root p (path_of names @ rest) (path_of names @ rest) 0 t = Inr (q, v) \<and> more_used q s v"
  using assms(1,4,6)
proof (induction arbitrary: t rule: walk.induct)
  case (here p)
  then show ?case using path_loop_plain [OF assms(5)] by (simp add: path_of_def)
next
  case (down p name r names q)
  obtain v where v: "path_loop root p (name @ 0x2F # (path_of names @ rest)) (name @ 0x2F # (path_of names @ rest)) 0 t =
      path_loop root r (path_of names @ rest) (path_of names @ rest) 0 v" "more_used r s v"
    using path_step [OF c down.hyps(1) down.prems(2) _ _ _ dir] down.prems(1) by auto
  obtain w where "path_loop root r (path_of names @ rest) (path_of names @ rest) 0 v = Inr (q, w)" "more_used q s w"
    using down.IH [OF _ v(2)] down.prems(1) by auto
  then show ?case using v(1) by (auto simp: path_of_def)
qed

lemma retain_inode_by_path_walk:
  assumes "walk s p names q" and "cache_inv (cache (krn s))" and "S_ISDIR (i_mode (inode_list s p))"
    and n: "\<forall>name \<in> set names. name \<noteq> [] \<and> 0 \<notin> set name \<and> 0x2F \<notin> set name" and "0x2F \<notin> set rest" and ne: "names \<noteq> []"
  shows "\<exists>t. retain_inode_by_path p (path_of names @ rest) s = Inr (q, t) \<and> more_used q s t"
proof -
  obtain name names' where names: "names = name # names'" using ne by (cases names) auto
  then obtain x xs where x: "name = x # xs" "x \<noteq> 0" "x \<noteq> 0x2F" using n by (cases name) auto
  have "str_mem (path_of names @ rest) 0 = x" by (simp add: path_of_def names x str_mem_def)
  moreover have "more_used p s (s\<lparr>inode_list := (inode_list s)(p := (inode_list s p)\<lparr>i_count := i_count (inode_list s p) + 1\<rparr>)\<rparr>)"
    by (simp add: more_used_def)
  ultimately show ?thesis
    using path_walk [OF assms(1-5)] x by (simp add: retain_inode_by_path_def Let_def)
qed

end
