(* ===== verification/Mount.thy ===== *)
theory Mount
  imports Dir_Lookup
begin

text \<open>
  Mounting a device whose super block and bitmaps are in memory: what \<open>read_super\<close> leaves is a device on which
  the allocation of inodes and zones works.
\<close>

section \<open>Keeping references\<close>

text \<open>One more reference for each buffer of a list.\<close>

definition refs :: "ptr list \<Rightarrow> cache \<Rightarrow> cache" where
  "refs ps c = fold (\<lambda>p. upd_buf p (\<lambda>b. b\<lparr>b_count := b_count b + 1\<rparr>)) ps c"

lemma refs_simps [simp]:
  "refs [] c = c" "refs (ps @ [p]) c = upd_buf p (\<lambda>b. b\<lparr>b_count := b_count b + 1\<rparr>) (refs ps c)"
  by (simp_all add: refs_def)

lemma refs_bufs: "bufs (refs ps c) q = (bufs c q)\<lparr>b_count := b_count (bufs c q) + of_nat (count_list ps q)\<rparr>"
proof (induction ps rule: rev_induct)
  case (snoc p ps)
  then show ?case by (cases "q = p") (simp_all add: upd_buf_def count_list_append add.assoc)
qed simp

lemma refs_fields [simp]:
  "bdata (refs ps c) = bdata c" "hash_table (refs ps c) = hash_table c" "free_list (refs ps c) = free_list c"
  "NR_BUFFERS (refs ps c) = NR_BUFFERS c" "cmap (refs ps c) k = cmap c k"
proof -
  show "NR_BUFFERS (refs ps c) = NR_BUFFERS c" "bdata (refs ps c) = bdata c" "hash_table (refs ps c) = hash_table c"
    "free_list (refs ps c) = free_list c"
    by (induction ps rule: rev_induct) (simp_all add: upd_buf_def)
  then show "cmap (refs ps c) k = cmap c k" by (simp add: cmap_def refs_bufs buf_key_def)
qed

lemma refs_inv: "cache_inv c \<Longrightarrow> cache_inv (refs ps c)"
  unfolding cache_inv_def using queues_ok_cong [of c "refs ps c"] by (fastforce simp: refs_bufs)

lemma refs_in_memory:
  assumes "cache l = refs ps (cache k)"
  shows "buf_of l dev z = buf_of k dev z" "block_image l dev = block_image k dev"
    "in_memory k dev z \<Longrightarrow> buf_of k dev z \<notin> set ps \<Longrightarrow> in_memory l dev z"
proof -
  show "buf_of l dev z = buf_of k dev z" "block_image l dev = block_image k dev"
    by (simp_all add: buf_of_def block_image_def fun_eq_iff assms)
  assume m: "in_memory k dev z" "buf_of k dev z \<notin> set ps"
  then have "count_list ps (buf_of k dev z) = 0" by (simp add: count_list_0_iff)
  then show "in_memory l dev z"
    using in_memoryD(1-4) [OF m(1)] unfolding in_memory_def assms by (simp add: refs_bufs)
qed

lemma buf_of_inj: "in_memory k dev y \<Longrightarrow> in_memory k dev z \<Longrightarrow> buf_of k dev y = buf_of k dev z \<longleftrightarrow> y = z"
  using in_memoryD(7) by metis

section \<open>The loops that read the maps\<close>

definition keeping :: "ptr list \<Rightarrow> fsys \<Rightarrow> fsys \<Rightarrow> bool" where
  "keeping ps s t \<longleftrightarrow> inode_list t = inode_list s \<and> last_inode t = last_inode s \<and> cache (krn t) = refs ps (cache (krn s))"

lemma read_kept:
  assumes c: "cache_inv (cache (krn s))" and m: "in_memory (krn s) dev z" "buf_of (krn s) dev z \<notin> set ps"
    and t: "keeping ps s t"
  shows "\<exists>u. kcall (read_buff dev z) t = Inr (buf_of (krn s) dev z, u) \<and> keeping (ps @ [buf_of (krn s) dev z]) s u \<and>
    super_block_list u = super_block_list t"
proof -
  have k: "cache (krn t) = refs ps (cache (krn s))" using t by (simp add: keeping_def)
  have "read_buff dev z (krn t) = Inr (buf_of (krn s) dev z, held (buf_of (krn s) dev z) (cli (krn t)))"
    using read_buff_in_memory [of "krn t" dev z] refs_inv [OF c] refs_in_memory [OF k] m k by simp
  then show ?thesis using t by (simp add: kcall_def keeping_def held_def upd_bh_def)
qed

lemma read_map_kept:
  fixes s :: fsys and dev :: u32
  defines "B \<equiv> \<lambda>z. buf_of (krn s) dev z"
  assumes c: "cache_inv (cache (krn s))" and st: "\<And>i bh. store i bh = upd_super sb (g i bh)"
  shows "i + n \<le> 8 \<Longrightarrow> \<forall>k<n. in_memory (krn s) dev (block + of_nat k) \<and> B (block + of_nat k) \<notin> set ps \<Longrightarrow> keeping ps s t \<Longrightarrow>
    \<exists>u. read_map store dev n i block t = Inr (block + of_nat n, u) \<and>
      keeping (ps @ map (\<lambda>k. B (block + of_nat k)) [0..<n]) s u \<and>
      super_block_list u = (super_block_list t)(sb := fold (\<lambda>k. g (i + k) (B (block + of_nat k))) [0..<n] (super_block_list t sb))"
proof (induction n arbitrary: i block ps t)
  case (Suc n)
  have m0: "in_memory (krn s) dev block" "B block \<notin> set ps" using Suc.prems(2) by auto
  obtain u where u: "kcall (read_buff dev block) t = Inr (B block, u)" "keeping (ps @ [B block]) s u"
    "super_block_list u = super_block_list t"
    using read_kept [OF c m0(1) _ Suc.prems(3)] m0(2) unfolding B_def by blast
  let ?v = "u\<lparr>super_block_list := (super_block_list u)(sb := g i (B block) (super_block_list u sb))\<rparr>"
  have nn: "B block \<noteq> NULL" using in_memoryD(5) [OF m0(1)] by (simp add: B_def)
  have step: "read_map store dev (Suc n) i block t = read_map store dev n (i + 1) (block + 1) ?v"
    using u(1) nn Suc.prems(1) by (simp add: st)
  have lt: "n < 8" using Suc.prems(1) by simp
  have ne: "block + 1 + of_nat k \<noteq> block" if "k < n" for k
  proof
    assume "block + 1 + of_nat k = block"
    then have "(of_nat (Suc k) :: u32) = 0" by (simp add: add.assoc)
    then have "2 ^ 32 dvd Suc k" unfolding word_of_nat_eq_0_iff by simp
    then show False using that lt by (auto dest: dvd_imp_le)
  qed
  have shift: "block + 1 + of_nat k = block + of_nat (k + 1)" for k by simp
  have "\<forall>k<n. in_memory (krn s) dev (block + 1 + of_nat k) \<and> B (block + 1 + of_nat k) \<notin> set (ps @ [B block])"
  proof (intro allI impI)
    fix k assume k: "k < n"
    have p: "in_memory (krn s) dev (block + 1 + of_nat k)" "B (block + 1 + of_nat k) \<notin> set ps"
      using Suc.prems(2) k unfolding shift by (metis Suc_eq_plus1 Suc_less_eq)+
    then show "in_memory (krn s) dev (block + 1 + of_nat k) \<and> B (block + 1 + of_nat k) \<notin> set (ps @ [B block])"
      using buf_of_inj [OF p(1) m0(1)] ne [OF k] by (simp add: B_def)
  qed
  moreover have "keeping (ps @ [B block]) s ?v" using u(2) by (simp add: keeping_def)
  moreover have "i + 1 + n \<le> 8" using Suc.prems(1) by simp
  ultimately obtain w where w: "read_map store dev n (i + 1) (block + 1) ?v = Inr (block + 1 + of_nat n, w)"
    "keeping ((ps @ [B block]) @ map (\<lambda>k. B (block + 1 + of_nat k)) [0..<n]) s w"
    "super_block_list w = (super_block_list ?v)(sb := fold (\<lambda>k. g (i + 1 + k) (B (block + 1 + of_nat k))) [0..<n] (super_block_list ?v sb))"
    using Suc.IH [of "i + 1" "block + 1" "ps @ [B block]" ?v] by blast
  have up: "[0..<Suc n] = 0 # map Suc [0..<n]" by (simp add: upt_conv_Cons map_Suc_upt)
  have "keeping (ps @ map (\<lambda>k. B (block + of_nat k)) [0..<Suc n]) s w"
    using w(2) unfolding up by (simp add: comp_def add.assoc)
  moreover have "super_block_list w = (super_block_list t)(sb := fold (\<lambda>k. g (i + k) (B (block + of_nat k))) [0..<Suc n] (super_block_list t sb))"
    using w(3) u(3) unfolding up by (simp add: fold_map comp_def add.assoc)
  moreover have "read_map store dev (Suc n) i block t = Inr (block + of_nat (Suc n), w)"
    unfolding step w(1) by (simp add: add.assoc)
  ultimately show ?case by blast
qed simp

lemma super_swap: "b\<lparr>s_zmap := z, s_imap := i\<rparr> = b\<lparr>s_imap := i, s_zmap := z\<rparr>"
  by (rule super_block.equality) simp_all

lemma slots_filled:
  "fold (\<lambda>k b. b\<lparr>s_imap := (s_imap b)(k := f k)\<rparr>) [0..<n] b = b\<lparr>s_imap := (\<lambda>k. if k < n then f k else s_imap b k)\<rparr>"
  "fold (\<lambda>k b. b\<lparr>s_zmap := (s_zmap b)(k := f k)\<rparr>) [0..<n] b = b\<lparr>s_zmap := (\<lambda>k. if k < n then f k else s_zmap b k)\<rparr>"
  by (induction n) (auto simp: fun_eq_iff less_Suc_eq)

section \<open>\<open>read_super\<close>\<close>

text \<open>The map buffers of a device with \<open>ni\<close> and \<open>nz\<close> map blocks, which start at block 2.\<close>

definition map_slots :: "kst \<Rightarrow> u32 \<Rightarrow> nat \<Rightarrow> nat \<Rightarrow> nat \<Rightarrow> ptr" where
  "map_slots k dev first n i = (if i < n then buf_of k dev (2 + of_nat (first + i)) else NULL)"

lemma map_slots_fun: "map_slots k dev first n = (\<lambda>i. if i < n then buf_of k dev (2 + of_nat (first + i)) else NULL)"
  by (simp add: fun_eq_iff map_slots_def)

definition maps_there :: "kst \<Rightarrow> u32 \<Rightarrow> nat \<Rightarrow> bool" where
  "maps_there k dev n \<longleftrightarrow> (\<forall>i<n. in_memory k dev (2 + of_nat i))"

text \<open>The super block that \<open>read_super\<close> builds in a slot from the contents of block 1.\<close>

definition mounted_super :: "kst \<Rightarrow> u32 \<Rightarrow> super_block \<Rightarrow> super_block" where
  "mounted_super k dev b0 =
     (let b = decode_super (block_image k dev 1) (b0\<lparr>s_dev := ucast dev, s_isup := NULL, s_imount := NULL, s_time := 0,
                                     s_rd_only := 0, s_dirt := 0\<rparr>);
          ni = unat (s_imap_blocks b); nz = unat (s_zmap_blocks b)
      in b\<lparr>s_imap := map_slots k dev 0 ni, s_zmap := map_slots k dev ni nz, s_lock := 0\<rparr>)"

definition first_bit :: "mem \<Rightarrow> mem" where
  "first_bit m = m(0 := m 0 OR 1)"

lemma read_maps_there:
  fixes s :: fsys and dev :: u32 and sb :: ptr
  defines "b \<equiv> super_block_list s sb"
  defines "ni \<equiv> unat (s_imap_blocks b)" and "nz \<equiv> unat (s_zmap_blocks b)"
  assumes c: "cache_inv (cache (krn s))" and n: "0 < ni" "ni \<le> 8" "0 < nz" "nz \<le> 8" and m: "maps_there (krn s) dev (ni + nz)"
  shows "\<exists>t. read_maps sb dev s = Inr (sb, t) \<and> inode_list t = inode_list s \<and>
    super_block_list t = (super_block_list s)(sb := b\<lparr>s_imap := map_slots (krn s) dev 0 ni,
      s_zmap := map_slots (krn s) dev ni nz, s_lock := 0\<rparr>) \<and>
    data_of t = (data_of s)(map_slots (krn s) dev 0 ni 0 := first_bit (data_of s (map_slots (krn s) dev 0 ni 0)),
      map_slots (krn s) dev ni nz 0 := first_bit (data_of s (map_slots (krn s) dev ni nz 0)))"
proof -
  let ?B = "\<lambda>z. buf_of (krn s) dev z"
  have M: "in_memory (krn s) dev (2 + of_nat i)" if "i < ni + nz" for i using m that by (simp add: maps_there_def)
  have word_ne: "(2 + of_nat i :: u32) = 2 + of_nat j \<longleftrightarrow> i = j" if "i < 16" "j < 16" for i j
    using that by (simp add: word_of_nat_eq_iff take_bit_nat_eq_self)
  define s0 where "s0 = s\<lparr>super_block_list := (super_block_list s)(sb := b\<lparr>s_imap := (\<lambda>_. NULL), s_zmap := (\<lambda>_. NULL)\<rparr>)\<rparr>"
  have k0: "keeping [] s s0" by (simp add: keeping_def s0_def)
  obtain s1 where s1: "read_map (set_imap sb) dev ni 0 2 s0 = Inr (2 + of_nat ni, s1)"
    "keeping (map (\<lambda>k. ?B (2 + of_nat k)) [0..<ni]) s s1"
    "super_block_list s1 = (super_block_list s)(sb := b\<lparr>s_imap := map_slots (krn s) dev 0 ni, s_zmap := (\<lambda>_. NULL)\<rparr>)"
  proof -
    have "\<forall>k<ni. in_memory (krn s) dev (2 + of_nat k) \<and> ?B (2 + of_nat k) \<notin> set []" using M by simp
    from read_map_kept [where i = 0, OF c, of "set_imap sb" sb "\<lambda>i bh b. b\<lparr>s_imap := (s_imap b)(i := bh)\<rparr>", OF _ _ this k0] n(2)
    obtain u where "read_map (set_imap sb) dev ni 0 2 s0 = Inr (2 + of_nat ni, u)"
      "keeping ([] @ map (\<lambda>k. ?B (2 + of_nat k)) [0..<ni]) s u"
      "super_block_list u = (super_block_list s0)(sb := fold (\<lambda>k b. b\<lparr>s_imap := (s_imap b)(0 + k := ?B (2 + of_nat k))\<rparr>) [0..<ni] (super_block_list s0 sb))"
      by (auto simp: set_imap_def)
    then show ?thesis
      by (intro that [of u]) (simp_all add: slots_filled super_swap s0_def map_slots_fun cong: if_cong)
  qed
  obtain s2 where s2: "read_map (set_zmap sb) dev nz 0 (2 + of_nat ni) s1 = Inr (2 + of_nat ni + of_nat nz, s2)"
    "keeping (map (\<lambda>k. ?B (2 + of_nat k)) [0..<ni] @ map (\<lambda>k. ?B (2 + of_nat ni + of_nat k)) [0..<nz]) s s2"
    "super_block_list s2 = (super_block_list s)(sb := b\<lparr>s_imap := map_slots (krn s) dev 0 ni, s_zmap := map_slots (krn s) dev ni nz\<rparr>)"
  proof -
    have "\<forall>k<nz. in_memory (krn s) dev (2 + of_nat ni + of_nat k) \<and>
        ?B (2 + of_nat ni + of_nat k) \<notin> set (map (\<lambda>k. ?B (2 + of_nat k)) [0..<ni])"
    proof (intro allI impI)
      fix k assume k: "k < nz"
      have e: "2 + of_nat ni + of_nat k = (2 + of_nat (ni + k) :: u32)" by simp
      have diff: "?B (2 + of_nat (ni + k)) \<noteq> ?B (2 + of_nat j)" if "j < ni" for j
        using buf_of_inj [OF M M, of "ni + k" j] that k n word_ne [of "ni + k" j] by simp
      have "?B (2 + of_nat (ni + k)) \<notin> set (map (\<lambda>k. ?B (2 + of_nat k)) [0..<ni])"
      proof
        assume "?B (2 + of_nat (ni + k)) \<in> set (map (\<lambda>k. ?B (2 + of_nat k)) [0..<ni])"
        then obtain j where "j < ni" "?B (2 + of_nat (ni + k)) = ?B (2 + of_nat j)" by (auto simp del: of_nat_add)
        then show False using diff by blast
      qed
      then show "in_memory (krn s) dev (2 + of_nat ni + of_nat k) \<and>
        ?B (2 + of_nat ni + of_nat k) \<notin> set (map (\<lambda>k. ?B (2 + of_nat k)) [0..<ni])"
        using M [of "ni + k"] k unfolding e by simp
    qed
    from read_map_kept [where i = 0, OF c, of "set_zmap sb" sb "\<lambda>i bh b. b\<lparr>s_zmap := (s_zmap b)(i := bh)\<rparr>", OF _ _ this s1(2)] n(4)
    obtain u where "read_map (set_zmap sb) dev nz 0 (2 + of_nat ni) s1 = Inr (2 + of_nat ni + of_nat nz, u)"
      "keeping (map (\<lambda>k. ?B (2 + of_nat k)) [0..<ni] @ map (\<lambda>k. ?B (2 + of_nat ni + of_nat k)) [0..<nz]) s u"
      "super_block_list u = (super_block_list s1)(sb := fold (\<lambda>k b. b\<lparr>s_zmap := (s_zmap b)(0 + k := ?B (2 + of_nat ni + of_nat k))\<rparr>) [0..<nz] (super_block_list s1 sb))"
      by (auto simp: set_zmap_def)
    then show ?thesis
      by (intro that [of u]) (simp_all add: slots_filled s1(3) map_slots_fun add.assoc cong: if_cong)
  qed
  have blocks: "unat (2 + of_nat ni + of_nat nz :: u32) = 2 + ni + nz"
  proof -
    have "2 + of_nat ni + of_nat nz = (of_nat (2 + ni + nz) :: u32)" by simp
    then show ?thesis using n by (simp only: unat_of_nat) (simp add: take_bit_nat_eq_self)
  qed
  let ?im = "map_slots (krn s) dev 0 ni 0" and ?zm = "map_slots (krn s) dev ni nz 0"
  have nn: "?im \<noteq> NULL" "?zm \<noteq> NULL"
    using n in_memoryD(5) [OF M, of 0] in_memoryD(5) [OF M, of ni] by (simp_all add: map_slots_def)
  have ne: "?im \<noteq> ?zm"
    using buf_of_inj [OF M M, of 0 ni] n word_ne [of 0 ni] by (simp add: map_slots_def)
  have d2: "bdata (cache (krn s2)) = bdata (cache (krn s))" using s2(2) by (simp add: keeping_def)
  have il: "inode_list s2 = inode_list s" using s2(2) by (simp add: keeping_def)
  let ?d = "(data_of s)(?im := first_bit (data_of s ?im), ?zm := first_bit (data_of s ?zm))"
  define s3 where "s3 = s2\<lparr>krn := (krn s2)\<lparr>cache := (cache (krn s2))\<lparr>bdata := ?d\<rparr>\<rparr>\<rparr>"
  define s21 where "s21 = s2\<lparr>krn := (krn s2)\<lparr>cache := (cache (krn s2))\<lparr>bdata := (data_of s)(?im := first_bit (data_of s ?im))\<rparr>\<rparr>\<rparr>"
  have upd: "upd_data ?im first_bit s2 = Inr ((), s21)" "upd_data ?zm first_bit s21 = Inr ((), s3)"
    using nn ne by (simp_all add: upd_data_def s21_def s3_def d2 data_of_def fun_eq_iff)
  have fb: "(\<lambda>m. m(0 := m 0 OR 1)) = first_bit" by (simp add: fun_eq_iff first_bit_def)
  have "super_block_list s2 sb = b\<lparr>s_imap := map_slots (krn s) dev 0 ni, s_zmap := map_slots (krn s) dev ni nz\<rparr>"
    by (simp add: s2(3))
  moreover have "unat (s_imap_blocks (super_block_list s0 sb)) = ni" "unat (s_zmap_blocks (super_block_list s0 sb)) = nz"
    by (simp_all add: s0_def ni_def nz_def)
  ultimately have "read_maps sb dev s = bnd (unlock_super sb s3) (\<lambda>r. Inr (sb, snd r))"
    using upd s1(1) s2(1) blocks unfolding read_maps_def fb
    by (simp add: b_def [symmetric] s0_def [symmetric] ni_def [symmetric] nz_def [symmetric])
  then have "read_maps sb dev s = Inr (sb, s3\<lparr>super_block_list := (super_block_list s3)(sb := (super_block_list s3 sb)\<lparr>s_lock := 0\<rparr>),
      krn := sti (cli (krn s3))\<rparr>)"
    by (simp add: unlock_super_def)
  then show ?thesis
    by (simp add: s3_def s2(3) il data_of_def fun_eq_iff cli_def sti_def)
qed

lemma put_kept:
  assumes "in_memory (krn s) dev z" "keeping [buf_of (krn s) dev z] s t"
  shows "\<exists>u. kproc (put_buff (buf_of (krn s) dev z)) t = Inr ((), u) \<and> keeping [] s u \<and> super_block_list u = super_block_list t"
proof -
  let ?s = "s\<lparr>super_block_list := super_block_list t\<rparr>"
  have k: "cache (krn t) = cache (held (buf_of (krn s) dev z) (krn s))"
    using assms(2) by (simp add: keeping_def held_def upd_bh_def refs_def)
  have "holding (buf_of (krn ?s) dev z) ?s t" using assms(2) k by (simp add: holding_def keeping_def same_tables_def)
  moreover have "in_memory (krn ?s) dev z" using assms(1) by simp
  ultimately show ?thesis
    using put_held [of ?s dev z t] by (auto simp: same_store_def same_tables_def keeping_def)
qed

lemma free_super_at:
  "p < q + n \<Longrightarrow> q \<le> p \<Longrightarrow> s_dev (super_block_list s p) = 0 \<Longrightarrow> \<forall>i. q \<le> i \<and> i < p \<longrightarrow> s_dev (super_block_list s i) \<noteq> 0 \<Longrightarrow>
    free_super n q s = Inr (p, s)"
proof (induction n arbitrary: q)
  case (Suc n)
  then show ?case by (cases "q = p") auto
qed simp

text \<open>Slot \<open>p\<close> is the first one without a device, and \<open>dev\<close> is in none of the slots.\<close>

definition mountable :: "u32 \<Rightarrow> ptr \<Rightarrow> fsys \<Rightarrow> bool" where
  "mountable dev p s \<longleftrightarrow> dev \<noteq> 0 \<and> unat dev < 65536 \<and> 1 \<le> p \<and> p \<le> NR_SUPER \<and>
     s_dev (super_block_list s p) = 0 \<and> s_lock (super_block_list s p) = 0 \<and>
     (\<forall>q. 1 \<le> q \<and> q < p \<longrightarrow> s_dev (super_block_list s q) \<noteq> 0) \<and>
     (\<forall>q. 1 \<le> q \<and> q \<le> NR_SUPER \<longrightarrow> ucast (s_dev (super_block_list s q)) \<noteq> dev)"

lemma read_super_block:
  assumes c: "cache_inv (cache (krn s))" and p: "mountable dev p s" and m: "in_memory (krn s) dev 1"
  defines "b \<equiv> decode_super (block_image (krn s) dev 1) ((super_block_list s p)\<lparr>s_dev := ucast dev, s_isup := NULL, s_imount := NULL,
      s_time := 0, s_rd_only := 0, s_dirt := 0\<rparr>)"
  shows "\<exists>t. keeping [] s t \<and> super_block_list t = (super_block_list s)(p := b) \<and>
    read_super dev s = (if s_magic b \<noteq> SUPER_MAGIC
      then fbind (upd_super p (\<lambda>b. b\<lparr>s_dev := 0\<rparr>)) (\<lambda>_. fbind (unlock_super p) (\<lambda>_. ret NULL)) t
      else read_maps p dev t)"
proof -
  have P: "dev \<noteq> 0" "p \<noteq> NULL" "s_lock (super_block_list s p) = 0" using p by (auto simp: mountable_def)
  have none: "find_super dev s = Inr (NULL, s)"
    using super_scan_none [of s dev 1 9] p by (simp add: find_super_def mountable_def)
  have free: "free_super NR_SUPER 1 s = Inr (p, s)"
    using p by (intro free_super_at) (auto simp: mountable_def)
  let ?b0 = "(super_block_list s p)\<lparr>s_dev := ucast dev, s_isup := NULL, s_imount := NULL, s_time := 0, s_rd_only := 0, s_dirt := 0\<rparr>"
  define s1 where "s1 = s\<lparr>super_block_list := (super_block_list s)(p := ?b0), krn := sti (cli (krn s))\<rparr>"
  have k1: "keeping [] s s1" by (simp add: keeping_def s1_def cli_def sti_def)
  obtain s2 where s2: "kcall (read_buff dev 1) s1 = Inr (buf_of (krn s) dev 1, s2)" "keeping [buf_of (krn s) dev 1] s s2"
    "super_block_list s2 = super_block_list s1"
    using read_kept [OF c m _ k1] by auto
  have nn: "buf_of (krn s) dev 1 \<noteq> NULL" by (rule in_memoryD(5) [OF m])
  have data: "bdata (cache (krn s2)) (buf_of (krn s) dev 1) = block_image (krn s) dev 1"
    using s2(2) in_memoryD(8) [OF m] by (simp add: keeping_def)
  define s3 where "s3 = s2\<lparr>super_block_list := (super_block_list s2)(p := b)\<rparr>"
  obtain s4 where s4: "print_super p s3 = Inr ((), s4)" "keeping [buf_of (krn s) dev 1] s s4" "super_block_list s4 = super_block_list s3"
    using s2(2) by (simp add: print_super_def fprintk_def keeping_def s3_def printk_def del: append.simps)
  obtain t where t: "kproc (put_buff (buf_of (krn s) dev 1)) s4 = Inr ((), t)" "keeping [] s t" "super_block_list t = super_block_list s4"
    using put_kept [OF m s4(2)] by blast
  have tb: "super_block_list t = (super_block_list s)(p := b)" using t(3) s4(3) s2(3) by (simp add: s3_def s1_def)
  have get: "get_data (buf_of (krn s) dev 1) decode_super s2 = Inr (decode_super (block_image (krn s) dev 1), s2)"
    using nn data by (simp add: get_data_def)
  have "super_block_list s2 p = ?b0" by (simp add: s2(3) s1_def)
  then have "read_super dev s = (if s_magic b \<noteq> SUPER_MAGIC
      then fbind (upd_super p (\<lambda>b. b\<lparr>s_dev := 0\<rparr>)) (\<lambda>_. fbind (unlock_super p) (\<lambda>_. ret NULL)) t
      else read_maps p dev t)"
    using P none free s2(1) get nn s4(1) t(1) tb
    by (simp add: read_super_def fill_super_def lock_super_def s1_def [symmetric] b_def [symmetric] s3_def [symmetric])
  then show ?thesis using t(2) tb by blast
qed

lemma bit_first: "bit_of (first_bit m) k \<longleftrightarrow> k = 0 \<or> bit_of m k"
proof -
  have "bit (m 0 OR 1) j \<longleftrightarrow> j = 0 \<or> bit (m 0) j" for j by (auto simp: bit_or_iff bit_1_iff)
  then show ?thesis by (cases "k div 8 = 0") (auto simp: bit_of_def first_bit_def div_eq_0_iff)
qed

text \<open>The map slots of the mounted device hold the buffers of different blocks.\<close>

lemma map_buf_inj:
  assumes "maps_there k dev n" "i < n" "j < n" "n \<le> 16"
  shows "buf_of k dev (2 + of_nat i) = buf_of k dev (2 + of_nat j) \<longleftrightarrow> i = j"
proof -
  have "(2 + of_nat i :: u32) = 2 + of_nat j \<longleftrightarrow> i = j"
    using assms(2-4) by (simp add: word_of_nat_eq_iff take_bit_nat_eq_self)
  then show ?thesis using assms buf_of_inj [of k dev "2 + of_nat i" "2 + of_nat j"] by (simp add: maps_there_def)
qed

lemma map_slots_ok:
  assumes "maps_there k dev n" "first + m \<le> n" "0 < m" "m \<le> 8" "n \<le> 16"
  shows "map_ok (map_slots k dev first m) m"
    "j < m \<Longrightarrow> bdata (cache k) (map_slots k dev first m j) = block_image k dev (2 + of_nat (first + j))"
proof -
  have M: "in_memory k dev (2 + of_nat i)" if "i < n" for i using assms(1) that by (simp add: maps_there_def)
  have "inj_on (map_slots k dev first m) {..<m}"
  proof (rule inj_onI)
    fix i j assume ij: "i \<in> {..<m}" "j \<in> {..<m}" "map_slots k dev first m i = map_slots k dev first m j"
    then show "i = j" using map_buf_inj [OF assms(1), of "first + i" "first + j"] assms by (simp add: map_slots_def del: of_nat_add)
  qed
  then show "map_ok (map_slots k dev first m) m"
    using in_memoryD(5) [OF M] assms by (auto simp: map_ok_def map_slots_def simp del: of_nat_add)
  show "j < m \<Longrightarrow> bdata (cache k) (map_slots k dev first m j) = block_image k dev (2 + of_nat (first + j))"
    using in_memoryD(8) [OF M, of "first + j"] assms by (simp add: map_slots_def del: of_nat_add)
qed

definition valid_super :: "super_block \<Rightarrow> bool" where
  "valid_super b \<longleftrightarrow> s_magic b = SUPER_MAGIC \<and> unat (s_imap_blocks b) \<in> {1..8} \<and> unat (s_zmap_blocks b) \<in> {1..8}"

text \<open>The map in \<open>slots\<close> is the one on the disk from block \<open>2 + first\<close> on, with number 0 in use.\<close>

definition map_from_disk :: "kst \<Rightarrow> u32 \<Rightarrow> nat \<Rightarrow> nat \<Rightarrow> (nat \<Rightarrow> ptr) \<Rightarrow> fsys \<Rightarrow> bool" where
  "map_from_disk k dev first n slots t \<longleftrightarrow> map_ok slots n \<and>
     (\<forall>j < n * 8192. marked slots t j \<longleftrightarrow> j = 0 \<or> bit_of (block_image k dev (2 + of_nat (first + j div 8192))) (j mod 8192))"

lemma map_from_disk_first:
  assumes M: "maps_there k dev n" "first + m \<le> n" "0 < m" "m \<le> 8" "n \<le> 16"
    and d: "\<And>i. i < m \<Longrightarrow> data_of t (map_slots k dev first m i) =
      (if i = 0 then first_bit (bdata (cache k) (map_slots k dev first m i)) else bdata (cache k) (map_slots k dev first m i))"
  shows "map_from_disk k dev first m (map_slots k dev first m) t"
proof -
  have "marked (map_slots k dev first m) t j \<longleftrightarrow> j = 0 \<or> bit_of (block_image k dev (2 + of_nat (first + j div 8192))) (j mod 8192)"
    if j: "j < m * 8192" for j
  proof -
    have i: "j div 8192 < m" using j by (simp add: less_mult_imp_div_less)
    have zero: "j = j mod 8192" if "j div 8192 = 0" using that div_mult_mod_eq [of j 8192] by simp
    have nz: "j \<noteq> 0" if "j div 8192 \<noteq> 0" using that by auto
    show ?thesis
    proof (cases "j div 8192 = 0")
      case True
      then have "j = 0 \<longleftrightarrow> j mod 8192 = 0" using zero by simp
      then show ?thesis
        unfolding marked_def d [OF i] map_slots_ok(2) [OF M i] if_P [OF True] bit_first by (simp only:)
    next
      case False
      then show ?thesis
        unfolding marked_def d [OF i] map_slots_ok(2) [OF M i] if_not_P [OF False] using nz by (simp only: simp_thms)
    qed
  qed
  then show ?thesis using map_slots_ok(1) [OF M] by (simp add: map_from_disk_def)
qed

lemma read_super_mounts:
  fixes s :: fsys and dev :: u32 and p :: ptr
  defines "b \<equiv> mounted_super (krn s) dev (super_block_list s p)"
  defines "ni \<equiv> unat (s_imap_blocks b)" and "nz \<equiv> unat (s_zmap_blocks b)"
  assumes c: "cache_inv (cache (krn s))" and p: "mountable dev p s" and m: "in_memory (krn s) dev 1"
    and v: "valid_super b" and mt: "maps_there (krn s) dev (ni + nz)"
  shows "\<exists>t. read_super dev s = Inr (p, t) \<and> super_at dev p t \<and> super_block_list t = (super_block_list s)(p := b) \<and>
    inode_list t = inode_list s \<and>
    map_from_disk (krn s) dev 0 ni (s_imap b) t \<and> map_from_disk (krn s) dev ni nz (s_zmap b) t"
proof -
  let ?b = "decode_super (block_image (krn s) dev 1) ((super_block_list s p)\<lparr>s_dev := ucast dev, s_isup := NULL, s_imount := NULL,
      s_time := 0, s_rd_only := 0, s_dirt := 0\<rparr>)"
  obtain t where t: "keeping [] s t" "super_block_list t = (super_block_list s)(p := ?b)"
    "read_super dev s = (if s_magic ?b \<noteq> SUPER_MAGIC
      then fbind (upd_super p (\<lambda>b. b\<lparr>s_dev := 0\<rparr>)) (\<lambda>_. fbind (unlock_super p) (\<lambda>_. ret NULL)) t
      else read_maps p dev t)"
    using read_super_block [OF c p m] by blast
  have k: "cache (krn t) = cache (krn s)" using t(1) by (simp add: keeping_def)
  have bn: "ni = unat (s_imap_blocks ?b)" "nz = unat (s_zmap_blocks ?b)" "s_magic b = s_magic ?b"
    "b = ?b\<lparr>s_imap := map_slots (krn s) dev 0 ni, s_zmap := map_slots (krn s) dev ni nz, s_lock := 0\<rparr>"
    by (simp_all add: ni_def nz_def b_def mounted_super_def Let_def)
  have n: "0 < ni" "ni \<le> 8" "0 < nz" "nz \<le> 8" using v by (auto simp: valid_super_def ni_def nz_def)
  have same: "map_slots (krn t) dev i j = map_slots (krn s) dev i j" "maps_there (krn t) dev j = maps_there (krn s) dev j" for i j
    by (simp_all add: fun_eq_iff map_slots_def maps_there_def in_memory_cong [OF k])
  let ?im = "map_slots (krn s) dev 0 ni" and ?zm = "map_slots (krn s) dev ni nz"
  have tp: "super_block_list t p = ?b" using t(2) by simp
  obtain u where u: "read_maps p dev t = Inr (p, u)" "inode_list u = inode_list t"
    "super_block_list u = (super_block_list t)(p := b)"
    "data_of u = (data_of t)(?im 0 := first_bit (data_of t (?im 0)), ?zm 0 := first_bit (data_of t (?zm 0)))"
    using read_maps_there [of t p dev] n c mt unfolding tp k same bn(1,2) [symmetric] bn(4) [symmetric] by blast
  have run: "read_super dev s = Inr (p, u)" using t(3) u(1) v bn(3) by (simp add: valid_super_def)
  have sb: "super_block_list u = (super_block_list s)(p := b)" using u(3) t(2) by simp
  have dt: "data_of t = bdata (cache (krn s))" by (simp add: data_of_def fun_eq_iff k)
  have M: "0 + ni \<le> ni + nz" "ni + nz \<le> ni + nz" "ni + nz \<le> 16" using n by simp_all
  note I = map_slots_ok [OF mt M(1) n(1,2) M(3)] and Z = map_slots_ok [OF mt M(2) n(3,4) M(3)]
  have iz: "?im i \<noteq> ?zm j" if "i < ni" "j < nz" for i j
    using that M(3) map_buf_inj [OF mt, of i "ni + j"] by (simp add: map_slots_def del: of_nat_add)
  have inj: "?im i = ?im 0 \<longleftrightarrow> i = 0" if "i < ni" for i using I(1) n that by (auto simp: map_ok_def inj_on_def)
  have injz: "?zm i = ?zm 0 \<longleftrightarrow> i = 0" if "i < nz" for i using Z(1) n that by (auto simp: map_ok_def inj_on_def)
  have "map_from_disk (krn s) dev 0 ni ?im u"
    using u(4) iz inj dt n by (intro map_from_disk_first [OF mt M(1) n(1,2) M(3)]) simp
  moreover have "map_from_disk (krn s) dev ni nz ?zm u"
    using u(4) iz injz dt n by (intro map_from_disk_first [OF mt M(2) n(3,4) M(3)]) (simp, metis)
  moreover have "s_imap b = ?im" "s_zmap b = ?zm" "s_lock b = 0" "s_dev b = ucast dev"
    by (simp_all add: bn(4) decode_super_def)
  moreover have "super_at dev p u"
    using p sb calculation(5,6) by (auto simp: super_at_def mountable_def ucast_u16_u32)
  ultimately show ?thesis using run sb u(2) t(1) by (simp add: keeping_def)
qed

text \<open>A block that is not a super block: the slot is free again.\<close>

lemma read_super_rejects:
  assumes c: "cache_inv (cache (krn s))" and p: "mountable dev p s" and m: "in_memory (krn s) dev 1"
    and v: "s_magic (mounted_super (krn s) dev (super_block_list s p)) \<noteq> SUPER_MAGIC"
  shows "\<exists>t. read_super dev s = Inr (NULL, t) \<and> mountable dev p t \<and> inode_list t = inode_list s \<and>
    cache (krn t) = cache (krn s) \<and> (\<forall>q. q \<noteq> p \<longrightarrow> super_block_list t q = super_block_list s q)"
proof -
  let ?b = "decode_super (block_image (krn s) dev 1) ((super_block_list s p)\<lparr>s_dev := ucast dev, s_isup := NULL, s_imount := NULL,
      s_time := 0, s_rd_only := 0, s_dirt := 0\<rparr>)"
  have magic: "s_magic ?b \<noteq> SUPER_MAGIC" using v by (simp add: mounted_super_def Let_def)
  obtain t where t: "keeping [] s t" "super_block_list t = (super_block_list s)(p := ?b)"
    "read_super dev s = fbind (upd_super p (\<lambda>b. b\<lparr>s_dev := 0\<rparr>)) (\<lambda>_. fbind (unlock_super p) (\<lambda>_. ret NULL)) t"
    using read_super_block [OF c p m] magic by auto
  let ?t = "t\<lparr>super_block_list := (super_block_list t)(p := (super_block_list t p)\<lparr>s_dev := 0, s_lock := 0\<rparr>), krn := sti (cli (krn t))\<rparr>"
  have run: "read_super dev s = Inr (NULL, ?t)"
    unfolding t(3) by (simp add: unlock_super_def)
  have "mountable dev p ?t" using p by (auto simp: mountable_def t(2))
  moreover have "cache (krn ?t) = cache (krn s)" using t(1) by (simp add: keeping_def cli_def sti_def)
  ultimately show ?thesis using run t(1,2) by (intro exI [of _ ?t]) (simp add: keeping_def)
qed

end
