(* ===== verification/Inode_Create.thy ===== *)
theory Inode_Create
  imports Mount
begin

text \<open>
  The creation of an inode on a mounted device: the first free number is marked and an unused slot of the table is
  given to the new inode. Nothing else is touched.
\<close>

section \<open>Buffers that only become dirty\<close>

definition tidy :: "buffer_head \<Rightarrow> buffer_head" where
  "tidy b = b\<lparr>b_dirt := 0\<rparr>"

text \<open>The buffers have one more reference for each element of \<open>ps\<close>, and some may have become dirty.\<close>

definition evolved :: "ptr list \<Rightarrow> cache \<Rightarrow> cache \<Rightarrow> bool" where
  "evolved ps c d \<longleftrightarrow> hash_table d = hash_table c \<and> free_list d = free_list c \<and> NR_BUFFERS d = NR_BUFFERS c \<and>
     (\<forall>q. tidy (bufs d q) = tidy (bufs (refs ps c) q))"

lemma tidy_fields:
  assumes "tidy b = tidy b'"
  shows "b_data b = b_data b'" "b_blocknr b = b_blocknr b'" "b_dev b = b_dev b'" "b_uptodate b = b_uptodate b'"
    "b_count b = b_count b'" "b_lock b = b_lock b'" "b_next b = b_next b'" "b_prev b = b_prev b'"
    "b_next_free b = b_next_free b'" "b_prev_free b = b_prev_free b'"
  using assms by (cases b; cases b'; simp add: tidy_def)+

lemma evolved_refl [simp]: "evolved [] c c"
  by (simp add: evolved_def)

lemma evolved_fields:
  assumes "evolved ps c d"
  shows "b_data (bufs d q) = b_data (bufs c q)" "b_lock (bufs d q) = b_lock (bufs c q)"
    "b_count (bufs d q) = b_count (bufs c q) + of_nat (count_list ps q)" "cmap d k = cmap c k"
    "b_uptodate (bufs d q) = b_uptodate (bufs c q)" "NR_BUFFERS d = NR_BUFFERS c"
proof -
  have T: "tidy (bufs d p) = tidy (bufs (refs ps c) p)" for p using assms by (simp add: evolved_def)
  note F = tidy_fields [OF T]
  show "b_data (bufs d q) = b_data (bufs c q)" "b_lock (bufs d q) = b_lock (bufs c q)"
    "b_count (bufs d q) = b_count (bufs c q) + of_nat (count_list ps q)" "b_uptodate (bufs d q) = b_uptodate (bufs c q)"
    by (simp_all add: F refs_bufs)
  show N: "NR_BUFFERS d = NR_BUFFERS c" using assms by (simp add: evolved_def)
  show "cmap d k = cmap c k" unfolding cmap_def N by (simp add: F refs_bufs buf_key_def)
qed

lemma evolved_inv: "evolved [] c d \<Longrightarrow> cache_inv c \<Longrightarrow> cache_inv d"
proof -
  assume e: "evolved [] c d" and "cache_inv c"
  then obtain l ch where q: "queues_ok c l ch" by (auto simp: cache_inv_def)
  have "tidy (bufs c p) = tidy (bufs d p)" for p using e by (simp add: evolved_def)
  note F = tidy_fields [OF this]
  have "queues_ok d l ch"
    by (rule queues_ok_cong [OF _ _ _ _ q]) (use e F in \<open>simp_all add: evolved_def\<close>)
  then show "cache_inv d" by (auto simp: cache_inv_def)
qed

lemma evolved_trans: "evolved ps c d \<Longrightarrow> evolved [] d e \<Longrightarrow> evolved ps c e"
  by (simp add: evolved_def)

lemma evolved_in_memory:
  assumes "evolved [] (cache (krn s)) (cache (krn t))"
  shows "buf_of (krn t) dev z = buf_of (krn s) dev z" "in_memory (krn t) dev z = in_memory (krn s) dev z"
proof -
  note E = evolved_fields [OF assms]
  show "buf_of (krn t) dev z = buf_of (krn s) dev z" by (simp add: buf_of_def E(4))
  show "in_memory (krn t) dev z = in_memory (krn s) dev z"
    unfolding in_memory_def E(4) by (cases "cmap (cache (krn s)) (dev, z)") (simp_all add: E)
qed

lemma tidy_dirt [simp]: "tidy (b\<lparr>b_dirt := d\<rparr>) = tidy b"
  by (simp add: tidy_def)

lemma evolved_dirty:
  "evolved ps c d \<Longrightarrow> evolved ps c (upd_buf bh (\<lambda>b. b\<lparr>b_dirt := v\<rparr>) d)"
  "evolved ps c d \<Longrightarrow> evolved ps c (d\<lparr>bdata := m\<rparr>)"
  by (simp_all add: evolved_def upd_buf_def)

lemma tidy_count: "tidy b = tidy (c\<lparr>b_count := b_count c + 1\<rparr>) \<Longrightarrow> tidy (b\<lparr>b_count := b_count b - 1\<rparr>) = tidy c"
  by (cases b; cases c) (auto simp: tidy_def)

lemma put_evolved:
  assumes m: "in_memory (krn s) dev z" and e: "evolved [buf_of (krn s) dev z] (cache (krn s)) (cache (krn t))"
  shows "\<exists>u. kproc (put_buff (buf_of (krn s) dev z)) t = Inr ((), u) \<and> evolved [] (cache (krn s)) (cache (krn u)) \<and>
    data_of u = data_of t \<and> same_tables t u"
proof -
  let ?p = "buf_of (krn s) dev z"
  note M = in_memoryD [OF m] and E = evolved_fields [OF e]
  have lock: "b_lock (bh_of (krn t) ?p) = 0" using M(2) by (simp add: E)
  have cnt: "b_count (bh_of (krn t) ?p) = b_count (bh_of (krn s) ?p) + 1" by (simp add: E)
  have nz: "b_count (bh_of (krn s) ?p) + 1 \<noteq> 0"
  proof
    assume "b_count (bh_of (krn s) ?p) + 1 = 0"
    then have "b_count (bh_of (krn s) ?p) = - 1" by (metis add.commute add_eq_0_iff)
    then show False using M(4) by simp
  qed
  let ?k = "upd_bh ?p (\<lambda>b. b\<lparr>b_count := b_count b - 1\<rparr>) (cli (krn t))"
  have "put_buff ?p (krn t) = Inr ?k"
    using lock cnt nz M(5) by (simp add: put_buff_def wait_unlocked cli_def)
  moreover have "evolved [] (cache (krn s)) (cache ?k)"
    using e unfolding evolved_def by (auto simp: upd_bh_def upd_buf_def refs_def intro: tidy_count)
  ultimately show ?thesis
    by (simp add: kproc_def data_of_def fun_eq_iff upd_bh_def)
qed

section \<open>The first free number\<close>

lemma add_inode_bitmap_first:
  assumes at: "super_at dev sb s" and b: "b = super_block_list s sb" and m: "map_ok (s_imap b) (unat (s_imap_blocks b))"
    and n: "n \<le> unat (s_ninodes b)" "n < unat (s_imap_blocks b) * 8192" "\<not> marked (s_imap b) s n" "\<forall>k<n. marked (s_imap b) s k"
  shows "add_inode_bitmap dev s = Inr (n, with_data (s_imap b (n div 8192))
      (snd (btsl (n mod 8192) (data_of s (s_imap b (n div 8192))))) (s\<lparr>krn := cli (krn s)\<rparr>))"
proof -
  let ?s = "s\<lparr>krn := cli (krn s)\<rparr>" and ?N = "unat (s_imap_blocks b)"
  obtain bh j i where R: "map_scan (s_imap b) ?N 0 None 8192 ?s = Inr ((Some bh, j, i), ?s)"
    "\<forall>k<j + i * 8192. k < ?N * 8192 \<longrightarrow> marked (s_imap b) s k"
    "i = ?N \<and> j = 8192 \<or> i < ?N \<and> bh = s_imap b i \<and> j < 8192 \<and> \<not> marked (s_imap b) s (j + i * 8192)"
    using map_scan_first [OF m, of ?s] unfolding marked_cli by blast
  have iN: "i \<noteq> ?N" using R(2,3) n(2,3) by auto
  then have i: "i < ?N" "bh = s_imap b i" "j < 8192" "\<not> marked (s_imap b) s (j + i * 8192)" using R(3) by auto
  have nj: "n = j + i * 8192"
  proof (rule ccontr)
    assume "n \<noteq> j + i * 8192"
    then consider "n < j + i * 8192" | "j + i * 8192 < n" by linarith
    then show False using R(2) n i(4) by cases auto
  qed
  then have d: "n div 8192 = i" "n mod 8192 = j" using i(3) by simp_all
  have nn: "bh \<noteq> NULL" using m i by (auto simp: map_ok_def)
  have "\<not> bit_of (data_of ?s bh) j" using i(2,4) d nj by (simp add: marked_def)
  then have "mark_bit bh j ''add_inode_bitmap: bit already set'' ?s = Inr ((), with_data bh (snd (btsl j (data_of ?s bh))) ?s)"
    by (rule mark_bit_free [OF nn])
  then show ?thesis
    using find_super_at [OF at] R(1) n(1) nn i(2,3) nj d
    by (simp add: add_inode_bitmap_def b [symmetric])
qed

section \<open>An unused slot\<close>

definition next_slot :: "ptr \<Rightarrow> ptr" where
  "next_slot p = (if p + 1 > NR_INODE then 1 else p + 1)"

lemma next_slot_cycle:
  "slot l \<Longrightarrow> k \<le> NR_INODE \<Longrightarrow> (next_slot ^^ k) l = (if l + k \<le> NR_INODE then l + k else l + k - NR_INODE)"
  by (induction k) (auto simp: next_slot_def slot_def)

lemma next_slot_all: "slot l \<Longrightarrow> slot q \<Longrightarrow> \<exists>k. 1 \<le> k \<and> k \<le> NR_INODE \<and> (next_slot ^^ k) l = q"
proof -
  assume a: "slot l" "slot q"
  show ?thesis
  proof (cases "l < q")
    case True
    then show ?thesis using a next_slot_cycle [OF a(1), of "q - l"] by (intro exI [of _ "q - l"]) (auto simp: slot_def)
  next
    case False
    then show ?thesis using a next_slot_cycle [OF a(1), of "q + NR_INODE - l"]
      by (intro exI [of _ "q + NR_INODE - l"]) (auto simp: slot_def)
  qed
qed

lemma pick_inode_step:
  "pick_inode (Suc n) best s =
    (let p = next_slot (last_inode s); i = inode_list s p; t = s\<lparr>last_inode := p\<rparr>
     in if i_count i = 0 \<and> (best = NULL \<or> inode_badness i < inode_badness (inode_list s best))
        then (if inode_badness i = 0 then Inr (p, t) else pick_inode n p t) else pick_inode n best t)"
proof -
  have "next_inode s = Inr (next_slot (last_inode s), s\<lparr>last_inode := next_slot (last_inode s)\<rparr>)"
    by (simp add: next_inode_def next_slot_def Let_def)
  then show ?thesis unfolding Let_def by auto
qed

lemma pick_inode_some:
  assumes "pick_inode n best s = Inr (p, t)" "slot (last_inode s)"
    and "best \<noteq> NULL \<or> (\<exists>k. 1 \<le> k \<and> k \<le> n \<and> i_count (inode_list s ((next_slot ^^ k) (last_inode s))) = 0)"
  shows "p \<noteq> NULL"
  using assms
proof (induction n arbitrary: best s)
  case (Suc n)
  let ?p = "next_slot (last_inode s)"
  have sp: "slot ?p" "?p \<noteq> NULL" using Suc.prems(2) by (auto simp: next_slot_def slot_def)
  let ?t = "s\<lparr>last_inode := ?p\<rparr>"
  let ?take = "i_count (inode_list s ?p) = 0 \<and> (best = NULL \<or> inode_badness (inode_list s ?p) < inode_badness (inode_list s best))"
  show ?case
  proof (cases ?take)
    case True
    then show ?thesis using Suc.prems(1) Suc.IH [of ?p ?t] sp unfolding pick_inode_step Let_def by (auto split: if_splits)
  next
    case False
    have r: "pick_inode n best ?t = Inr (p, t)" using Suc.prems(1) False unfolding pick_inode_step Let_def by (simp add: False cong: if_cong)
    have "best \<noteq> NULL \<or> (\<exists>k. 1 \<le> k \<and> k \<le> n \<and> i_count (inode_list ?t ((next_slot ^^ k) (last_inode ?t))) = 0)"
    proof (cases "best = NULL")
      case True
      then obtain k where k: "1 \<le> k" "k \<le> Suc n" "i_count (inode_list s ((next_slot ^^ k) (last_inode s))) = 0"
        using Suc.prems(3) by blast
      have "k \<noteq> 1" using k(3) True False by auto
      then obtain j where "k = Suc j" "1 \<le> j" using k(1) by (cases k) auto
      then show ?thesis using k by (intro disjI2 exI [of _ j]) (simp add: funpow_swap1)
    qed simp
    then show ?thesis using Suc.IH [OF r] sp(1) by simp
  qed
qed auto

section \<open>\<open>new_inode\<close> and \<open>create_inode\<close>\<close>

lemma inode_scan_miss:
  assumes "\<And>q. slot q \<Longrightarrow> key_at s q \<noteq> (dev, nr)"
  shows "1 \<le> p \<Longrightarrow> p \<le> NR_INODE + 1 \<Longrightarrow> NR_INODE + 1 < p + n \<Longrightarrow> inode_scan n p dev nr s = Inr ((NULL, dev, nr), s)"
proof (induction n arbitrary: p)
  case (Suc n)
  show ?case
  proof (cases "p = NR_INODE + 1")
    case False
    then have "slot p" using Suc.prems by (simp add: slot_def)
    then have "\<not> (ucast (i_dev (inode_list s p)) = dev \<and> ucast (i_num (inode_list s p)) = nr)"
      using assms by (auto simp: inode_key_def)
    then show ?thesis using Suc.IH [of "p + 1"] Suc.prems False by auto
  qed simp
qed simp

lemma find_inode_miss:
  assumes "\<And>q. slot q \<Longrightarrow> key_at s q \<noteq> (dev, nr)" "dev \<noteq> 0"
  shows "\<exists>t. find_inode dev nr s = Inr ((NULL, dev, nr), t) \<and> same_store s t"
proof -
  let ?t = "s\<lparr>krn := printk (''debug_fs: in find_inode[0x%x:0x%x]'' @ NLCR) [ArgI dev, ArgI nr] (krn s)\<rparr>"
  have "inode_scan (9 * 33) 1 dev nr ?t = Inr ((NULL, dev, nr), ?t)"
    by (rule inode_scan_miss) (use assms(1) in simp_all)
  then show ?thesis
    using assms(2) by (simp add: find_inode_def fprintk_def del: inode_scan.simps append.simps) (simp add: printk_def)
qed

text \<open>There is an unused slot in the table of inodes, and the unused ones are clean.\<close>

definition spare_slot :: "fsys \<Rightarrow> bool" where
  "spare_slot s \<longleftrightarrow> slot (last_inode s) \<and> (\<exists>q. slot q \<and> i_count (inode_list s q) = 0) \<and>
     (\<forall>q. slot q \<and> i_count (inode_list s q) = 0 \<longrightarrow> i_dirt (inode_list s q) = 0)"

definition fresh_inode :: "u32 \<Rightarrow> u32 \<Rightarrow> m_inode" where
  "fresh_inode dev nr = zero_inode\<lparr>i_count := 1, i_dev := ucast dev, i_num := ucast nr\<rparr>"

definition given :: "ptr \<Rightarrow> m_inode \<Rightarrow> fsys \<Rightarrow> fsys \<Rightarrow> bool" where
  "given q i s t \<longleftrightarrow> slot q \<and> i_count (inode_list s q) = 0 \<and> inode_list t = (inode_list s)(q := i) \<and>
     super_block_list t = super_block_list s \<and> cache (krn t) = cache (krn s)"

lemma new_inode_fresh:
  assumes sp: "spare_slot s" and dev: "dev \<noteq> 0" and new: "\<And>q. slot q \<Longrightarrow> key_at s q \<noteq> (dev, nr)"
  shows "\<exists>q t. new_inode dev nr s = Inr (q, t) \<and> given q (fresh_inode dev nr) s t"
proof -
  define s1 where "s1 = s\<lparr>krn := printk (''debug_fs: in new_inode'' @ NL) [] (krn s)\<rparr>"
  have last: "slot (last_inode s1)" using sp by (simp add: s1_def spare_slot_def)
  obtain q s2 where q: "pick_inode NR_INODE NULL s1 = Inr (q, s2)" "inode_list s2 = inode_list s1"
    "super_block_list s2 = super_block_list s1" "krn s2 = krn s1" "q = NULL \<or> slot q \<and> i_count (inode_list s1 q) = 0"
    using pick_inode_ok [OF last, of NR_INODE NULL] by auto
  have "q \<noteq> NULL"
  proof (rule pick_inode_some [OF q(1) last])
    obtain r where r: "slot r" "i_count (inode_list s1 r) = 0" using sp by (auto simp: spare_slot_def s1_def)
    then show "NULL \<noteq> NULL \<or> (\<exists>k. 1 \<le> k \<and> k \<le> NR_INODE \<and> i_count (inode_list s1 ((next_slot ^^ k) (last_inode s1))) = 0)"
      using next_slot_all [OF last r(1)] by blast
  qed
  then have Q: "slot q" "i_count (inode_list s q) = 0" using q(5) by (auto simp: s1_def)
  then have clean: "i_dirt (inode_list s2 q) = 0" using sp q(2) by (simp add: spare_slot_def s1_def)
  have il: "inode_list s2 = inode_list s" using q(2) by (simp add: s1_def)
  obtain s3 where s3: "find_inode dev nr s2 = Inr ((NULL, dev, nr), s3)" "same_store s2 s3"
    using find_inode_miss [of s2 dev nr] new dev by (auto simp: il)
  have st: "inode_list s3 = inode_list s" "super_block_list s3 = super_block_list s" "cache (krn s3) = cache (krn s)"
    using s3(2) q il by (simp_all add: same_store_def same_tables_def s1_def printk_def)
  let ?s4 = "s3\<lparr>inode_list := (inode_list s3)(q := fresh_inode dev nr)\<rparr>"
  let ?t = "?s4\<lparr>krn := printk (''debug_fs:new inode[0x%x:0x%x]'' @ NLCR) [ArgI (ucast (ucast dev :: u16)), ArgI (ucast (ucast nr :: u16))] (krn ?s4)\<rparr>"
  have "install_inode q dev nr s2 = Inr (q, ?t)"
    using s3(1) by (simp add: install_inode_def fprintk_def fresh_inode_def)
  moreover have "clean_inode 2 q s2 = Inr (True, s2)" using clean by (simp add: numeral_2_eq_2)
  ultimately have "new_inode dev nr s = Inr (q, ?t)"
    using q(1) \<open>q \<noteq> NULL\<close> unfolding new_inode_def
    by (simp add: fprintk_def s1_def [symmetric] del: clean_inode.simps pick_inode.simps append.simps)
  moreover have "given q (fresh_inode dev nr) s ?t"
    using Q st by (simp add: given_def printk_def)
  ultimately show ?thesis by blast
qed

text \<open>Number \<open>n\<close> is the first free one of the mounted device.\<close>

definition free_number :: "u32 \<Rightarrow> ptr \<Rightarrow> nat \<Rightarrow> fsys \<Rightarrow> bool" where
  "free_number dev sb n s \<longleftrightarrow> super_at dev sb s \<and>
     (let b = super_block_list s sb
      in map_ok (s_imap b) (unat (s_imap_blocks b)) \<and> n \<noteq> 0 \<and> n \<le> unat (s_ninodes b) \<and> n < unat (s_imap_blocks b) * 8192 \<and>
         \<not> marked (s_imap b) s n \<and> (\<forall>k<n. marked (s_imap b) s k))"

definition imap_buf :: "ptr \<Rightarrow> nat \<Rightarrow> fsys \<Rightarrow> ptr" where
  "imap_buf sb n s = s_imap (super_block_list s sb) (n div 8192)"

lemma create_inode_fresh:
  assumes sp: "spare_slot s" and fr: "free_number dev sb n s" and new: "\<And>q. slot q \<Longrightarrow> key_at s q \<noteq> (dev, of_nat n)"
  shows "\<exists>q t. create_inode dev s = Inr (q, t) \<and> slot q \<and> i_count (inode_list s q) = 0 \<and>
    inode_list t = (inode_list s)(q := (fresh_inode dev (of_nat n))\<lparr>i_nlinks := 1, i_dirt := 1\<rparr>) \<and>
    super_block_list t = super_block_list s \<and> evolved [] (cache (krn s)) (cache (krn t)) \<and>
    data_of t = (data_of s)(imap_buf sb n s := snd (btsl (n mod 8192) (data_of s (imap_buf sb n s))))"
proof -
  have f: "super_at dev sb s" "map_ok (s_imap (super_block_list s sb)) (unat (s_imap_blocks (super_block_list s sb)))" "n \<noteq> 0"
    "n \<le> unat (s_ninodes (super_block_list s sb))" "n < unat (s_imap_blocks (super_block_list s sb)) * 8192"
    "\<not> marked (s_imap (super_block_list s sb)) s n" "\<forall>k<n. marked (s_imap (super_block_list s sb)) s k"
    using fr by (simp_all add: free_number_def Let_def)
  let ?bh = "imap_buf sb n s" and ?s = "s\<lparr>krn := cli (krn s)\<rparr>"
  define s1 where "s1 = with_data ?bh (snd (btsl (n mod 8192) (data_of s ?bh))) ?s"
  have add: "add_inode_bitmap dev s = Inr (n, s1)"
    unfolding s1_def imap_buf_def by (rule add_inode_bitmap_first [OF f(1) refl f(2,4-7)])
  have sp1: "spare_slot s1" using sp by (simp add: s1_def spare_slot_def)
  have "dev \<noteq> 0" using f(1) by (simp add: super_at_def)
  then obtain q s2 where q: "new_inode dev (of_nat n) s1 = Inr (q, s2)" "given q (fresh_inode dev (of_nat n)) s1 s2"
    using new_inode_fresh [OF sp1, of dev "of_nat n"] new by (auto simp: s1_def)
  have qn: "q \<noteq> NULL" using q(2) by (simp add: given_def slot_def)
  let ?t = "s2\<lparr>inode_list := (inode_list s2)(q := (fresh_inode dev (of_nat n))\<lparr>i_nlinks := 1, i_dirt := 1\<rparr>)\<rparr>"
  have "create_inode dev s = Inr (q, ?t)"
    using add q f(3) qn by (simp add: create_inode_def given_def)
  moreover have "evolved [] (cache (krn s)) (cache (krn s1))"
    unfolding s1_def with_data_def upd_bh_def by (simp add: evolved_dirty)
  moreover have "data_of s1 = (data_of s)(?bh := snd (btsl (n mod 8192) (data_of s ?bh)))"
    by (auto simp: fun_eq_iff s1_def)
  ultimately show ?thesis
    using q(2) by (intro exI [of _ q] exI [of _ ?t]) (simp add: given_def s1_def [symmetric] data_of_def fun_eq_iff, simp add: s1_def)
qed

end
