(* ===== verification/Dir_Create.thy ===== *)
theory Dir_Create
  imports Inode_Create
begin

text \<open>The creation of a directory entry, and its lookup afterwards.\<close>

section \<open>Unused entries\<close>

definition unused :: "fsys \<Rightarrow> ptr \<Rightarrow> nat \<Rightarrow> bool" where
  "unused s p j =
     (let i = inode_list s p
      in i_size i \<le> of_nat (j * 32) \<or> entry_inode (block_image (krn s) (ucast (i_dev i))) (i_zone i) j = 0)"

abbreviation entry_offset :: "nat \<Rightarrow> nat" where
  "entry_offset j \<equiv> 32 * (j mod DIR_ENTRIES_PER_BLOCK)"

lemma create_entry_used:
  assumes d: "dir_there s p entries" "j < entries" and h: "holding (entry_buf s p j) s t" and u: "\<not> unused s p j"
  shows "create_entry p j (entry_offset j) (entry_buf s p j) name len t = Inr (None, t)"
proof -
  note H = holding_fields [OF h]
  let ?i = "inode_list s p"
  have u': "\<not> i_size ?i \<le> of_nat (j * 32)" "entry_inode (block_image (krn s) (ucast (i_dev ?i))) (i_zone ?i) j \<noteq> 0"
    using u by (simp_all add: unused_def Let_def)
  have get: "get_data (entry_buf s p j) (\<lambda>m. load16 m (entry_offset j)) t =
      Inr (entry_inode (block_image (krn s) (ucast (i_dev ?i))) (i_zone ?i) j, t)"
    unfolding entry_inode_def by (rule entry_data(2) [OF d h])
  show ?thesis using u' get by (simp add: create_entry_def H(1) del: of_nat_mult)
qed

text \<open>The search reaches the first unused entry and is done there if creating the entry succeeds.\<close>

lemma create_scan_there:
  assumes c: "cache_inv (cache (krn s))" and d: "dir_there s p (Suc e)"
    and un: "\<forall>k<e. \<not> unused s p k"
    and new: "\<And>t. holding (entry_buf s p e) s t \<Longrightarrow>
      \<exists>q u. create_entry p e (entry_offset e) (entry_buf s p e) name len t = Inr (Some q, u) \<and> P q u"
    and i: "i \<le> e" and n: "e < i + n" and sc: "scanning s p j i de t"
  shows "\<exists>q u. create_scan n p i de (entry_buf s p j) name len t = Inr (q, u) \<and> P q u"
  using i n sc
proof (induction n arbitrary: i j de t)
  case (Suc n)
  obtain u where u: "dir_block p i de (entry_buf s p j) True t =
      Inr (Entry_at (entry_addr s p i) (b_data (bh_of (krn s) (entry_buf s p i))) (entry_buf s p i), u)"
    "holding (entry_buf s p i) s u"
    using dir_block_there [OF c d Suc.prems(3)] Suc.prems(1) by auto
  show ?case
  proof (cases "i = e")
    case True
    then obtain q v where "create_entry p i (entry_offset i) (entry_buf s p i) name len u = Inr (Some q, v)" "P q v"
      using new u(2) by blast
    then show ?thesis using u(1) by simp
  next
    case False
    then have ie: "i < e" using Suc.prems(1) by simp
    have none: "create_entry p i (entry_offset i) (entry_buf s p i) name len u = Inr (None, u)"
      by (rule create_entry_used [OF d _ u(2)]) (use ie un in auto)
    have "scanning s p i (i + 1) (entry_addr s p i + 32) u" using u(2) by (simp add: scanning_def)
    then obtain q v where "create_scan n p (i + 1) (entry_addr s p i + 32) (entry_buf s p i) name len u = Inr (q, v)" "P q v"
      using Suc.IH [of "i + 1"] ie Suc.prems(2) by fastforce
    then show ?thesis using u(1) none by simp
  qed
qed simp

section \<open>Creating the entry\<close>

lemma store16_again: "store16 a v (store16 a w m) = store16 a v m"
  by (simp add: store16_def fun_upd_twist)

lemma write_entry_again: "write_entry off nr name len (store16 off v m) = write_entry off nr name len m"
  by (simp add: write_entry_def store16_again)

text \<open>The directory's inode when entry \<open>j\<close> has been used.\<close>

definition extended :: "nat \<Rightarrow> m_inode \<Rightarrow> m_inode" where
  "extended j i = (if i_size i \<le> of_nat (j * 32) then i\<lparr>i_size := of_nat ((j + 1) * 32), i_dirt := 1\<rparr> else i)"

lemma extended_fields [simp]:
  "i_dev (extended j i) = i_dev i" "i_num (extended j i) = i_num i" "i_zone (extended j i) = i_zone i"
  "i_count (extended j i) = i_count i" "i_lock (extended j i) = i_lock i" "i_mount (extended j i) = i_mount i"
  "i_nlinks (extended j i) = i_nlinks i"
  by (simp_all add: extended_def)

text \<open>What is needed for a new inode: a number and a slot, and that the inode is not in the table.\<close>

definition can_create :: "fsys \<Rightarrow> u32 \<Rightarrow> ptr \<Rightarrow> nat \<Rightarrow> bool" where
  "can_create s dev sb n \<longleftrightarrow> spare_slot s \<and> free_number dev sb n s \<and> (\<forall>q. slot q \<longrightarrow> key_at s q \<noteq> (dev, of_nat n))"

definition new_entry :: "fsys \<Rightarrow> ptr \<Rightarrow> nat \<Rightarrow> u8 list \<Rightarrow> int \<Rightarrow> ptr \<Rightarrow> nat \<Rightarrow> ptr \<Rightarrow> fsys \<Rightarrow> bool" where
  "new_entry s p j name len sb n q t \<longleftrightarrow>
     (let i = inode_list s p; dev = ucast (i_dev i); buf = entry_buf s p j
      in slot q \<and> i_count (inode_list s q) = 0 \<and>
         inode_list t = (inode_list s)(p := extended j i, q := (fresh_inode dev (of_nat n))\<lparr>i_nlinks := 1, i_dirt := 1\<rparr>) \<and>
         super_block_list t = super_block_list s \<and> evolved [] (cache (krn s)) (cache (krn t)) \<and>
         (\<forall>b. b \<noteq> imap_buf sb n s \<longrightarrow> data_of t b = (if b = buf
            then write_entry (entry_offset j) (of_nat n) name len (data_of s buf) else data_of s b)))"

lemma can_create_later:
  assumes "can_create s dev sb n" "super_block_list t = super_block_list s" "last_inode t = last_inode s"
    and "\<forall>q. key_at t q = key_at s q \<and> i_count (inode_list t q) = i_count (inode_list s q)"
    and "\<forall>q. i_count (inode_list s q) = 0 \<longrightarrow> i_dirt (inode_list t q) = i_dirt (inode_list s q)"
    and "\<forall>k < unat (s_imap_blocks (super_block_list s sb)). data_of t (s_imap (super_block_list s sb) k) = data_of s (s_imap (super_block_list s sb) k)"
  shows "can_create t dev sb n"
proof -
  let ?b = "super_block_list s sb"
  have m: "marked (s_imap ?b) t k = marked (s_imap ?b) s k" if "k < unat (s_imap_blocks ?b) * 8192" for k
  proof -
    have "k div 8192 < unat (s_imap_blocks ?b)" using that by (simp add: less_mult_imp_div_less)
    then show ?thesis using assms(6) by (simp add: marked_def)
  qed
  have f: "free_number dev sb n s" using assms(1) by (simp add: can_create_def)
  then have "n < unat (s_imap_blocks ?b) * 8192" by (simp add: free_number_def Let_def)
  then have "marked (s_imap ?b) t k = marked (s_imap ?b) s k" if "k \<le> n" for k using m that by simp
  then have "free_number dev sb n t" using f by (simp add: free_number_def Let_def assms(2) super_at_def)
  moreover have "spare_slot t" using assms by (auto simp: can_create_def spare_slot_def)
  moreover have "\<forall>q. slot q \<longrightarrow> key_at t q \<noteq> (dev, of_nat n)" using assms(1,4) by (simp add: can_create_def)
  ultimately show ?thesis by (simp add: can_create_def)
qed

lemma create_entry_there:
  fixes s :: fsys and p :: ptr
  defines "i \<equiv> inode_list s p"
  defines "dev \<equiv> ucast (i_dev i)"
  assumes d: "dir_there s p (Suc j)" and h: "holding (entry_buf s p j) s t" and un: "unused s p j" and cnt: "i_count i \<noteq> 0"
    and cc: "can_create s dev sb n" and sep: "\<forall>k < unat (s_imap_blocks (super_block_list s sb)). s_imap (super_block_list s sb) k \<noteq> entry_buf s p j"
  shows "\<exists>q u. create_entry p j (entry_offset j) (entry_buf s p j) name len t = Inr (Some q, u) \<and> new_entry s p j name len sb n q u"
proof -
  let ?buf = "entry_buf s p j" and ?off = "entry_offset j" and ?zone = "i_zone i"
  let ?img = "block_image (krn s) dev"
  note H = holding_fields [OF h]
  have m: "in_memory (krn s) dev (entry_block ?img ?zone j)" using d unfolding dir_there_def Let_def i_def dev_def by blast
  have buf: "?buf = buf_of (krn s) dev (entry_block ?img ?zone j)" by (simp add: entry_buf_def Let_def i_def dev_def)
  have bn: "?buf \<noteq> NULL" using in_memoryD(5) [OF m] buf by simp
  have dt: "data_of t = data_of s" using H(3) by (simp add: data_of_def fun_eq_iff)
  have db: "data_of s ?buf = ?img (entry_block ?img ?zone j)" using in_memoryD(8) [OF m] buf by (simp add: data_of_def)
  have tt: "super_block_list t = super_block_list s" "inode_list t = inode_list s" "last_inode t = last_inode s"
    using h by (simp_all add: holding_def same_tables_def)
  let ?ext = "i_size i \<le> of_nat (j * 32)"
  define m1 where "m1 = (if ?ext then store16 ?off 0 (data_of s ?buf) else data_of s ?buf)"
  define t1 where "t1 = t\<lparr>inode_list := (inode_list s)(p := extended j i),
    krn := (krn t)\<lparr>cache := (cache (krn t))\<lparr>bdata := (data_of s)(?buf := m1)\<rparr>\<rparr>\<rparr>"
  have e1: "evolved [?buf] (cache (krn s)) (cache (krn t1))"
    using h unfolding t1_def holding_def by (simp add: evolved_def held_def upd_bh_def refs_def)
  have d1: "data_of t1 = (data_of s)(?buf := m1)" by (simp add: data_of_def fun_eq_iff t1_def)
  have t1f: "inode_list t1 = (inode_list s)(p := extended j i)" "super_block_list t1 = super_block_list s" "last_inode t1 = last_inode s"
    by (simp_all add: t1_def tt)
  have cc1: "can_create t1 dev sb n"
    using sep cnt by (intro can_create_later [OF cc]) (auto simp: t1f d1 inode_key_def i_def)
  have st1: "iff_do ?ext (fbind (upd_data ?buf (store16 ?off 0)) (\<lambda>_.
        upd_inode p (\<lambda>i'. i'\<lparr>i_size := of_nat ((j + 1) * 32), i_dirt := 1\<rparr>))) t = Inr ((), t1)"
  proof (cases ?ext)
    case True
    have "bdata (cache (krn t)) = data_of s" using dt by (simp add: data_of_def fun_eq_iff)
    then show ?thesis using True bn
      by (simp add: upd_data_def t1_def m1_def extended_def tt i_def [symmetric] del: of_nat_mult of_nat_Suc)
  next
    case False
    have "bdata (cache (krn t)) = data_of s" using dt by (simp add: data_of_def fun_eq_iff)
    then have "(data_of s)(?buf := m1) = bdata (cache (krn t))" "(inode_list s)(p := extended j i) = inode_list t"
      using False by (simp_all add: m1_def extended_def tt i_def)
    then have "t1 = t" by (simp add: t1_def)
    then show ?thesis using False by simp
  qed
  have "load16 m1 ?off = 0"
    using un unfolding m1_def unused_def Let_def by (auto simp: load_store16 db entry_inode_def i_def dev_def)
  moreover have b1: "bdata (cache (krn t1)) ?buf = m1" by (simp add: t1_def)
  ultimately have get: "get_data ?buf (\<lambda>m. load16 m ?off) t1 = Inr (0, t1)"
    using bn b1 by (simp add: get_data_def)
  obtain q t2 where q: "create_inode dev t1 = Inr (q, t2)" "slot q" "i_count (inode_list t1 q) = 0"
    "inode_list t2 = (inode_list t1)(q := (fresh_inode dev (of_nat n))\<lparr>i_nlinks := 1, i_dirt := 1\<rparr>)"
    "super_block_list t2 = super_block_list t1" "evolved [] (cache (krn t1)) (cache (krn t2))"
    "data_of t2 = (data_of t1)(imap_buf sb n t1 := snd (btsl (n mod 8192) (data_of t1 (imap_buf sb n t1))))"
    using create_inode_fresh [of t1 dev sb n] cc1 unfolding can_create_def by blast
  have qp: "q \<noteq> p" using q(3) cnt by (auto simp: t1_def)
  have qn: "q \<noteq> NULL" using q(2) by (simp add: slot_def)
  have ib: "imap_buf sb n t1 = imap_buf sb n s" by (simp add: imap_buf_def t1_def tt)
  have "n div 8192 < unat (s_imap_blocks (super_block_list s sb))"
    using cc by (simp add: can_create_def free_number_def Let_def less_mult_imp_div_less)
  then have ibuf: "imap_buf sb n s \<noteq> ?buf" using sep by (simp add: imap_buf_def)
  have d2: "data_of t2 ?buf = m1" using q(7) ibuf d1 by (simp add: ib)
  define m2 where "m2 = write_entry ?off (of_nat n) name len m1"
  define t3 where "t3 = t2\<lparr>krn := upd_bh ?buf (\<lambda>b. b\<lparr>b_dirt := 1\<rparr>)
     ((krn t2)\<lparr>cache := (cache (krn t2))\<lparr>bdata := (bdata (cache (krn t2)))(?buf := m2)\<rparr>\<rparr>)\<rparr>"
  have e3: "evolved [?buf] (cache (krn s)) (cache (krn t3))"
    unfolding t3_def upd_bh_def using evolved_trans [OF e1 q(6)] by (simp add: evolved_dirty)
  obtain u where u: "kproc (put_buff ?buf) t3 = Inr ((), u)" "evolved [] (cache (krn s)) (cache (krn u))"
    "data_of u = data_of t3" "same_tables t3 u"
    using put_evolved [OF m, of t3] e3 unfolding buf by blast
  have num: "(ucast (of_nat n :: u32) :: u16) = of_nat n"
    by (rule bit_word_eqI) (simp add: bit_simps)
  have b2: "bdata (cache (krn t2)) ?buf = m1" using d2 by (simp add: data_of_def)
  have w1: "upd_inode q (\<lambda>i. i\<lparr>i_dirt := 1\<rparr>) t2 = Inr ((), t2)"
    by (simp add: q(4))
  have w2: "bnd (upd_data ?buf (write_entry ?off (i_num (inode_list t2 q)) name len) t2)
      (\<lambda>r. bnd (upd_head ?buf (\<lambda>b. b\<lparr>b_dirt := 1\<rparr>) (snd r)) (\<lambda>r. f r)) = f ((), t3)" for f :: "unit \<times> fsys \<Rightarrow> (ptr option \<times> fsys) kres"
    using bn b2 by (simp add: upd_data_def upd_head_def t3_def m2_def q(4) fresh_inode_def num)
  have "create_entry p j ?off ?buf name len t = Inr (Some q, u)"
    unfolding create_entry_def fsm_simps(3,4) tt(2) bnd_Inr fst_conv snd_conv id_apply i_def [symmetric] dev_def [symmetric] st1 get q(1)
      if_not_P [OF qn] w1 w2 u(1) fsm_if by simp
  moreover have "new_entry s p j name len sb n q u"
  proof -
    have m2': "m2 = write_entry ?off (of_nat n) name len (data_of s ?buf)"
      by (simp add: m2_def m1_def write_entry_again)
    have dat: "data_of t3 b = (if b = ?buf then m2 else data_of s b)" if "b \<noteq> imap_buf sb n s" for b
    proof (cases "b = ?buf")
      case True
      then show ?thesis by (simp add: t3_def data_of_def upd_bh_def)
    next
      case False
      then have "data_of t3 b = data_of t2 b" by (simp add: t3_def data_of_def upd_bh_def)
      then show ?thesis using False that by (simp add: q(7) ib d1)
    qed
    have tab: "inode_list u = inode_list t2" "super_block_list u = super_block_list t2"
      using u(4) by (simp_all add: same_tables_def t3_def)
    have ct: "i_count (inode_list s q) = 0" using q(3) qp by (simp add: t1f)
    show ?thesis
      unfolding new_entry_def Let_def i_def [symmetric] dev_def [symmetric]
      using q(2) ct u(2) dat m2' by (simp add: tab q(4,5) t1f u(3))
  qed
  ultimately show ?thesis by blast
qed

section \<open>The directory afterwards\<close>

lemma file_map_cong:
  assumes "\<forall>z \<in> tables_of img zone b. img' z = img z"
  shows "file_block img' zone b = file_block img zone b" "tables_of img' zone b = tables_of img zone b"
  using assms by (auto simp: file_block_def tables_of_def entry_via_def split: if_splits)

text \<open>The blocks that make up entry \<open>k\<close> of the directory in slot \<open>p\<close>: its own and the tables on the way.\<close>

definition entry_blocks :: "fsys \<Rightarrow> ptr \<Rightarrow> nat \<Rightarrow> u32 set" where
  "entry_blocks s p k =
     (let i = inode_list s p; img = block_image (krn s) (ucast (i_dev i))
      in insert (entry_block img (i_zone i) k) (tables_of img (i_zone i) (k div DIR_ENTRIES_PER_BLOCK)))"

text \<open>
  Writing entry \<open>j\<close> or the map of inodes cannot change where the entries are: the block of entry \<open>j\<close> serves once, and
  no block of the map of inodes belongs to the directory.
\<close>

definition dir_apart :: "fsys \<Rightarrow> ptr \<Rightarrow> nat \<Rightarrow> nat \<Rightarrow> ptr \<Rightarrow> bool" where
  "dir_apart s p e j sb \<longleftrightarrow>
     (let i = inode_list s p; dev = ucast (i_dev i); img = block_image (krn s) dev; b = super_block_list s sb
      in \<forall>k<e. entry_block img (i_zone i) j \<notin> tables_of img (i_zone i) (k div DIR_ENTRIES_PER_BLOCK) \<and>
           (entry_block img (i_zone i) k = entry_block img (i_zone i) j \<longrightarrow> k div DIR_ENTRIES_PER_BLOCK = j div DIR_ENTRIES_PER_BLOCK) \<and>
           (\<forall>z \<in> entry_blocks s p k. \<forall>m < unat (s_imap_blocks b). s_imap b m \<noteq> buf_of (krn s) dev z))"

lemma dir_there_mono: "dir_there s p e \<Longrightarrow> k \<le> e \<Longrightarrow> dir_there s p k"
  unfolding dir_there_def Let_def using less_le_trans by blast

lemma dir_thereD:
  assumes "dir_there s p e" "k < e" "z \<in> entry_blocks s p k"
  shows "in_memory (krn s) (ucast (i_dev (inode_list s p))) z"
  using assms unfolding dir_there_def entry_blocks_def Let_def by blast

lemma imap_buf_in: "can_create s dev sb n \<Longrightarrow> \<exists>m < unat (s_imap_blocks (super_block_list s sb)). imap_buf sb n s = s_imap (super_block_list s sb) m"
  unfolding can_create_def free_number_def Let_def imap_buf_def using less_mult_imp_div_less by blast

lemma new_entry_image:
  fixes s t :: fsys and p :: ptr
  defines "i \<equiv> inode_list s p"
  defines "dev \<equiv> ucast (i_dev i)"
  defines "img \<equiv> block_image (krn s) dev"
  assumes new: "new_entry s p j name len sb n q t" and cc: "can_create s dev sb n" and d: "dir_there s p e" and j: "j < e"
    and a: "dir_apart s p e j sb" and k: "k < e" and z: "z \<in> entry_blocks s p k"
  shows "block_image (krn t) dev z =
    (if z = entry_block img (i_zone i) j then write_entry (entry_offset j) (of_nat n) name len (img z) else img z)"
proof -
  let ?zj = "entry_block img (i_zone i) j"
  have mz: "in_memory (krn s) dev z" using dir_thereD [OF d k z] by (simp add: dev_def i_def)
  have mj: "in_memory (krn s) dev ?zj"
    using dir_thereD [OF d j, of ?zj] by (simp add: entry_blocks_def Let_def dev_def i_def img_def)
  have buf: "entry_buf s p j = buf_of (krn s) dev ?zj" by (simp add: entry_buf_def Let_def dev_def i_def img_def)
  have ne: "buf_of (krn s) dev z \<noteq> imap_buf sb n s"
    using a k z imap_buf_in [OF cc] unfolding dir_apart_def Let_def dev_def i_def by metis
  have same: "buf_of (krn s) dev z = buf_of (krn s) dev ?zj \<longleftrightarrow> z = ?zj"
    using in_memoryD(7) [OF mz] in_memoryD(7) [OF mj] by metis
  have e: "evolved [] (cache (krn s)) (cache (krn t))" using new by (simp add: new_entry_def Let_def)
  have "block_image (krn t) dev z = data_of t (buf_of (krn s) dev z)"
    using evolved_in_memory(1) [OF e, of dev z] by (simp add: block_image_def buf_of_def data_of_def)
  also have "\<dots> = (if z = ?zj then write_entry (entry_offset j) (of_nat n) name len (data_of s (entry_buf s p j))
      else data_of s (buf_of (krn s) dev z))"
    using new ne unfolding new_entry_def Let_def by (simp add: buf same)
  also have "\<dots> = (if z = ?zj then write_entry (entry_offset j) (of_nat n) name len (img z) else img z)"
    using in_memoryD(8) [OF mz] in_memoryD(8) [OF mj] by (simp add: buf img_def data_of_def)
  finally show ?thesis .
qed

text \<open>Where the entries are, and the names of those before \<open>j\<close>, have not changed.\<close>

lemma new_entry_dir:
  fixes s t :: fsys and p :: ptr
  defines "i \<equiv> inode_list s p"
  defines "dev \<equiv> ucast (i_dev i)"
  defines "img \<equiv> block_image (krn s) dev" and "img' \<equiv> block_image (krn t) dev"
  assumes new: "new_entry s p j name len sb n q t" and cc: "can_create s dev sb n" and d: "dir_there s p e" and j: "j < e"
    and a: "dir_apart s p e j sb" and cnt: "i_count i \<noteq> 0" and len: "len \<le> NAME_LEN"
  shows "inode_list t p = extended j i" "dir_there t p e" "entry_inode img' (i_zone i) j = of_nat n"
    "entry_matches img' (i_zone i) name len j"
    "k < j \<Longrightarrow> entry_matches img' (i_zone i) name len k = entry_matches img (i_zone i) name len k"
proof -
  let ?zone = "i_zone i"
  have e: "evolved [] (cache (krn s)) (cache (krn t))" using new by (simp add: new_entry_def Let_def)
  show ip: "inode_list t p = extended j i"
    using new cnt by (auto simp: new_entry_def Let_def i_def)
  have image: "img' z = (if z = entry_block img ?zone j then write_entry (entry_offset j) (of_nat n) name len (img z) else img z)"
    if "k < e" "z \<in> entry_blocks s p k" for k z
    using new_entry_image [OF new cc [unfolded dev_def i_def] d j a that] by (simp add: img_def img'_def dev_def i_def)
  have tab: "img' z = img z" if "k < e" "z \<in> tables_of img ?zone (k div 32)" for k z
  proof -
    have "z \<in> entry_blocks s p k" using that by (simp add: entry_blocks_def Let_def img_def dev_def i_def)
    moreover have "z \<noteq> entry_block img ?zone j" using a that unfolding dir_apart_def Let_def img_def dev_def i_def by blast
    ultimately show ?thesis using image [OF that(1)] by simp
  qed
  have place: "entry_block img' ?zone k = entry_block img ?zone k" "tables_of img' ?zone (k div 32) = tables_of img ?zone (k div 32)"
    if "k < e" for k
    using file_map_cong [of img ?zone "k div 32" img'] tab [OF that] by (simp_all add: entry_block_def)
  have D: "k div 32 < 7 + 512 + 512 * 512 \<and> entry_block img ?zone k \<noteq> 0 \<and> in_memory (krn s) dev (entry_block img ?zone k) \<and>
      (\<forall>z \<in> tables_of img ?zone (k div 32). in_memory (krn s) dev z)" if "k < e" for k
    using d that unfolding dir_there_def Let_def img_def dev_def i_def by blast
  show "dir_there t p e"
    unfolding dir_there_def Let_def ip extended_fields dev_def [symmetric] img'_def [symmetric]
    using D by (simp add: place evolved_in_memory(2) [OF e])
  have here: "img' (entry_block img' ?zone k) = (if entry_block img ?zone k = entry_block img ?zone j
      then write_entry (entry_offset j) (of_nat n) name len (img (entry_block img ?zone k)) else img (entry_block img ?zone k))"
    if "k < e" for k
    using image [OF that, of "entry_block img ?zone k"] place(1) [OF that]
    by (simp add: entry_blocks_def Let_def img_def dev_def i_def)
  show "entry_inode img' ?zone j = of_nat n" using here [OF j] by (simp add: entry_inode_def write_entry_inode)
  show "entry_matches img' ?zone name len j"
    using here [OF j] len by (auto simp: entry_matches_def write_entry_at)
  show "entry_matches img' ?zone name len k = entry_matches img ?zone name len k" if kj: "k < j"
  proof -
    have ke: "k < e" using kj j by simp
    have off: "32 * (k mod 32) + 2 + x < entry_offset j \<or> entry_offset j + 32 \<le> 32 * (k mod 32) + 2 + x"
      if "entry_block img ?zone k = entry_block img ?zone j" "int x < len" for x
    proof -
      have "k div 32 = j div 32" using a ke that(1) unfolding dir_apart_def Let_def img_def dev_def i_def by blast
      then have "k mod 32 < j mod 32" using kj div_mult_mod_eq [of k 32] div_mult_mod_eq [of j 32] by linarith
      then show ?thesis using that(2) len by linarith
    qed
    have "img' (entry_block img' ?zone k) (32 * (k mod 32) + 2 + x) = img (entry_block img ?zone k) (32 * (k mod 32) + 2 + x)"
      if "x < nat len" for x
    proof (cases "entry_block img ?zone k = entry_block img ?zone j")
      case True
      then show ?thesis unfolding here [OF ke] if_P [OF True] by (intro write_entry_frame off) (use that in simp_all)
    qed (simp add: here [OF ke])
    then show ?thesis by (simp add: entry_matches_def)
  qed
qed

section \<open>Create, then look up\<close>

lemma create_inode_by_name_there:
  fixes s :: fsys and p :: ptr
  defines "i \<equiv> inode_list s p"
  assumes c: "cache_inv (cache (krn s))" and d: "dir_there s p e" and j: "j < e" and cnt: "i_count i \<noteq> 0"
    and un: "unused s p j" "\<forall>k<j. \<not> unused s p k" and len: "0 < namelen"
    and cc: "can_create s (ucast (i_dev i)) sb n" and a: "dir_apart s p e j sb"
  shows "\<exists>q t. create_inode_by_name p name namelen s = Inr (q, t) \<and> new_entry s p j name (name_length namelen) sb n q t"
proof -
  let ?len = "name_length namelen" and ?dev = "ucast (i_dev i) :: u32"
  let ?img = "block_image (krn s) ?dev"
  have l: "0 < ?len" using len by (simp add: name_length_def)
  have dj: "dir_there s p (Suc j)" by (rule dir_there_mono [OF d]) (use j in simp)
  have e0: "entry_block ?img (i_zone i) 0 = ucast (i_zone i 0)" by (simp add: entry_block_def file_block_def)
  have D: "entry_block ?img (i_zone i) 0 \<noteq> 0" "in_memory (krn s) ?dev (entry_block ?img (i_zone i) 0)" "j div 32 < 7 + 512 + 512 * 512"
    using dj unfolding dir_there_def Let_def i_def by blast+
  have z0: "i_zone i 0 \<noteq> 0" using D(1) e0 by auto
  have buf: "entry_buf s p 0 = buf_of (krn s) ?dev (ucast (i_zone i 0))" by (simp add: entry_buf_def Let_def i_def e0 [unfolded i_def])
  obtain u where u: "kcall (read_buff ?dev (ucast (i_zone i 0))) s = Inr (entry_buf s p 0, u)" "holding (entry_buf s p 0) s u"
    using read_there [OF c D(2) same_store_refl] unfolding e0 buf by blast
  have bn: "entry_buf s p 0 \<noteq> NULL" using in_memoryD(5) [OF D(2)] by (simp add: buf e0)
  have addr: "b_data (bh_of (krn u) (entry_buf s p 0)) = b_data (bh_of (krn s) (entry_buf s p 0))" by (rule holding_fields(4) [OF u(2)])
  have sep: "\<forall>k < unat (s_imap_blocks (super_block_list s sb)). s_imap (super_block_list s sb) k \<noteq> entry_buf s p j"
    using a j unfolding dir_apart_def Let_def entry_blocks_def entry_buf_def by blast
  have entry: "\<exists>q v. create_entry p j (entry_offset j) (entry_buf s p j) name ?len t = Inr (Some q, v) \<and> new_entry s p j name ?len sb n q v"
    if "holding (entry_buf s p j) s t" for t
    by (rule create_entry_there [OF dj that un(1) cnt [unfolded i_def] cc [unfolded i_def] sep])
  have fuel: "j < 0 + ((7 + 512 + 512 * 512) * 32 + 1)" using D(3) by (simp add: div_less_iff_less_mult)
  have "scanning s p 0 0 (b_data (bh_of (krn s) (entry_buf s p 0))) u" using u(2) by (simp add: scanning_def)
  then obtain q t where q: "create_scan ((7 + 512 + 512 * 512) * 32 + 1) p 0 (b_data (bh_of (krn s) (entry_buf s p 0))) (entry_buf s p 0) name ?len u = Inr (q, t)"
      "new_entry s p j name ?len sb n q t"
    using create_scan_there [OF c dj un(2) entry le0 fuel] by blast
  have "create_inode_by_name p name namelen s = Inr (q, t)"
    unfolding create_inode_by_name_def Let_def name_length_def [symmetric]
    using l z0 u(1) bn q(1) by (simp add: i_def [symmetric] addr del: create_scan.simps)
  then show ?thesis using q(2) by blast
qed

lemma unat_u32: "k < 2 ^ 32 \<Longrightarrow> unat (of_nat k :: u32) = k"
  by (simp add: unat_of_nat)

text \<open>The number of entries the directory will have.\<close>

lemma extended_entries:
  assumes s: "unat (i_size i) mod 32 = 0" and j: "j < 2 ^ 24"
  shows "unat (i_size (extended j i)) div 32 = max (unat (i_size i) div 32) (j + 1)"
proof -
  have u: "unat (of_nat (j * 32) :: u32) = j * 32" "unat (of_nat ((j + 1) * 32) :: u32) = (j + 1) * 32"
    by (rule unat_u32; use j in simp)+
  show ?thesis
  proof (cases "i_size i \<le> of_nat (j * 32)")
    case True
    then have "unat (i_size i) \<le> j * 32" using u(1) by (simp add: word_le_nat_alt)
    then have "unat (i_size i) div 32 \<le> j" by linarith
    then show ?thesis using True u(2) by (simp add: extended_def del: of_nat_mult of_nat_Suc of_nat_add)
  next
    case False
    then have "j * 32 < unat (i_size i)" using u(1) by (simp add: word_le_nat_alt not_le)
    then have "j + 1 \<le> unat (i_size i) div 32" using s by (auto elim!: dvdE simp: mod_eq_0_iff_dvd)
    then show ?thesis using False by (simp add: extended_def)
  qed
qed

lemma find_first: "P j \<Longrightarrow> j < n \<Longrightarrow> \<forall>k<j. \<not> P k \<Longrightarrow> List.find P [0..<n] = Some j"
  by (auto simp: find_Some_iff intro!: exI [of _ j])

theorem created_then_found:
  fixes s :: fsys and p :: ptr and name :: "u8 list" and namelen :: int and j :: nat
  defines "i \<equiv> inode_list s p" and "len \<equiv> name_length namelen"
  defines "e \<equiv> max (unat (i_size i) div 32) (j + 1)"
  assumes c: "cache_inv (cache (krn s))" and d: "dir_there s p e" and cnt: "i_count i \<noteq> 0"
    and size: "unat (i_size i) mod 32 = 0" and len: "0 < namelen" and stay: "\<not> leaves_device i name len"
    and un: "unused s p j" "\<forall>k<j. \<not> unused s p k \<and> \<not> found_at s p name len k"
    and cc: "can_create s (ucast (i_dev i)) sb n" and a: "dir_apart s p e j sb"
  shows "\<exists>q t u. create_inode_by_name p name namelen s = Inr (q, t) \<and> i_count (inode_list s q) = 0 \<and>
    retain_inode_by_name p name namelen t = Inr ((q, p), u) \<and>
    inode_list u q = (fresh_inode (ucast (i_dev i)) (of_nat n))\<lparr>i_nlinks := 1, i_dirt := 1, i_count := 2\<rparr>"
proof -
  let ?dev = "ucast (i_dev i) :: u32"
  have j: "j < e" by (simp add: e_def)
  have l: "len \<le> NAME_LEN" by (simp add: len_def name_length_def)
  obtain q t where q: "create_inode_by_name p name namelen s = Inr (q, t)" "new_entry s p j name len sb n q t"
    using create_inode_by_name_there [OF c d j cnt [unfolded i_def] un(1) _ len cc [unfolded i_def] a] un(2) unfolding len_def by blast
  note N = new_entry_dir [OF q(2) cc [unfolded i_def] d j a cnt [unfolded i_def] l, folded i_def]
  have ev: "evolved [] (cache (krn s)) (cache (krn t))" using q(2) by (simp add: new_entry_def Let_def)
  have "j div 32 < 7 + 512 + 512 * 512" using d j unfolding dir_there_def Let_def by blast
  then have "j < 2 ^ 24" by simp
  then have ent: "unat (i_size (extended j i)) div 32 = e" unfolding e_def by (rule extended_entries [OF size])
  have "dir_find (block_image (krn t) ?dev) (i_zone i) name len e = Some j"
    unfolding dir_find_def by (rule find_first) (use N(4,5) un(2) j in \<open>auto simp: found_at_def i_def Let_def\<close>)
  then obtain v where v: "same_store t v" "retain_inode_by_name p name namelen t =
      bnd (read_inode ?dev (ucast (of_nat n :: u16)) v) (\<lambda>r. Inr ((fst r, p), snd r))"
    using retain_inode_by_name_there [of t p namelen name, unfolded N(1) extended_fields ent len_def [symmetric], OF evolved_inv [OF ev c] N(2) _ len]
      j stay N(3) by (auto simp: leaves_device_def)
  have F: "?dev \<noteq> 0" "n < 2 ^ 16"
  proof -
    show "?dev \<noteq> 0" using cc by (simp add: can_create_def free_number_def super_at_def)
    have "n \<le> unat (s_ninodes (super_block_list s sb))" using cc by (simp add: can_create_def free_number_def Let_def)
    then show "n < 2 ^ 16" using unat_u16_bound by (simp add: le_less_trans)
  qed
  have n: "ucast (of_nat n :: u16) = (of_nat n :: u32)" "ucast (ucast (of_nat n :: u32) :: u16) = (of_nat n :: u32)"
    using F(2) by (simp_all add: unsigned_of_nat take_bit_nat_eq_self)
  have Q: "slot q" "i_count (inode_list s q) = 0" "inode_list v q = (fresh_inode ?dev (of_nat n))\<lparr>i_nlinks := 1, i_dirt := 1\<rparr>"
    "\<And>r. r \<noteq> q \<Longrightarrow> key_at v r = key_at s r"
    using q(2) v(1) by (auto simp: new_entry_def Let_def same_store_def same_tables_def i_def inode_key_def)
  have kq: "key_at v q = (?dev, of_nat n)"
  proof -
    have "ucast (ucast ?dev :: u16) = ?dev" by (rule bit_word_eqI) (auto simp: bit_simps dest: bit_imp_le_length)
    then show ?thesis using n(2) by (simp add: Q(3) inode_key_def fresh_inode_def)
  qed
  have "key_at v r \<noteq> (?dev, of_nat n)" if "1 \<le> r" "r < q" for r
    using that Q(1,4) cc by (simp add: can_create_def slot_def)
  then have "cached_at ?dev (of_nat n) q v"
    using Q(1) F(1) kq by (simp add: cached_at_def) (simp add: Q(3) fresh_inode_def zero_inode_def)
  then obtain u where "read_inode ?dev (of_nat n) v = Inr (q, u)" "more_used q v u"
    using read_inode_hit [of ?dev "of_nat n" q v] Q(3) by (auto simp: fresh_inode_def)
  then have "retain_inode_by_name p name namelen t = Inr ((q, p), u)"
    "inode_list u q = (fresh_inode ?dev (of_nat n))\<lparr>i_nlinks := 1, i_dirt := 1, i_count := 2\<rparr>"
    using v(2) by (simp_all add: n more_used_def Q(3) fresh_inode_def)
  then show ?thesis using q(1) Q(2) by blast
qed

end
