(* ===== verification/Inode_Sync.thy ===== *)
theory Inode_Sync
  imports Inode_Create
begin

text \<open>
  Inodes on a mounted device whose blocks of inodes are in memory: what is written back for one inode is what is
  read for it afterwards, and nothing of another inode.
\<close>

section \<open>The place of an inode\<close>

text \<open>Different inodes of a device have different places.\<close>

lemma inode_place:
  assumes "inode_block b i = inode_block b j" "i_num i \<noteq> i_num j"
  shows "inode_offset i + 32 \<le> inode_offset j \<or> inode_offset j + 32 \<le> inode_offset i"
proof -
  let ?m = "ucast (i_num i) - 1 :: u32" and ?n = "ucast (i_num j) - 1 :: u32"
  have "?m div 32 = ?n div 32" using assms(1) by (simp add: inode_block_def)
  then have "unat (?m div 32) = unat (?n div 32)" by simp
  then have d: "unat ?m div 32 = unat ?n div 32" by (simp only: unat_div_distrib unat_numeral) simp
  have "?m \<noteq> ?n"
  proof
    assume "?m = ?n"
    then have "ucast (i_num i) = (ucast (i_num j) :: u32)" by simp
    then show False using assms(2) by (simp add: ucast_u32_inj)
  qed
  then have "unat ?m mod 32 \<noteq> unat ?n mod 32" using d div_mult_mod_eq [of "unat ?m" 32] div_mult_mod_eq [of "unat ?n" 32]
    by (metis word_unat_eq_iff)
  then show ?thesis unfolding inode_offset_def by linarith
qed

lemma decode_cong: "(\<And>x. off \<le> x \<Longrightarrow> x < off + 32 \<Longrightarrow> m x = m' x) \<Longrightarrow> decode_inode off m i = decode_inode off m' i"
  unfolding decode_inode_def by (intro m_inode.equality) (auto simp: fun_eq_iff intro!: load16_cong load32_cong)

text \<open>Inode \<open>i\<close> belongs to a mounted device, and its block is in memory.\<close>

definition inode_there :: "fsys \<Rightarrow> ptr \<Rightarrow> m_inode \<Rightarrow> bool" where
  "inode_there s sb i \<longleftrightarrow> super_at (ucast (i_dev i)) sb s \<and> i_lock i = 0 \<and>
     in_memory (krn s) (ucast (i_dev i)) (inode_block (super_block_list s sb) i)"

definition inode_buf :: "fsys \<Rightarrow> ptr \<Rightarrow> m_inode \<Rightarrow> ptr" where
  "inode_buf s sb i = buf_of (krn s) (ucast (i_dev i)) (inode_block (super_block_list s sb) i)"

text \<open>The disk fields the buffers hold for an inode.\<close>

definition stored :: "fsys \<Rightarrow> ptr \<Rightarrow> m_inode \<Rightarrow> m_inode" where
  "stored s sb i = decode_inode (inode_offset i) (block_image (krn s) (ucast (i_dev i)) (inode_block (super_block_list s sb) i)) i"

section \<open>Writing back and reading\<close>

lemma read_buff_quiet:
  assumes c: "cache_inv (cache k)" and m: "in_memory k dev z" and l: "cache l = cache k"
  shows "read_buff dev z l = Inr (buf_of k dev z, held (buf_of k dev z) (cli l))"
  using read_buff_in_memory [of l dev z] assms in_memory_cong [OF l] by simp

lemma sync_inode_there:
  assumes c: "cache_inv (cache (krn s))" and th: "inode_there s sb (inode_list s p)" and dirty: "i_dirt (inode_list s p) \<noteq> 0"
  defines "i \<equiv> inode_list s p"
  shows "\<exists>t. sync_inode_to_buff p s = Inr ((), t) \<and> inode_list t = (inode_list s)(p := i\<lparr>i_dirt := 0\<rparr>) \<and>
    super_block_list t = super_block_list s \<and> evolved [] (cache (krn s)) (cache (krn t)) \<and>
    data_of t = (data_of s)(inode_buf s sb i := encode_inode (inode_offset i) i (data_of s (inode_buf s sb i)))"
proof -
  let ?dev = "ucast (i_dev i) :: u32" and ?b = "super_block_list s sb" and ?p = "inode_buf s sb i"
  let ?z = "inode_block ?b i"
  have T: "super_at ?dev sb s" "i_lock i = 0" "in_memory (krn s) ?dev ?z" using th by (simp_all add: inode_there_def i_def)
  define s1 where "s1 = s\<lparr>krn := cli (sti (cli (printk (''debug_fs:sync inode[0x%x:0x%x]'' @ NL) [ArgI ?dev, ArgI (ucast (i_num i))] (krn s))))\<rparr>"
  have s1: "cache (krn s1) = cache (krn s)" "inode_list s1 = inode_list s" "super_block_list s1 = super_block_list s"
    by (simp_all add: s1_def cli_def sti_def printk_def)
  have rd: "read_buff ?dev ?z (krn s1) = Inr (?p, held ?p (cli (krn s1)))"
    unfolding inode_buf_def by (rule read_buff_quiet [OF c T(3) s1(1)])
  have bn: "?p \<noteq> NULL" using in_memoryD(5) [OF T(3)] by (simp add: inode_buf_def)
  define t1 where "t1 = s\<lparr>krn := upd_bh ?p (\<lambda>b. b\<lparr>b_dirt := 1\<rparr>)
     ((held ?p (cli (krn s1)))\<lparr>cache := (cache (held ?p (cli (krn s1))))\<lparr>bdata :=
        (bdata (cache (krn s)))(?p := encode_inode (inode_offset i) i (bdata (cache (krn s)) ?p))\<rparr>\<rparr>),
     inode_list := (inode_list s)(p := i\<lparr>i_dirt := 0\<rparr>)\<rparr>"
  have hc: "cache (held ?p (cli (krn s1))) = refs [?p] (cache (krn s))"
    by (simp add: held_def upd_bh_def refs_def s1(1))
  have ev: "evolved [?p] (cache (krn s)) (cache (krn t1))"
    unfolding t1_def upd_bh_def by (simp add: hc evolved_dirty) (simp add: evolved_def)
  obtain u where u: "kproc (put_buff ?p) t1 = Inr ((), u)" "evolved [] (cache (krn s)) (cache (krn u))"
    "data_of u = data_of t1" "same_tables t1 u"
    using put_evolved [OF T(3), of t1] ev unfolding inode_buf_def by blast
  have d1: "data_of t1 = (data_of s)(?p := encode_inode (inode_offset i) i (data_of s ?p))"
    by (simp add: t1_def data_of_def fun_eq_iff upd_bh_def)
  have il: "inode_list u = (inode_list s)(p := i\<lparr>i_dirt := 0\<rparr>)" "super_block_list u = super_block_list s"
    using u(4) by (simp_all add: same_tables_def t1_def)
  define s0 where "s0 = s\<lparr>krn := printk (''debug_fs:sync inode[0x%x:0x%x]'' @ NL) [ArgI ?dev, ArgI (ucast (i_num i))] (krn s)\<rparr>"
  define s2 where "s2 = s\<lparr>krn := held ?p (cli (krn s1))\<rparr>"
  have w0: "debug2 (''debug_fs:sync inode[0x%x:0x%x]'' @ NL) ?dev (ucast (i_num i)) s = Inr ((), s0)"
    by (simp add: fprintk_def s0_def)
  have w1: "lock_inode p s0 = Inr ((), s0\<lparr>krn := sti (cli (krn s0))\<rparr>)"
    using T(2) by (simp add: lock_inode_run s0_def i_def)
  have w2: "find_super ?dev (s0\<lparr>krn := sti (cli (krn s0))\<rparr>) = Inr (sb, s1)"
    using find_super_at [of ?dev sb "s0\<lparr>krn := sti (cli (krn s0))\<rparr>"] T(1) by (simp add: super_at_def s0_def s1_def)
  have w3: "kcall (read_buff ?dev ?z) s1 = Inr (?p, s2)"
    by (simp add: kcall_def rd s2_def) (simp add: s1_def)
  have w4: "bnd (upd_data ?p (encode_inode (inode_offset i) i) s2) (\<lambda>r.
      bnd (upd_head ?p (\<lambda>b. b\<lparr>b_dirt := 1\<rparr>) (snd r)) (\<lambda>r.
      bnd (upd_inode p (\<lambda>i. i\<lparr>i_dirt := 0\<rparr>) (snd r)) (\<lambda>r. f r))) = f ((), t1)" for f :: "unit \<times> fsys \<Rightarrow> (unit \<times> fsys) kres"
    using bn by (simp add: upd_data_def upd_head_def s2_def t1_def i_def s1(1) held_def upd_bh_def)
  have w5: "unlock_inode p u = Inr ((), u)"
  proof -
    have "i\<lparr>i_dirt := 0, i_lock := 0\<rparr> = i\<lparr>i_dirt := 0\<rparr>" using T(2) by (cases i) simp
    then have "(inode_list u)(p := (inode_list u p)\<lparr>i_lock := 0\<rparr>) = inode_list u" by (simp add: il)
    then show ?thesis by (simp add: unlock_inode_def)
  qed
  have nz: "sb \<noteq> NULL" "i_dirt i \<noteq> 0" "i_dev i \<noteq> 0"
    using T(1) dirty by (auto simp: super_at_def i_def)
  have "sync_inode_to_buff p s = Inr ((), u)"
    unfolding sync_inode_to_buff_def fsm_simps(3,4) bnd_Inr fst_conv snd_conv id_apply i_def [symmetric] w0 w1 fsm_if
    using nz by (simp only: w2 w3 w4 w5 u(1) bnd_Inr fst_conv snd_conv fsm_if fsm_simps(3,4) id_apply simp_thms if_False s1(3) bn)
  then show ?thesis using u(2,3) d1 il by auto
qed

lemma read_inode_there:
  assumes c: "cache_inv (cache (krn s))" and th: "inode_there s sb (inode_list s p)"
  shows "\<exists>t. read_inode_from_buff p s = Inr ((), t) \<and> inode_list t = (inode_list s)(p := stored s sb (inode_list s p)) \<and>
    super_block_list t = super_block_list s \<and> cache (krn t) = cache (krn s)"
proof -
  define i where "i = inode_list s p"
  let ?dev = "ucast (i_dev i) :: u32" and ?b = "super_block_list s sb" and ?p = "inode_buf s sb i"
  let ?z = "inode_block ?b i"
  have T: "super_at ?dev sb s" "i_lock i = 0" "in_memory (krn s) ?dev ?z" using th by (simp_all add: inode_there_def i_def)
  define s1 where "s1 = s\<lparr>krn := cli (sti (cli (krn s)))\<rparr>"
  have s1: "cache (krn s1) = cache (krn s)" "inode_list s1 = inode_list s" "super_block_list s1 = super_block_list s"
    by (simp_all add: s1_def cli_def sti_def)
  have rd: "read_buff ?dev ?z (krn s1) = Inr (?p, held ?p (cli (krn s1)))"
    unfolding inode_buf_def by (rule read_buff_quiet [OF c T(3) s1(1)])
  have M: "b_lock (bh_of (krn s1) ?p) = 0" "b_count (bh_of (krn s1) ?p) \<noteq> 255" "?p \<noteq> NULL"
    "bdata (cache (krn s)) ?p = block_image (krn s) ?dev ?z"
    using in_memoryD [OF T(3)] by (simp_all add: inode_buf_def s1(1))
  define s2 where "s2 = s\<lparr>krn := held ?p (cli (krn s1))\<rparr>"
  define s3 where "s3 = s2\<lparr>inode_list := (inode_list s)(p := stored s sb i)\<rparr>"
  define u where "u = s3\<lparr>krn := cli (krn s1)\<rparr>"
  have w1: "lock_inode p s = Inr ((), s\<lparr>krn := sti (cli (krn s))\<rparr>)"
    using T(2) by (simp add: lock_inode_run i_def)
  have w2: "find_super ?dev (s\<lparr>krn := sti (cli (krn s))\<rparr>) = Inr (sb, s1)"
    using find_super_at [of ?dev sb "s\<lparr>krn := sti (cli (krn s))\<rparr>"] T(1) by (simp add: super_at_def s1_def)
  have w3: "kcall (read_buff ?dev ?z) s1 = Inr (?p, s2)"
    by (simp add: kcall_def rd s2_def) (simp add: s1_def)
  have w4: "get_data ?p (decode_inode (inode_offset i)) s2 = Inr (decode_inode (inode_offset i) (block_image (krn s) ?dev ?z), s2)"
    using M by (simp add: get_data_def s2_def held_def upd_bh_def upd_buf_def s1(1))
  have w5: "upd_inode p (decode_inode (inode_offset i) (block_image (krn s) ?dev ?z)) s2 = Inr ((), s3)"
    by (simp add: s3_def s2_def stored_def i_def)
  have w6: "kproc (put_buff ?p) s3 = Inr ((), u)"
    using put_buff_again [of ?p "cli (krn s1)"] M by (simp add: kproc_def s3_def s2_def u_def)
  have w7: "unlock_inode p u = Inr ((), u)"
  proof -
    have "(stored s sb i)\<lparr>i_lock := 0\<rparr> = stored s sb i" using T(2) by (cases i) (simp add: stored_def decode_inode_def)
    then have "(inode_list u)(p := (inode_list u p)\<lparr>i_lock := 0\<rparr>) = inode_list u" by (simp add: u_def s3_def)
    then show ?thesis by (simp add: unlock_inode_def)
  qed
  have nz: "sb \<noteq> NULL" using T(1) by (auto simp: super_at_def)
  have "read_inode_from_buff p s = Inr ((), u)"
    unfolding read_inode_from_buff_def fsm_simps(3,4) bnd_Inr fst_conv snd_conv id_apply w1
    using nz M(3) by (simp add: i_def [symmetric] w2 s1 w3 w4 w5 w6 w7 del: fsm_simps(7))
  moreover have "inode_list u = (inode_list s)(p := stored s sb i)" "super_block_list u = super_block_list s" "cache (krn u) = cache (krn s)"
    by (simp_all add: u_def s3_def s2_def s1)
  ultimately show ?thesis unfolding i_def by blast
qed

section \<open>Write, then read\<close>

text \<open>After inode \<open>i\<close> has been written, the bytes in its block are its encoding and, elsewhere, what they were.\<close>

lemma synced_image:
  fixes s t :: fsys and sb :: ptr and i :: m_inode
  defines "dev \<equiv> ucast (i_dev i) :: u32"
  assumes e: "evolved [] (cache (krn s)) (cache (krn t))"
    and d: "data_of t = (data_of s)(inode_buf s sb i := encode_inode (inode_offset i) i (data_of s (inode_buf s sb i)))"
    and th: "inode_there s sb i" and m: "in_memory (krn s) dev z"
  shows "block_image (krn t) dev z = (if z = inode_block (super_block_list s sb) i
    then encode_inode (inode_offset i) i (block_image (krn s) dev z) else block_image (krn s) dev z)"
proof -
  let ?z = "inode_block (super_block_list s sb) i"
  have mi: "in_memory (krn s) dev ?z" using th by (simp add: inode_there_def dev_def)
  have same: "buf_of (krn s) dev z = inode_buf s sb i \<longleftrightarrow> z = ?z"
    using in_memoryD(7) [OF m] in_memoryD(7) [OF mi] unfolding inode_buf_def dev_def [symmetric] by metis
  have "block_image (krn t) dev z = data_of t (buf_of (krn s) dev z)"
    using evolved_in_memory(1) [OF e, of dev z] by (simp add: block_image_def buf_of_def data_of_def)
  then show ?thesis
    using in_memoryD(8) [OF m] in_memoryD(8) [OF mi] by (auto simp: d same) (simp add: data_of_def inode_buf_def dev_def)+
qed

lemma synced_then_read:
  fixes s :: fsys and p q :: ptr
  defines "i \<equiv> inode_list s p" and "j \<equiv> inode_list s q"
  assumes c: "cache_inv (cache (krn s))" and th: "inode_there s sb i" and dirty: "i_dirt i \<noteq> 0" and pq: "q \<noteq> p"
    and j: "i_dev j = i_dev i" "i_num j = i_num i" "i_lock j = 0"
  shows "\<exists>t u. sync_inode_to_buff p s = Inr ((), t) \<and> inode_list t = (inode_list s)(p := i\<lparr>i_dirt := 0\<rparr>) \<and>
    read_inode_from_buff q t = Inr ((), u) \<and>
    inode_list u q = j\<lparr>i_mode := i_mode i, i_uid := i_uid i, i_size := i_size i, i_mtime := i_mtime i, i_gid := i_gid i,
       i_nlinks := i_nlinks i, i_zone := (\<lambda>z. if z < 9 then i_zone i z else i_zone j z)\<rparr> \<and>
    (\<forall>k. inode_there s sb k \<and> i_dev k = i_dev i \<and> i_num k \<noteq> i_num i \<longrightarrow> stored t sb k = stored s sb k)"
proof -
  let ?dev = "ucast (i_dev i) :: u32" and ?b = "super_block_list s sb"
  obtain t where t: "sync_inode_to_buff p s = Inr ((), t)" "inode_list t = (inode_list s)(p := i\<lparr>i_dirt := 0\<rparr>)"
    "super_block_list t = super_block_list s" "evolved [] (cache (krn s)) (cache (krn t))"
    "data_of t = (data_of s)(inode_buf s sb i := encode_inode (inode_offset i) i (data_of s (inode_buf s sb i)))"
    using sync_inode_there [OF c th [unfolded i_def] dirty [unfolded i_def]] unfolding i_def by blast
  note image = synced_image [OF t(4,5) th]
  have place: "inode_block ?b j = inode_block ?b i" "inode_offset j = inode_offset i"
    using j(2) by (simp_all add: inode_block_def inode_offset_def)
  have mi: "in_memory (krn s) ?dev (inode_block ?b i)" and at: "super_at ?dev sb s" using th by (simp_all add: inode_there_def)
  have jt: "inode_list t q = j" using pq by (simp add: t(2) j_def)
  have "inode_there t sb j"
    using mi at j evolved_in_memory(2) [OF t(4)] by (simp add: inode_there_def super_at_def t(3) place)
  then obtain u where u: "read_inode_from_buff q t = Inr ((), u)" "inode_list u q = stored t sb j"
    using read_inode_there [OF evolved_inv [OF t(4) c], of sb q] unfolding jt by auto
  have "stored t sb j = decode_inode (inode_offset i) (encode_inode (inode_offset i) i (block_image (krn s) ?dev (inode_block ?b i))) j"
    using image [OF mi] by (simp add: stored_def t(3) place j(1))
  moreover have "stored t sb k = stored s sb k" if k: "inode_there s sb k" "i_dev k = i_dev i" "i_num k \<noteq> i_num i" for k
  proof -
    have mk: "in_memory (krn s) ?dev (inode_block ?b k)" using k by (simp add: inode_there_def)
    have "decode_inode (inode_offset k) (encode_inode (inode_offset i) i m) k = decode_inode (inode_offset k) m k"
      if "inode_block ?b k = inode_block ?b i" for m
    proof (rule decode_cong, rule encode_inode_frame)
      fix x assume "inode_offset k \<le> x" "x < inode_offset k + 32"
      then show "x < inode_offset i \<or> inode_offset i + 32 \<le> x" using inode_place [OF that k(3)] by linarith
    qed
    then show ?thesis using image [OF mk] by (simp add: stored_def t(3) k(2))
  qed
  ultimately show ?thesis using t(1,2) u by (auto simp: decode_encode)
qed

end
