(* ===== verification/Buffer_Safe.thy ===== *)
theory Buffer_Safe
  imports Block_Machine
begin

text \<open>
  The operations of the cache as the file system calls them, with any buffer and any device number of 16 bits: if
  they return, the invariants of the cache and of the driver hold again.
\<close>

lemma kinv_quiet:
  assumes "kinv s" "cache t = cache s" "drv t = drv s"
  shows "kinv t"
proof -
  obtain q where q: "drv_inv {} s q" using assms(1) by (auto simp: kinv_def)
  have "same_queue s t" using assms by (simp add: same_queue_def)
  then have "queue_inv {} t q" using q queue_inv_same [of s t] by (simp add: drv_inv_def)
  then have "drv_inv {} t q" using q assms(2,3) by (simp add: drv_inv_def armed_def geom_ok_def irqs_ok_def)
  moreover have "same_index s t" using assms by (simp add: same_index_def)
  ultimately show ?thesis using kinv_index [OF assms(1)] by blast
qed

lemma kinv_below [simp]:
  "kinv s \<Longrightarrow> kinv (cli s)" "kinv s \<Longrightarrow> kinv (sti s)" "kinv s \<Longrightarrow> kinv (printk fmt as s)" "kinv s \<Longrightarrow> kinv (s\<lparr>hw := h\<rparr>)"
  by (rule kinv_quiet, assumption, simp_all add: cli_def sti_def printk_def)+

section \<open>Waiting\<close>

lemma spin_kinv:
  assumes "kinv s" "spin done body is s = Inr t" and body: "\<And>s. kinv s \<Longrightarrow> kinv (body s)"
  shows "kinv t"
  using assms(1,2)
proof (induction "is" arbitrary: s)
  case (Cons i "is")
  show ?case
  proof (cases "done s")
    case False
    then obtain u where "interrupt i (body s) = Inr u" "spin done body is u = Inr t"
      using Cons.prems(2) by (auto simp: Let_def bnd_eq_Inr split: if_splits)
    then show ?thesis using Cons.IH interrupt_kinv [OF body [OF Cons.prems(1)]] by blast
  qed (use Cons.prems in auto)
qed (auto split: if_splits)

lemma spin_until_kinv: "kinv s \<Longrightarrow> spin_until done sti s = Inr t \<Longrightarrow> kinv t"
  using spin_kinv [of s "done" sti "irqs (hw s)" t] by (simp add: spin_until_def)

lemma wait_on_buff_kinv: "kinv s \<Longrightarrow> wait_on_buff bh s = Inr t \<Longrightarrow> kinv t"
  unfolding wait_on_buff_def by (rule spin_until_kinv [of "cli s"]) simp_all

lemma put_buff_kinv: "kinv s \<Longrightarrow> put_buff bh s = Inr t \<Longrightarrow> kinv t"
  using wait_on_buff_kinv by (auto simp: put_buff_def bnd_eq_Inr split: if_splits intro!: kinv_upd_bh)

lemma retain_buff_kinv: "kinv s \<Longrightarrow> retain_buff dev block s = Inr (bh, t) \<Longrightarrow> kinv t \<and>
    (bh \<noteq> NULL \<longrightarrow> bh \<in> buffers (cache t) \<and> b_lock (bh_of t bh) = 0)"
  using wp_InrD [OF retain_buff_ok, of s dev block "(bh, t)"] cmap_Some_buffers [of "cache s" "(dev, block)"]
  by (auto simp: counted_def buffers_def split: option.splits)

lemma invalidate_buff_kinv:
  assumes "kinv s" "invalidate_buff dev block s = Inr t"
  shows "kinv t"
proof -
  obtain bh u where r: "retain_buff dev block s = Inr (bh, u)" using assms(2) by (auto simp: invalidate_buff_def bnd_eq_Inr)
  then have "kinv u" using retain_buff_kinv [OF assms(1)] by blast
  moreover from this have "kinv (upd_bh bh (\<lambda>b. b\<lparr>b_dirt := 0, b_uptodate := 0\<rparr>) u)" by (rule kinv_upd_bh) simp
  ultimately show ?thesis
    using assms(2) r put_buff_kinv by (simp add: invalidate_buff_def split: if_splits) auto
qed

section \<open>Getting a buffer\<close>

lemma reuse_kinv:
  assumes k: "kinv s" and b: "bh \<in> buffers (cache s)" "b_lock (bh_of s bh) = 0" and dev: "unat dev < 65536"
    and new: "cmap (cache s) (dev, block) = None" and r: "reuse_buff bh dev block (cache s) = Inr c"
  shows "kinv (set_cache c s) \<and> bh \<in> buffers c \<and> b_lock (bufs c bh) = 0"
proof -
  obtain l ch where q: "queues_ok (cache s) l ch" using k by (auto simp: kinv_def cache_inv_def)
  obtain rq where rq: "drv_inv {} s rq" using k by (auto simp: kinv_def)
  have nw: "\<And>p. hashed (cache s) p \<Longrightarrow> buf_key (bh_of s p) \<noteq> (dev, block)" using new by (simp add: cmap_None)
  obtain ch' where c: "queues_ok c (remove1 bh l @ [bh]) ch'" "same_core c (upd_buf bh (reused dev block) (cache s))"
    using reuse_buff_ok [OF q b(1) dev nw] r by (metis Inr_inject)
  note S = same_core_fields [OF c(2)]
  have "kinv (set_cache c s)"
    using drv_inv_reused [OF rq b(2) c(2)] c(1) by (auto simp: kinv_def cache_inv_def set_cache_def)
  moreover have "bh \<in> buffers c" "b_lock (bufs c bh) = 0" using S(4) [of bh] S(9) b by (simp_all add: reused_def)
  ultimately show ?thesis by simp
qed

lemma new_buff_kinv:
  assumes k: "kinv s" and dev: "unat dev < 65536" and r: "new_buff dev block s = Inr (bh, t)"
  shows "kinv t \<and> (bh \<noteq> NULL \<longrightarrow> bh \<in> buffers (cache t) \<and> b_lock (bh_of t bh) = 0)"
proof -
  obtain l ch where q: "queues_ok (cache s) l ch" using k by (auto simp: kinv_def cache_inv_def)
  obtain p where p: "scan_free (cache s) (NR_BUFFERS (cache s)) (free_list (cache s)) NULL = Inr p" "is_best (cache s) l p"
    using scan_free_best [OF q] by blast
  show ?thesis
  proof (cases "p = NULL")
    case True
    then show ?thesis using r k by (simp add: new_buff_def p(1))
  next
    case pn: False
    then obtain s1 where w1: "wait_on_buff p s = Inr s1" and r1:
      "(if b_count (bh_of s1 p) \<noteq> 0 then Inr (NULL, s1)
        else bnd (clean_loop 2 p s1) (\<lambda>(clean, s2).
        if \<not> clean then Inr (NULL, s2)
        else bnd (find_buff dev block (cache s2)) (\<lambda>other.
        if other \<noteq> NULL then Inr (NULL, printk ''buff bad luck'' [] s2)
        else bnd (reuse_buff p dev block (cache s2)) (\<lambda>c. Inr (p, set_cache c s2))))) = Inr (bh, t)"
      using r by (auto simp: new_buff_def p(1) bnd_eq_Inr simp del: clean_loop.simps)
    have b: "p \<in> buffers (cache s)" using p(2) pn queues_okD(3) [OF q] by (auto simp: is_best_def)
    have w: "kinv s1" "same_index s s1" "b_lock (bh_of s1 p) = 0" using wp_InrD [OF wait_on_buff_ok [OF k b] w1] by simp_all
    have b1: "p \<in> buffers (cache s1)" using same_index_fields [OF w(2)] b by simp
    show ?thesis
    proof (cases "b_count (bh_of s1 p) = 0")
      case False
      then show ?thesis using r1 w(1) by simp
    next
      case True
      then obtain cl s2 where c: "clean_loop 2 p s1 = Inr (cl, s2)" using r1 by (auto simp: bnd_eq_Inr simp del: clean_loop.simps)
      have c2: "cl" "calm_step s1 s2" "b_lock (bh_of s2 p) = 0"
        using wp_InrD [OF clean_loop_ok [OF w(1) b1 True w(3)] c] by simp_all
      then have k2: "kinv s2" "p \<in> buffers (cache s2)" using same_index_fields [of s1 s2] b1 by (simp_all add: calm_step_def)
      have r2: "(if or_null (cmap (cache s2) (dev, block)) \<noteq> NULL then Inr (NULL, printk ''buff bad luck'' [] s2)
        else bnd (reuse_buff p dev block (cache s2)) (\<lambda>c. Inr (p, set_cache c s2))) = Inr (bh, t)"
        using r1 True c c2(1) kinv_lookup [OF k2(1), of dev block] by (simp del: clean_loop.simps)
      show ?thesis
      proof (cases "cmap (cache s2) (dev, block)")
        case None
        then obtain d where "reuse_buff p dev block (cache s2) = Inr d" "bh = p" "t = set_cache d s2"
          using r2 by (auto simp: bnd_eq_Inr)
        then show ?thesis using reuse_kinv [OF k2 c2(3) dev None] by (simp add: set_cache_def)
      next
        case (Some x)
        then show ?thesis using r2 k2(1) cmap_Some_buffers [OF Some] by auto
      qed
    qed
  qed
qed

lemma get_buff_kinv:
  assumes "kinv s" "unat dev < 65536" "get_buff dev block s = Inr (bh, t)"
  shows "kinv t" "bh \<noteq> NULL \<longrightarrow> bh \<in> buffers (cache t) \<and> b_lock (bh_of t bh) = 0"
proof -
  have "get_loop n dev block s = Inr (bh, t) \<Longrightarrow> kinv s \<Longrightarrow>
      kinv t \<and> (bh \<noteq> NULL \<longrightarrow> bh \<in> buffers (cache t) \<and> b_lock (bh_of t bh) = 0)" for n s
  proof (induction n arbitrary: s)
    case (Suc n)
    obtain b1 s1 where r: "retain_buff dev block s = Inr (b1, s1)" using Suc.prems(1) by (auto simp: bnd_eq_Inr)
    note R = retain_buff_kinv [OF Suc.prems(2) r]
    show ?case
    proof (cases "b1 = NULL")
      case False
      then show ?thesis using Suc.prems(1) r R by simp
    next
      case True
      then obtain b2 s2 where n: "new_buff dev block s1 = Inr (b2, s2)" using Suc.prems(1) r by (auto simp: bnd_eq_Inr)
      have "kinv s1" using R by simp
      note N = new_buff_kinv [OF this assms(2) n]
      show ?thesis
        using Suc.prems(1) Suc.IH [of s2] r n N True by (cases "b2 = NULL") auto
    qed
  qed simp
  then show "kinv t" "bh \<noteq> NULL \<longrightarrow> bh \<in> buffers (cache t) \<and> b_lock (bh_of t bh) = 0"
    using assms by (simp_all add: get_buff_def del: get_loop.simps)
qed

lemma read_buff_kinv:
  assumes "kinv s" "unat dev < 65536" "read_buff dev block s = Inr (bh, t)"
  shows "kinv t"
proof -
  obtain p s1 where g: "get_buff dev block s = Inr (p, s1)" "p \<noteq> NULL"
    using assms(3) by (auto simp: read_buff_def bnd_eq_Inr split: if_splits)
  note G = get_buff_kinv [OF assms(1,2) g(1)]
  show ?thesis
  proof (cases "b_uptodate (bh_of s1 p) = 0")
    case False
    then show ?thesis using assms(3) g G(1) by (simp add: read_buff_def)
  next
    case True
    then obtain s2 s3 where S: "ll_rw_block READ p s1 = Inr s2" "wait_on_buff p s2 = Inr s3"
      "(if b_uptodate (bh_of s3 p) = 0 then bnd (put_buff p s3) (\<lambda>s4. Inr (NULL, s4)) else Inr (p, s3)) = Inr (bh, t)"
      using assms(3) g by (auto simp: read_buff_def bnd_eq_Inr)
    have "kinv s2" using wp_InrD [OF ll_rw_block_ok [OF G(1)] S(1)] G(2) g(2) by (simp add: is_rw_def)
    then have "kinv s3" by (rule wait_on_buff_kinv [OF _ S(2)])
    then show ?thesis using S(3) put_buff_kinv by (auto simp: bnd_eq_Inr split: if_splits)
  qed
qed

end
