(* ===== verification/Zone_Inv.thy ===== *)
theory Zone_Inv
  imports Zone Bitmap Buffer_Safe
begin

text \<open>
  The creation of a zone: the first free one is marked, and its block is cleared in the cache, whatever the disk
  does while a buffer is found for it.
\<close>

section \<open>Changes below the invariant\<close>

text \<open>What the mark leaves alone in the cache.\<close>

definition marked_below :: "kst \<Rightarrow> kst \<Rightarrow> bool" where
  "marked_below s t \<longleftrightarrow> (\<forall>k. cmap (cache t) k = cmap (cache s) k) \<and> (\<forall>p. b_count (bh_of t p) = b_count (bh_of s p))"

lemma marking_kinv:
  assumes "marking slots s r t" "kinv (krn s)"
  shows "kinv (krn t)" "marked_below (krn s) (krn t)"
proof -
  have c: "kinv (cli (krn s))" by (rule kinv_quiet [OF assms(2)]) (simp_all add: cli_def)
  have "kinv (krn t) \<and> marked_below (krn s) (krn t)"
  proof (cases r)
    case None
    then obtain fmt as where t: "t = s\<lparr>krn := printk fmt as (cli (krn s))\<rparr>"
      using assms(1) by (auto simp: marking_def)
    have "kinv (krn t)" by (rule kinv_quiet [OF c]) (simp_all add: t printk_def)
    then show ?thesis by (simp add: t marked_below_def printk_def cli_def)
  next
    case (Some n)
    let ?bh = "slots (n div 8192)"
    obtain d where t: "krn t = upd_bh ?bh (\<lambda>b. b\<lparr>b_dirt := 1\<rparr>) ((cli (krn s))\<lparr>cache := (cache (cli (krn s)))\<lparr>bdata := d\<rparr>\<rparr>)"
      using assms(1) Some by (auto simp: marking_def Let_def with_data_def)
    have "kinv (krn t)" unfolding t by (rule kinv_upd_bh [OF kinv_fill [OF c]]) simp
    moreover have "cmap (cache (krn t)) k = cmap (cache (krn s)) k" for k
      unfolding t by (simp add: cmap_upd_bh) (simp add: cmap_def cli_def)
    ultimately show ?thesis by (simp add: t marked_below_def upd_bh_def upd_buf_def cli_def)
  qed
  then show "kinv (krn t)" "marked_below (krn s) (krn t)" by simp_all
qed

section \<open>\<open>create_block\<close>\<close>

text \<open>The block that is next to be handed out, 0 if there is none.\<close>

definition next_zone :: "super_block \<Rightarrow> fsys \<Rightarrow> u32" where
  "next_zone b s =
     (case List.find (\<lambda>k. \<not> marked (s_zmap b) s k) [0..<min (unat (s_zmap_blocks b) * 8192) (zone_limit b)] of
        None \<Rightarrow> 0 | Some k \<Rightarrow> word_of_int (zone_block b k))"

lemma next_zone_allocated:
  assumes "allocated (s_zmap b) (unat (s_zmap_blocks b)) (zone_limit b) s r t"
  shows "word_of_int (case r of Some n \<Rightarrow> zone_block b n | None \<Rightarrow> 0) = next_zone b s"
proof (cases r)
  case None
  then have "List.find (\<lambda>k. \<not> marked (s_zmap b) s k) [0..<min (unat (s_zmap_blocks b) * 8192) (zone_limit b)] = None"
    using assms by (auto simp: allocated_def find_None_iff)
  then show ?thesis using None by (simp add: next_zone_def)
next
  case (Some n)
  then have "List.find (\<lambda>k. \<not> marked (s_zmap b) s k) [0..<min (unat (s_zmap_blocks b) * 8192) (zone_limit b)] = Some n"
    using assms by (auto simp: allocated_def find_Some_iff intro!: exI [of _ n])
  then show ?thesis using Some by (simp add: next_zone_def)
qed

text \<open>The buffer \<open>bh\<close> caches the block, unused, and is to be written with zeros.\<close>

definition zeroed :: "u32 \<Rightarrow> u32 \<Rightarrow> kst \<Rightarrow> bool" where
  "zeroed dev z k \<longleftrightarrow> (case cmap (cache k) (dev, z) of None \<Rightarrow> False
     | Some bh \<Rightarrow> (\<forall>a < 1024. bdata (cache k) bh a = 0) \<and> b_uptodate (bh_of k bh) = 1 \<and> b_dirt (bh_of k bh) = 1 \<and>
         b_lock (bh_of k bh) = 0 \<and> b_count (bh_of k bh) = 0)"

definition in_use_block :: "u32 \<Rightarrow> u32 \<Rightarrow> kst \<Rightarrow> bool" where
  "in_use_block dev z k \<longleftrightarrow> (case cmap (cache k) (dev, z) of None \<Rightarrow> False | Some bh \<Rightarrow> b_count (bh_of k bh) \<noteq> 0)"

lemma clear_got:
  assumes g: "got dev z k (bh, l)" and one: "b_count (bh_of l bh) = 1"
  shows "\<exists>m. put_buff bh (upd_bh bh (\<lambda>b. b\<lparr>b_uptodate := 1, b_dirt := 1\<rparr>)
      (l\<lparr>cache := (cache l)\<lparr>bdata := (bdata (cache l))(bh := clear_block (bdata (cache l) bh))\<rparr>\<rparr>)) = Inr m \<and>
    kinv m \<and> zeroed dev z m"
proof -
  note G = got_fields [OF g]
  let ?l = "l\<lparr>cache := (cache l)\<lparr>bdata := (bdata (cache l))(bh := clear_block (bdata (cache l) bh))\<rparr>\<rparr>"
  let ?f = "upd_bh bh (\<lambda>b. b\<lparr>b_uptodate := 1, b_dirt := 1\<rparr>) ?l"
  let ?m = "upd_bh bh (\<lambda>b. b\<lparr>b_count := b_count b - 1\<rparr>) (cli ?f)"
  have f: "kinv ?f" by (rule kinv_upd_bh [OF kinv_fill [OF G(1)]]) simp
  have "kinv (cli ?f)" by (rule kinv_quiet [OF f]) (simp_all add: cli_def)
  then have "kinv ?m" by (rule kinv_upd_bh) simp
  moreover have "put_buff bh ?f = Inr ?m"
  proof -
    have F: "b_lock (bh_of ?f bh) = 0" "b_count (bh_of ?f bh) = 1" using G(4) one by (simp_all add: upd_bh_def upd_buf_def)
    then have "b_count (bh_of (?f\<lparr>hw := (hw ?f)\<lparr>if_flag := False\<rparr>\<rparr>) bh) = 1" by simp
    then show ?thesis using G(3) by (simp add: put_buff_def wait_unlocked [OF F(1)] cli_def del: One_nat_def)
  qed
  moreover have "cmap (cache ?m) (dev, z) = Some bh"
  proof -
    have "cache (cli k) = cache k" for k by (simp add: cli_def)
    then show ?thesis using G(5) by (simp add: cmap_upd_bh) (simp add: cmap_def)
  qed
  then have "zeroed dev z ?m"
    using G(4) one by (simp add: zeroed_def cli_def upd_bh_def upd_buf_def clear_block_def stosl_zero)
  ultimately show ?thesis by blast
qed

lemma create_block_ok:
  assumes k: "kinv (krn s)" and at: "super_at dev p s" and b: "b = super_block_list s p"
    and m: "map_ok (s_zmap b) (unat (s_zmap_blocks b))" and dev: "unat dev < 65536"
  shows "wp (create_block dev s)
    (\<lambda>e. disk_stop e \<or> e = Panic ''new block: count is != 1'' \<and> in_use_block dev (next_zone b s) (krn s))
    (\<lambda>(z, t). z = next_zone b s \<and> kinv (krn t) \<and> zeroed dev z (krn t))"
proof -
  obtain r t where r: "add_zone_bitmap dev s = Inr (case r of Some n \<Rightarrow> zone_block b n | None \<Rightarrow> 0, t)"
    "allocated (s_zmap b) (unat (s_zmap_blocks b)) (zone_limit b) s r t" "marking (s_zmap b) s r t"
    using add_zone_bitmap_run [OF at b m] by blast
  let ?z = "next_zone b s"
  note K = marking_kinv [OF r(3) k]
  have d: "dev \<noteq> 0" using at by (simp add: super_at_def)
  let ?rest = "\<lambda>r. if fst r = NULL then Inl (Panic ''new_block: cannot get block'')
     else if b_count (bh_of (snd r) (fst r)) \<noteq> 1 then Inl (Panic ''new block: count is != 1'')
     else bnd (put_buff (fst r) (upd_bh (fst r) (\<lambda>b. b\<lparr>b_uptodate := 1, b_dirt := 1\<rparr>)
        ((snd r)\<lparr>cache := (cache (snd r))\<lparr>bdata := (bdata (cache (snd r)))(fst r := clear_block (bdata (cache (snd r)) (fst r)))\<rparr>\<rparr>)))
       (\<lambda>k. Inr (?z, t\<lparr>krn := k\<rparr>))"
  have run: "create_block dev s = bnd (get_buff dev ?z (krn t)) ?rest"
    unfolding create_block_def next_zone_allocated [OF r(2), symmetric]
    by (simp add: r(1) kcall_def kproc_def upd_data_def upd_head_def bnd_def split: sum.split prod.split)
  have "wp (?rest (bh, l)) (\<lambda>e. disk_stop e \<or> e = Panic ''new block: count is != 1'' \<and> in_use_block dev ?z (krn s))
      (\<lambda>(z, u). z = ?z \<and> kinv (krn u) \<and> zeroed dev z (krn u))" if g: "got dev ?z (krn t) (bh, l)" for bh l
  proof (cases "b_count (bh_of l bh) = 1")
    case True
    then show ?thesis using clear_got [OF g True] got_fields(3) [OF g] by auto
  next
    case False
    note G = got_fields [OF g]
    have "cmap (cache (krn t)) (dev, ?z) = Some bh"
    proof (rule ccontr)
      assume "\<not> ?thesis"
      then have "renewed dev ?z bh (krn t) l" using g by (auto simp: got_def split: option.splits)
      then have "b_count (bh_of (krn t) bh) = 0" by (simp add: renewed_def)
      then show False using G(6) False by simp
    qed
    then have "in_use_block dev ?z (krn s)" using K(2) G(6) False by (auto simp: in_use_block_def marked_below_def)
    then show ?thesis using False G(3) by simp
  qed
  note rest = this
  show ?thesis unfolding run wp_bnd
  proof (rule wp_mono [OF get_buff_got [OF K(1) d dev]])
    fix r assume g: "got dev ?z (krn t) r"
    obtain bh l where "r = (bh, l)" by (cases r)
    then show "wp (?rest r) (\<lambda>e. disk_stop e \<or> e = Panic ''new block: count is != 1'' \<and> in_use_block dev ?z (krn s))
      (\<lambda>(z, u). z = ?z \<and> kinv (krn u) \<and> zeroed dev z (krn u))" using rest g by blast
  qed simp
qed

end
