(* ===== verification/Demo_Fs.thy ===== *)
theory Demo_Fs
  imports Demo Dir_Inv Desc Screen
begin

text \<open>
  Concrete states of the file system, the console and the timer for the witnesses of the properties: one
  mounted device with a block of each bitmap in the two buffers, in which the numbers 0, 1 and 2 are used, and
  its root directory in the first slot of the table of inodes.
\<close>

definition demo_super :: super_block where
  "demo_super = zero_super\<lparr>s_ninodes := 5, s_nzones := 7, s_imap_blocks := 1, s_zmap_blocks := 1, s_firstdatazone := 5,
     s_imap := (\<lambda>_. NULL)(0 := 1), s_zmap := (\<lambda>_. NULL)(0 := 2), s_dev := 0x301\<rparr>"

definition demo_root :: m_inode where
  "demo_root = zero_inode\<lparr>i_mode := 0x4000, i_nlinks := 1, i_dev := 0x301, i_num := 1, i_count := 1\<rparr>"

definition demo_fs :: fsys where
  "demo_fs = \<lparr>krn = demo\<lparr>cache := (cache demo)\<lparr>bdata := (\<lambda>_ a. if a = 0 then 7 else 0)\<rparr>\<rparr>,
     inode_list = (\<lambda>_. zero_inode)(1 := demo_root), super_block_list = (\<lambda>_. zero_super)(1 := demo_super), last_inode = 1\<rparr>"

lemma demo_fields: "unat (s_ninodes demo_super) = 5" "unat (s_imap_blocks demo_super) = 1" "unat (s_zmap_blocks demo_super) = 1"
  by (simp_all add: demo_super_def)

lemma demo_fs_super: "super_block_list demo_fs 1 = demo_super"
  by (simp add: demo_fs_def)

lemma demo_fs_at: "super_at 0x301 1 demo_fs"
  by (auto simp: super_at_def demo_fs_def demo_super_def zero_super_def)

lemma demo_fs_maps:
  "map_ok (s_imap demo_super) (unat (s_imap_blocks demo_super))" "map_ok (s_zmap demo_super) (unat (s_zmap_blocks demo_super))"
  by (auto simp: map_ok_def demo_super_def inj_on_def)

lemma bit_seven: "bit (7 :: u8) n \<longleftrightarrow> n < 3"
proof -
  have "(7 :: u8) = mask 3" by (simp add: mask_eq_exp_minus_1)
  then show ?thesis by (simp only: bit_mask_iff) auto
qed

lemma demo_fs_marked: "k < 8192 \<Longrightarrow> marked (s_imap demo_super) demo_fs k \<longleftrightarrow> k < 3"
  "k < 8192 \<Longrightarrow> marked (s_zmap demo_super) demo_fs k \<longleftrightarrow> k < 3"
proof -
  note bit_seven
  moreover have "k div 8 = 0 \<longleftrightarrow> k < 8" for k :: nat by (simp add: div_eq_0_iff)
  ultimately show "k < 8192 \<Longrightarrow> marked (s_imap demo_super) demo_fs k \<longleftrightarrow> k < 3"
    "k < 8192 \<Longrightarrow> marked (s_zmap demo_super) demo_fs k \<longleftrightarrow> k < 3"
    by (auto simp: marked_def bit_of_def data_of_def demo_fs_def)
qed

lemma demo_fs_inodes: "slot (last_inode demo_fs)" "unique_inodes demo_fs" "cached_at 0x301 1 1 demo_fs"
  by (auto simp: slot_def unique_inodes_def cached_at_def demo_fs_def demo_root_def zero_inode_def inode_key_def split: if_splits)

definition demo_screen :: screen where
  "demo_screen = \<lparr>vmem = (\<lambda>_. 0), textmemptr = 0xB8000, attrib = 0x0F, csr_x = 0, csr_y = 0, kern = demo\<rparr>"

lemma demo_on_screen: "on_screen demo_screen"
  by (simp add: on_screen_def demo_screen_def)

definition demo_timer :: kst where
  "demo_timer = demo\<lparr>hw := (demo_hw [0, 0, 0])\<lparr>if_flag := True\<rparr>\<rparr>"

lemma demo_timer: "irq_routines (drv demo_timer) 0 = Some Timer_handler" "if_flag (hw demo_timer)"
  "irqs (hw demo_timer) = replicate (unat (2 :: u32)) 0 @ [0]" "unat (timer_ticks (drv demo_timer)) + unat (2 :: u32) < 2 ^ 32"
proof -
  have two: "unat (2 :: u32) = 2" by simp
  show "irqs (hw demo_timer) = replicate (unat (2 :: u32)) 0 @ [0]"
    unfolding two by (simp add: demo_timer_def demo_hw_def numeral_2_eq_2)
qed (simp_all add: demo_timer_def demo_proj demo_drv_def)

end
