(* ===== verification/Demo_Dir.thy ===== *)
theory Demo_Dir
  imports Demo_Fs Dir_Create Inode_Sync Zone_Inv
begin

text \<open>
  A root directory whose only block is in memory, with one entry for the inode in the second slot, for the
  witnesses of the properties of directories.
\<close>

lemma cache_inv_data: "cache_inv (c\<lparr>bdata := m\<rparr>) = cache_inv c"
proof -
  have "queues_ok (c\<lparr>bdata := m\<rparr>) l ch = queues_ok c l ch" for l ch
    by (rule iffI; erule queues_ok_cong [rotated 4]) simp_all
  then show ?thesis by (simp add: cache_inv_def)
qed

lemma demo_fs_kinv: "kinv (krn demo_fs)"
proof -
  have "krn demo_fs = demo\<lparr>cache := (cache demo)\<lparr>bdata := (\<lambda>_ a. if a = 0 then 7 else 0)\<rparr>\<rparr>" by (simp add: demo_fs_def)
  then show ?thesis by (simp only: kinv_fill [OF demo_kinv])
qed

definition demo_dir_data :: mem where
  "demo_dir_data = (\<lambda>_. 0)(0 := 2, 2 := 0x61)"

definition demo_dir_cache :: cache where
  "demo_dir_cache = (case reuse_buff 1 0x301 9 demo_cache of
     Inl e \<Rightarrow> demo_cache
   | Inr c \<Rightarrow> (upd_buf 1 (\<lambda>b. b\<lparr>b_uptodate := 1\<rparr>) c)\<lparr>bdata := (\<lambda>_. demo_dir_data)\<rparr>)"

definition demo_child :: m_inode where
  "demo_child = zero_inode\<lparr>i_mode := 0x8000, i_nlinks := 1, i_dev := 0x301, i_num := 2\<rparr>"

definition demo_dir :: fsys where
  "demo_dir = demo_fs\<lparr>krn := demo\<lparr>cache := demo_dir_cache\<rparr>,
     inode_list := (\<lambda>_. zero_inode)(1 := demo_root\<lparr>i_size := 32, i_zone := (\<lambda>_. 0)(0 := 9)\<rparr>, 2 := demo_child)\<rparr>"

lemma demo_dir_cache:
  "cache_inv demo_dir_cache" "cmap demo_dir_cache (0x301, 9) = Some 1"
  "b_lock (bufs demo_dir_cache 1) = 0" "b_uptodate (bufs demo_dir_cache 1) = 1" "b_count (bufs demo_dir_cache 1) = 1"
  "bdata demo_dir_cache = (\<lambda>_. demo_dir_data)"
proof -
  have b: "1 \<in> buffers demo_cache" by (simp add: demo_cache_eq buffers_def)
  have new: "\<And>p. hashed demo_cache p \<Longrightarrow> buf_key (bufs demo_cache p) \<noteq> (0x301, 9)"
    by (simp add: hashed_def demo_cache_eq blank_head_def split: if_splits)
  obtain c ch where c: "reuse_buff 1 0x301 9 demo_cache = Inr c" "queues_ok c (remove1 1 [1..<Suc (NR_BUFFERS demo_cache)] @ [1]) ch"
    "same_core c (upd_buf 1 (reused 0x301 9) demo_cache)"
    using reuse_buff_ok [OF demo_cache_inv b _ new] by auto
  let ?c = "upd_buf 1 (\<lambda>b. b\<lparr>b_uptodate := 1\<rparr>) c"
  have d: "demo_dir_cache = ?c\<lparr>bdata := (\<lambda>_. demo_dir_data)\<rparr>" unfolding demo_dir_cache_def c(1) by simp
  have q: "queues_ok demo_dir_cache (remove1 1 [1..<Suc (NR_BUFFERS demo_cache)] @ [1]) ch"
    by (rule queues_ok_cong [OF _ _ _ _ c(2)]) (auto simp: d upd_buf_def)
  then show "cache_inv demo_dir_cache" by (auto simp: cache_inv_def)
  have "cmap c (0x301, 9) = Some 1" by (rule cmap_reused [OF demo_cache_inv c(2) b _ _ c(3)]) simp_all
  moreover have "cmap demo_dir_cache k = cmap c k" for k
    unfolding cmap_def by (auto simp: d upd_buf_def buf_key_def intro!: arg_cong2 [where f = List.find])
  ultimately show "cmap demo_dir_cache (0x301, 9) = Some 1" by simp
  show "b_lock (bufs demo_dir_cache 1) = 0" "b_uptodate (bufs demo_dir_cache 1) = 1" "b_count (bufs demo_dir_cache 1) = 1"
    "bdata demo_dir_cache = (\<lambda>_. demo_dir_data)"
    using same_core_fields(1-6) [OF c(3), of 1] by (simp_all add: d upd_buf_def reused_def demo_cache_eq blank_head_def)
qed

lemma demo_dir_fields:
  "cache (krn demo_dir) = demo_dir_cache" "inode_list demo_dir 1 = demo_root\<lparr>i_size := 32, i_zone := (\<lambda>_. 0)(0 := 9)\<rparr>"
  "inode_list demo_dir 2 = demo_child"
  by (simp_all add: demo_dir_def)

lemma demo_dir_block:
  "in_memory (krn demo_dir) 0x301 9" "block_image (krn demo_dir) 0x301 9 = demo_dir_data"
  by (simp_all add: in_memory_def block_image_def demo_dir_fields demo_dir_cache del: One_nat_def)

lemma demo_root_zones:
  "i_dev (inode_list demo_dir 1) = 0x301" "i_zone (inode_list demo_dir 1) = (\<lambda>_. 0)(0 := 9)"
  "unat (i_size (inode_list demo_dir 1)) div 32 = 1" "i_mode (inode_list demo_dir 1) = 0x4000"
  by (simp_all add: demo_dir_fields demo_root_def del: One_nat_def)

lemma demo_entry: "entry_block img ((\<lambda>_. 0)(0 := 9)) 0 = 9"
  by (simp add: entry_block_def file_block_def)

lemma demo_dir_there: "dir_there demo_dir 1 1"
  by (simp add: dir_there_def Let_def demo_root_zones demo_entry tables_of_def demo_dir_block del: One_nat_def fun_upd_apply)

lemma demo_dir_child: "child demo_dir 1 [0x61] 2"
proof -
  let ?img = "block_image (krn demo_dir) 0x301" and ?zone = "(\<lambda>_. 0)(0 := 9) :: nat \<Rightarrow> u16"
  have f: "dir_find ?img ?zone [0x61] 1 1 = Some 0"
    by (simp add: dir_find_def entry_matches_def demo_entry demo_dir_block demo_dir_data_def str_mem_def)
  have n: "entry_inode ?img ?zone 0 = 2"
    by (simp add: entry_inode_def demo_entry demo_dir_block demo_dir_data_def load16_def)
  have c: "cached_at 0x301 2 2 demo_dir"
    by (auto simp: cached_at_def slot_def inode_key_def demo_dir_def demo_child_def demo_root_def zero_inode_def split: if_splits)
  have "i_nlinks (inode_list demo_dir 2) \<noteq> 0" "releasable (inode_list demo_dir 1)"
    by (simp_all add: releasable_def demo_dir_fields demo_child_def demo_root_def zero_inode_def del: One_nat_def)
  then show ?thesis
    using f n c demo_dir_there
    by (simp add: child_def Let_def name_length_def demo_root_zones leaves_device_def del: One_nat_def fun_upd_apply)
qed

lemma demo_dir_walk: "walk demo_dir 1 [[0x61]] 2"
  by (rule walk.down [OF demo_dir_child walk.here])

text \<open>The same directory with the map of inodes in the second buffer, in which the numbers 0, 1 and 2 are used.\<close>

definition demo_new :: fsys where
  "demo_new = demo_dir\<lparr>krn := demo\<lparr>cache := demo_dir_cache\<lparr>bdata :=
       (\<lambda>p. if p = 2 then (\<lambda>a. if a = 0 then 7 else 0) else demo_dir_data)\<rparr>\<rparr>,
     super_block_list := (\<lambda>_. zero_super)(1 := demo_super\<lparr>s_imap := (\<lambda>_. NULL)(0 := 2)\<rparr>)\<rparr>"

lemma demo_new_cache:
  "cache_inv (cache (krn demo_new))" "cmap (cache (krn demo_new)) k = cmap demo_dir_cache k"
proof -
  have c: "cache (krn demo_new) = demo_dir_cache\<lparr>bdata := bdata (cache (krn demo_new))\<rparr>" by (simp add: demo_new_def)
  show "cache_inv (cache (krn demo_new))"
    by (subst c) (simp add: cache_inv_data demo_dir_cache(1))
  show "cmap (cache (krn demo_new)) k = cmap demo_dir_cache k"
    by (subst c) (simp add: cmap_def)
qed

lemma demo_new_inode: "inode_list demo_new = inode_list demo_dir"
  by (simp add: demo_new_def)

lemma demo_new_block:
  "in_memory (krn demo_new) 0x301 9" "block_image (krn demo_new) 0x301 9 = demo_dir_data" "buf_of (krn demo_new) 0x301 9 = 1"
  by (simp_all add: in_memory_def block_image_def buf_of_def demo_new_cache demo_dir_cache(2) del: One_nat_def)
    (simp_all add: demo_new_def demo_dir_cache del: One_nat_def)

lemma demo_new_entry: "j < 32 \<Longrightarrow> entry_block img ((\<lambda>_. 0)(0 := 9)) j = 9"
  by (simp add: entry_block_def file_block_def)

lemma demo_new_there: "dir_there demo_new 1 2"
  by (simp add: dir_there_def Let_def demo_new_inode demo_root_zones demo_new_entry tables_of_def demo_new_block del: One_nat_def fun_upd_apply)

lemma demo_new_unused:
  "unused demo_new 1 1" "\<forall>k<1. \<not> unused demo_new 1 k \<and> \<not> found_at demo_new 1 [0x62] 1 k"
proof -
  have sz: "i_size (inode_list demo_new 1) = 32" by (simp add: demo_new_inode demo_dir_fields del: One_nat_def)
  show "unused demo_new 1 1" by (simp add: unused_def sz del: One_nat_def)
  have "entry_inode (block_image (krn demo_new) 0x301) ((\<lambda>_. 0)(0 := 9)) 0 = 2"
    by (simp add: entry_inode_def demo_new_entry demo_new_block demo_dir_data_def load16_def)
  moreover have "\<not> entry_matches (block_image (krn demo_new) 0x301) ((\<lambda>_. 0)(0 := 9)) [0x62] 1 0"
    by (simp add: entry_matches_def demo_new_entry demo_new_block demo_dir_data_def str_mem_def)
  ultimately show "\<forall>k<1. \<not> unused demo_new 1 k \<and> \<not> found_at demo_new 1 [0x62] 1 k"
    by (simp add: unused_def found_at_def Let_def sz demo_root_zones [folded demo_new_inode] del: One_nat_def fun_upd_apply)
qed

lemma demo_new_can_create: "can_create demo_new 0x301 1 3"
proof -
  let ?b = "super_block_list demo_new 1"
  have b: "?b = demo_super\<lparr>s_imap := (\<lambda>_. NULL)(0 := 2)\<rparr>" by (simp add: demo_new_def)
  have small: "k div 8 = 0 \<longleftrightarrow> k < 8" for k :: nat by (simp add: div_eq_0_iff)
  have m: "marked (s_imap ?b) demo_new k \<longleftrightarrow> k < 3" if "k < 8192" for k
    using that small bit_seven by (auto simp: b marked_def bit_of_def data_of_def demo_new_def)
  have "super_at 0x301 1 demo_new"
    by (auto simp: super_at_def b demo_new_def demo_super_def zero_super_def)
  moreover have "map_ok (s_imap ?b) (unat (s_imap_blocks ?b))"
    unfolding b by (auto simp: map_ok_def demo_super_def inj_on_def)
  ultimately have "free_number 0x301 1 3 demo_new"
    using m unfolding free_number_def Let_def b by (simp add: demo_fields)
  moreover have "spare_slot demo_new"
    by (auto simp: spare_slot_def slot_def demo_new_def demo_dir_def demo_fs_def demo_child_def demo_root_def zero_inode_def intro!: exI [of _ 3])
  moreover have "key_at demo_new q \<noteq> (0x301, of_nat 3)" for q
    by (auto simp: demo_new_def demo_dir_def demo_child_def demo_root_def zero_inode_def inode_key_def)
  ultimately show ?thesis by (simp add: can_create_def)
qed

lemma demo_new_apart: "dir_apart demo_new 1 2 1 1"
  by (simp add: dir_apart_def Let_def entry_blocks_def demo_new_inode demo_root_zones demo_new_entry tables_of_def demo_new_block
      del: One_nat_def fun_upd_apply) (simp add: demo_new_def demo_super_def)

text \<open>
  The device with six blocks of zone map, so that its first block of inodes is block 9: an inode that has to be
  written in the first slot, and an empty copy of it in the second.
\<close>

definition demo_sync :: fsys where
  "demo_sync = demo_dir\<lparr>super_block_list := (\<lambda>_. zero_super)(1 := demo_super\<lparr>s_zmap_blocks := 6\<rparr>),
     inode_list := (\<lambda>_. zero_inode)(1 := demo_root\<lparr>i_size := 32, i_dirt := 1\<rparr>, 2 := zero_inode\<lparr>i_dev := 0x301, i_num := 1\<rparr>)\<rparr>"

lemma demo_sync:
  "cache_inv (cache (krn demo_sync))" "inode_there demo_sync 1 (inode_list demo_sync 1)" "i_dirt (inode_list demo_sync 1) \<noteq> 0"
  "i_dev (inode_list demo_sync 2) = i_dev (inode_list demo_sync 1)" "i_num (inode_list demo_sync 2) = i_num (inode_list demo_sync 1)"
  "i_lock (inode_list demo_sync 2) = 0"
proof -
  have k: "krn demo_sync = krn demo_dir" by (simp add: demo_sync_def)
  show "cache_inv (cache (krn demo_sync))" by (simp add: k demo_dir_fields(1) demo_dir_cache(1))
  have i: "inode_list demo_sync 1 = demo_root\<lparr>i_size := 32, i_dirt := 1\<rparr>" "inode_list demo_sync 2 = zero_inode\<lparr>i_dev := 0x301, i_num := 1\<rparr>"
    by (simp_all add: demo_sync_def)
  have b: "super_block_list demo_sync 1 = demo_super\<lparr>s_zmap_blocks := 6\<rparr>" by (simp add: demo_sync_def)
  have at: "super_at 0x301 1 demo_sync" by (auto simp: super_at_def b demo_sync_def demo_super_def zero_super_def)
  have z: "inode_block (demo_super\<lparr>s_zmap_blocks := 6\<rparr>) (demo_root\<lparr>i_size := 32, i_dirt := 1\<rparr>) = 9"
    by (simp add: inode_block_def demo_super_def demo_root_def)
  show "inode_there demo_sync 1 (inode_list demo_sync 1)"
    unfolding inode_there_def i b z using at by (simp add: k demo_dir_block(1) demo_root_def zero_inode_def)
  show "i_dirt (inode_list demo_sync 1) \<noteq> 0" unfolding i by simp
  show "i_dev (inode_list demo_sync 2) = i_dev (inode_list demo_sync 1)" "i_num (inode_list demo_sync 2) = i_num (inode_list demo_sync 1)"
    "i_lock (inode_list demo_sync 2) = 0"
    unfolding i by (simp_all add: demo_root_def zero_inode_def)
qed

section \<open>A disk to mount\<close>

text \<open>Three buffers with blocks 1 to 3: the super block of a device with one block of each map, and the empty maps.\<close>

definition demo_disk_data :: mem where
  "demo_disk_data = (\<lambda>_. 0)(0 := 5, 2 := 7, 4 := 1, 6 := 1, 8 := 5, 16 := 0x8F, 17 := 0x13)"

definition demo_disk_head :: "ptr \<Rightarrow> buffer_head" where
  "demo_disk_head p = blank_head\<lparr>b_dev := 0x301, b_blocknr := of_nat p, b_uptodate := 1,
     b_next_free := (if p = 3 then 1 else p + 1), b_prev_free := (if p = 1 then 3 else p - 1)\<rparr>"

definition demo_disk_cache :: cache where
  "demo_disk_cache = \<lparr>bufs = (\<lambda>p. if 1 \<le> p \<and> p \<le> 3 then demo_disk_head p else blank_head),
     bdata = (\<lambda>p. if p = 1 then demo_disk_data else (\<lambda>_. 0)), hash_table = (\<lambda>_. NULL)(154 := 1, 157 := 2, 156 := 3),
     free_list = 1, NR_BUFFERS = 3\<rparr>"

definition demo_disk :: fsys where
  "demo_disk = \<lparr>krn = demo\<lparr>cache := demo_disk_cache\<rparr>, inode_list = (\<lambda>_. zero_inode),
     super_block_list = (\<lambda>_. zero_super), last_inode = 1\<rparr>"

lemma demo_disk_buffers: "buffers demo_disk_cache = {1, 2, 3}"
  by (auto simp: buffers_def demo_disk_cache_def)

lemma demo_disk_links:
  "hnext demo_disk_cache = (\<lambda>_. NULL)" "hprev demo_disk_cache = (\<lambda>_. NULL)"
  "fnext demo_disk_cache = (\<lambda>p. if p = 3 then 1 else if p = 1 \<or> p = 2 then p + 1 else NULL)"
  "fprev demo_disk_cache = (\<lambda>p. if p = 1 then 3 else if p = 2 \<or> p = 3 then p - 1 else NULL)"
  by (auto simp: fun_eq_iff hnext_def hprev_def fnext_def fprev_def demo_disk_cache_def demo_disk_head_def blank_head_def)

lemma demo_disk_keys:
  "buf_key (bufs demo_disk_cache 1) = (0x301, 1)" "buf_key (bufs demo_disk_cache 2) = (0x301, 2)"
  "buf_key (bufs demo_disk_cache 3) = (0x301, 3)"
  "b_dev (bufs demo_disk_cache 1) = 0x301" "b_dev (bufs demo_disk_cache 2) = 0x301" "b_dev (bufs demo_disk_cache 3) = 0x301"
  by (simp_all add: demo_disk_cache_def demo_disk_head_def buf_key_def)

lemma demo_disk_hash:
  "buf_hash (bufs demo_disk_cache 1) = 154" "buf_hash (bufs demo_disk_cache 2) = 157" "buf_hash (bufs demo_disk_cache 3) = 156"
  by (simp_all add: demo_disk_cache_def demo_disk_head_def buf_hash_def hashfn_def)

lemma demo_disk_inv: "cache_inv demo_disk_cache"
proof -
  let ?ch = "\<lambda>h. if h = 154 then [1] else if h = 157 then [2] else if h = 156 then [3] else []"
  have "ring (fnext demo_disk_cache) (fprev demo_disk_cache) [1, 2, 3]"
    unfolding demo_disk_links by (simp add: ring_def)
  moreover have "chains demo_disk_cache {1, 2, 3} ?ch"
    unfolding chains_def demo_disk_links
    by (auto simp: demo_disk_keys demo_disk_hash demo_disk_cache_def [THEN arg_cong [where f = hash_table]] simp del: One_nat_def)
  moreover have "inj_on (\<lambda>p. buf_key (bufs demo_disk_cache p)) {p. hashed demo_disk_cache p}"
    by (auto simp: inj_on_def hashed_def demo_disk_buffers demo_disk_keys simp del: One_nat_def)
  ultimately have "queues_ok demo_disk_cache [1, 2, 3] ?ch"
    by (auto simp: queues_ok_def demo_disk_buffers null_links_def demo_disk_links demo_disk_cache_def [THEN arg_cong [where f = free_list]])
  then show ?thesis by (auto simp: cache_inv_def)
qed

lemma demo_disk_krn: "cache (krn demo_disk) = demo_disk_cache" "super_block_list demo_disk = (\<lambda>_. zero_super)"
  by (simp_all add: demo_disk_def)

lemma demo_disk_cmap: "p \<in> {1, 2, 3} \<Longrightarrow> cmap demo_disk_cache (0x301, of_nat p) = Some p"
proof -
  assume p: "p \<in> {1, 2, 3}"
  obtain l ch where q: "queues_ok demo_disk_cache l ch" using demo_disk_inv by (auto simp: cache_inv_def)
  have "hashed demo_disk_cache p" "buf_key (bufs demo_disk_cache p) = (0x301, of_nat p)"
    using p demo_disk_keys by (auto simp: hashed_def demo_disk_buffers simp del: One_nat_def)
  then show ?thesis by (rule cmap_SomeI [OF queues_okD(6) [OF q]])
qed

lemma demo_disk_memory:
  "p \<in> {1, 2, 3} \<Longrightarrow> in_memory (krn demo_disk) 0x301 (of_nat p)" "block_image (krn demo_disk) 0x301 1 = demo_disk_data"
proof -
  show "p \<in> {1, 2, 3} \<Longrightarrow> in_memory (krn demo_disk) 0x301 (of_nat p)"
    using demo_disk_cmap [of p] by (auto simp: in_memory_def demo_disk_krn demo_disk_cache_def demo_disk_head_def blank_head_def)
  show "block_image (krn demo_disk) 0x301 1 = demo_disk_data"
    using demo_disk_cmap [of 1] by (simp add: block_image_def demo_disk_krn) (simp add: demo_disk_cache_def)
qed

lemma demo_disk_mountable: "mountable 0x301 1 demo_disk"
  by (simp add: mountable_def demo_disk_krn zero_super_def)

lemma demo_disk_super:
  "valid_super (mounted_super (krn demo_disk) 0x301 (super_block_list demo_disk 1))"
  "unat (s_imap_blocks (mounted_super (krn demo_disk) 0x301 (super_block_list demo_disk 1))) = 1"
  "unat (s_zmap_blocks (mounted_super (krn demo_disk) 0x301 (super_block_list demo_disk 1))) = 1"
proof -
  let ?b = "mounted_super (krn demo_disk) 0x301 (super_block_list demo_disk 1)"
  have "s_magic ?b = load16 demo_disk_data 16" "s_imap_blocks ?b = load16 demo_disk_data 4" "s_zmap_blocks ?b = load16 demo_disk_data 6"
    by (simp_all add: mounted_super_def Let_def decode_super_def demo_disk_memory(2))
  moreover have "load16 demo_disk_data 16 = 0x138F" "load16 demo_disk_data 4 = 1" "load16 demo_disk_data 6 = 1"
    by (simp_all add: load16_def demo_disk_data_def push_bit_eq_mult)
  ultimately show "valid_super ?b" "unat (s_imap_blocks ?b) = 1" "unat (s_zmap_blocks ?b) = 1"
    by (simp_all add: valid_super_def)
qed

lemma demo_disk_maps: "maps_there (krn demo_disk) 0x301 (1 + 1)"
proof -
  have "in_memory (krn demo_disk) 0x301 (2 + of_nat i)" if "i < 2" for i
    using demo_disk_memory(1) [of "2 + i"] that by (auto simp: less_2_cases_iff)
  then show ?thesis by (simp add: maps_there_def)
qed

text \<open>A disk whose block 1 is empty.\<close>

definition demo_dirty_disk :: fsys where
  "demo_dirty_disk = demo_disk\<lparr>krn := demo\<lparr>cache := demo_disk_cache\<lparr>bdata := (\<lambda>_ _. 0)\<rparr>\<rparr>\<rparr>"

lemma demo_dirty_disk:
  "cache_inv (cache (krn demo_dirty_disk))" "mountable 0x301 1 demo_dirty_disk" "in_memory (krn demo_dirty_disk) 0x301 1"
  "load16 (block_image (krn demo_dirty_disk) 0x301 1) 16 \<noteq> SUPER_MAGIC"
proof -
  have c: "cache (krn demo_dirty_disk) = demo_disk_cache\<lparr>bdata := (\<lambda>_ _. 0)\<rparr>" by (simp add: demo_dirty_disk_def)
  show "cache_inv (cache (krn demo_dirty_disk))" by (simp add: c cache_inv_data demo_disk_inv)
  show "mountable 0x301 1 demo_dirty_disk" using demo_disk_mountable by (simp add: mountable_def demo_dirty_disk_def)
  have m: "cmap (cache (krn demo_dirty_disk)) (0x301, 1) = Some 1"
    using demo_disk_cmap [of 1] unfolding c by (simp add: cmap_def)
  then show "in_memory (krn demo_dirty_disk) 0x301 1"
    by (simp add: in_memory_def c demo_disk_cache_def demo_disk_head_def blank_head_def)
  show "load16 (block_image (krn demo_dirty_disk) 0x301 1) 16 \<noteq> SUPER_MAGIC"
    using m by (simp add: block_image_def c load16_def)
qed

end
