(* ===== verification/Fs_Safe.thy ===== *)
theory Fs_Safe
  imports Buffer_Safe Dir Inode_Inv
begin

text \<open>
  The operations of the file system keep the invariants of the whole kernel: those of the cache and the driver
  below, and of the table of inodes, whatever the disk answers and whichever way the operations return.
\<close>

section \<open>The invariants\<close>

text \<open>No device is mounted twice, and no super block or inode is locked.\<close>

definition unique_supers :: "fsys \<Rightarrow> bool" where
  "unique_supers s \<longleftrightarrow> (\<forall>p q. 1 \<le> p \<and> p \<le> NR_SUPER \<and> 1 \<le> q \<and> q \<le> NR_SUPER \<and>
     s_dev (super_block_list s p) = s_dev (super_block_list s q) \<and> s_dev (super_block_list s p) \<noteq> 0 \<longrightarrow> p = q)"

definition unlocked :: "fsys \<Rightarrow> bool" where
  "unlocked s \<longleftrightarrow> (\<forall>p. i_lock (inode_list s p) = 0) \<and> (\<forall>p. s_lock (super_block_list s p) = 0)"

text \<open>Locks are only released and devices only given up.\<close>

definition eased :: "fsys \<Rightarrow> fsys \<Rightarrow> bool" where
  "eased s t \<longleftrightarrow> (\<forall>p. i_lock (inode_list t p) = i_lock (inode_list s p) \<or> i_lock (inode_list t p) = 0) \<and>
     (\<forall>p. s_lock (super_block_list t p) = s_lock (super_block_list s p) \<or> s_lock (super_block_list t p) = 0) \<and>
     (\<forall>p. s_dev (super_block_list t p) = s_dev (super_block_list s p) \<or> s_dev (super_block_list t p) = 0)"

interpretation eased: kept eased
  by unfold_locales (simp add: eased_def, unfold eased_def, metis)

lemma eased_inv: "eased s t \<Longrightarrow> unique_supers s \<and> unlocked s \<Longrightarrow> unique_supers t \<and> unlocked t"
  unfolding eased_def unique_supers_def unlocked_def by metis

lemma eased_same_tables: "same_tables s t \<Longrightarrow> eased s t"
  by (simp add: same_tables_def eased_def)

definition keeps_kernel :: "fsys \<Rightarrow> fsys \<Rightarrow> bool" where
  "keeps_kernel s t \<longleftrightarrow> (kinv (krn s) \<longrightarrow> kinv (krn t)) \<and> eased s t"

interpretation kernel: kept keeps_kernel
  by unfold_locales (auto simp: keeps_kernel_def eased.refl intro: eased.trans)

definition sys_inv :: "fsys \<Rightarrow> bool" where
  "sys_inv s \<longleftrightarrow> kinv (krn s) \<and> slot (last_inode s) \<and> unique_inodes s \<and> unique_supers s \<and> unlocked s"

definition sound :: "fsys \<Rightarrow> fsys \<Rightarrow> bool" where
  "sound s t \<longleftrightarrow> (sys_inv s \<longrightarrow> sys_inv t)"

interpretation sound: kept sound
  by unfold_locales (auto simp: sound_def)

text \<open>Code that leaves the keys of the table alone.\<close>

lemma sound_keys:
  assumes "keeps keeps_kernel m" "keeps same_keys m" "keeps keeps_last m"
  shows "keeps sound m"
  unfolding keeps_def
proof (intro allI impI)
  fix s r t assume "m s = Inr (r, t)"
  then have R: "keeps_kernel s t" "same_keys s t" "keeps_last s t" "eased s t" using assms by (auto simp: keeps_def keeps_kernel_def)
  show "sound s t"
    using R(1,3) unique_inodes_cong [OF R(2)] eased_inv [OF R(4)] by (auto simp: sound_def sys_inv_def keeps_kernel_def keeps_last_def)
qed

section \<open>The parts\<close>

lemma short_u16 [keep_rules]: "short (ucast (d :: u16))"
  using unat_u16_bound [of d] by (simp add: short_def unsigned_ucast_eq take_bit_eq_mod)

lemma kernel_parts [keep_rules]:
  "(\<And>i. i_lock (f i) = i_lock i \<or> i_lock (f i) = 0) \<Longrightarrow> keeps keeps_kernel (upd_inode p f)"
  "(\<And>b. (s_lock (g b) = s_lock b \<or> s_lock (g b) = 0) \<and> (s_dev (g b) = s_dev b \<or> s_dev (g b) = 0)) \<Longrightarrow> keeps keeps_kernel (upd_super q g)"
  "keeps keeps_kernel next_inode"
  "keeps keeps_kernel (kmod cli)" "keeps keeps_kernel (kmod sti)" "keeps keeps_kernel (fprintk fmt as)"
  "keeps keeps_kernel (upd_data bh ud)" "keeps keeps_kernel (upd_head bh (\<lambda>b. b\<lparr>b_dirt := v\<rparr>))"
  "keeps keeps_kernel (upd_head bh (\<lambda>b. b\<lparr>b_uptodate := w, b_dirt := v\<rparr>))"
  by (auto simp: keeps_def keeps_kernel_def eased_def next_inode_def Let_def fprintk_def upd_data_def upd_head_def kinv_fill
      split: if_splits intro!: kinv_upd_bh)

lemma kernel_proc: "(\<And>k l. kinv k \<Longrightarrow> f k = Inr l \<Longrightarrow> kinv l) \<Longrightarrow> keeps keeps_kernel (kproc f)"
  by (auto simp: keeps_def keeps_kernel_def kproc_def bnd_eq_Inr eased_def)

lemma kernel_call: "(\<And>k x l. kinv k \<Longrightarrow> f k = Inr (x, l) \<Longrightarrow> kinv l) \<Longrightarrow> keeps keeps_kernel (kcall f)"
  by (auto simp: keeps_def keeps_kernel_def kcall_def bnd_eq_Inr eased_def)

lemma kernel_calls [keep_rules]:
  "keeps keeps_kernel (kproc (put_buff bh))" "keeps keeps_kernel (kproc (invalidate_buff dev z))"
  "keeps keeps_kernel (kproc (\<lambda>k. spin_until c sti (cli k)))" "keeps keeps_kernel (kproc (sync_dev dev))"
  "short dev \<Longrightarrow> keeps keeps_kernel (kcall (read_buff dev z))" "short dev \<Longrightarrow> keeps keeps_kernel (kcall (get_buff dev z))"
proof -
  show "keeps keeps_kernel (kproc (put_buff bh))" by (rule kernel_proc) (rule put_buff_kinv)
  show "keeps keeps_kernel (kproc (invalidate_buff dev z))" by (rule kernel_proc) (rule invalidate_buff_kinv)
  show "keeps keeps_kernel (kproc (\<lambda>k. spin_until c sti (cli k)))"
    by (rule kernel_proc, erule spin_until_kinv [OF kinv_below(1)])
  show "keeps keeps_kernel (kproc (sync_dev dev))"
    by (rule kernel_proc, drule wp_InrD [OF sync_dev_ok], assumption, simp add: calm_step_def)
  show "short dev \<Longrightarrow> keeps keeps_kernel (kcall (read_buff dev z))"
    by (rule kernel_call, erule read_buff_kinv) (simp_all add: short_def)
  show "short dev \<Longrightarrow> keeps keeps_kernel (kcall (get_buff dev z))"
    by (rule kernel_call, erule get_buff_kinv(1)) (simp_all add: short_def)
qed

lemma unique_same:
  assumes "\<And>q. key_at t q = key_at s q" "\<And>q. i_dev (inode_list t q) = i_dev (inode_list s q)"
  shows "unique_inodes t = unique_inodes s"
  by (simp only: unique_inodes_def assms)

lemma unique_zeroed:
  assumes "unique_inodes s" "inode_list t = (inode_list s)(p := zero_inode)"
  shows "unique_inodes t"
  unfolding unique_inodes_def
proof (intro allI impI)
  fix a b assume ab: "slot a \<and> slot b \<and> key_at t a = key_at t b \<and> i_dev (inode_list t a) \<noteq> 0"
  then have "a \<noteq> p" using assms(2) by (auto simp: zero_inode_def)
  moreover have "b \<noteq> p" using ab assms(2) by (auto simp: zero_inode_def inode_key_def)
  ultimately show "a = b" using ab assms by (simp add: unique_inodes_def)
qed

lemma sound_parts [keep_rules]:
  "(\<And>i. i_dev (f i) = i_dev i \<and> i_num (f i) = i_num i \<and> (i_lock (f i) = i_lock i \<or> i_lock (f i) = 0)) \<Longrightarrow> keeps sound (upd_inode p f)"
  "keeps sound (upd_inode p (\<lambda>_. zero_inode))"
  "(\<And>b. (s_lock (g b) = s_lock b \<or> s_lock (g b) = 0) \<and> (s_dev (g b) = s_dev b \<or> s_dev (g b) = 0)) \<Longrightarrow> keeps sound (upd_super q g)"
proof -
  have e: "keeps keeps_kernel m \<Longrightarrow> (\<And>s r t. m s = Inr (r, t) \<Longrightarrow> unique_inodes s \<Longrightarrow> last_inode t = last_inode s \<and> unique_inodes t) \<Longrightarrow>
      keeps sound m" for m :: "unit fsm"
    using eased_inv by (fastforce simp: keeps_def keeps_kernel_def sound_def sys_inv_def)
  show "keeps sound (upd_inode p f)" if f: "\<And>i. i_dev (f i) = i_dev i \<and> i_num (f i) = i_num i \<and> (i_lock (f i) = i_lock i \<or> i_lock (f i) = 0)"
  proof (rule e)
    have "unique_inodes (s\<lparr>inode_list := (inode_list s)(p := f (inode_list s p))\<rparr>) = unique_inodes s" for s
      by (rule unique_same) (use f in \<open>simp_all add: inode_key_def\<close>)
    then show "upd_inode p f s = Inr (r, t) \<Longrightarrow> unique_inodes s \<Longrightarrow> last_inode t = last_inode s \<and> unique_inodes t" for s r t
      by auto
  qed (intro keep_rules, simp add: f)
  show "keeps sound (upd_inode p (\<lambda>_. zero_inode))"
  proof (rule e)
    show "upd_inode p (\<lambda>_. zero_inode) s = Inr (r, t) \<Longrightarrow> unique_inodes s \<Longrightarrow> last_inode t = last_inode s \<and> unique_inodes t" for s r t
      using unique_zeroed [of s t p] by auto
  qed (intro keep_rules, simp add: zero_inode_def)
  show "keeps sound (upd_super q g)"
    if "\<And>b. (s_lock (g b) = s_lock b \<or> s_lock (g b) = 0) \<and> (s_dev (g b) = s_dev b \<or> s_dev (g b) = 0)"
    by (rule e [OF kernel_parts(2) [OF that]]) (auto simp: unique_inodes_def)
qed

lemma sound_below [keep_rules]:
  "keeps sound (kmod cli)" "keeps sound (kmod sti)" "keeps sound (fprintk fmt as)" "keeps sound (upd_data bh ud)"
  "keeps sound (upd_head bh (\<lambda>b. b\<lparr>b_dirt := v\<rparr>))" "keeps sound (upd_head bh (\<lambda>b. b\<lparr>b_uptodate := w, b_dirt := v\<rparr>))"
  "keeps sound (kproc (put_buff bh))" "keeps sound (kproc (invalidate_buff dev z))"
  "keeps sound (kproc (\<lambda>k. spin_until c sti (cli k)))" "keeps sound (kproc (sync_dev dev))"
  "short dev \<Longrightarrow> keeps sound (kcall (read_buff dev z))" "short dev \<Longrightarrow> keeps sound (kcall (get_buff dev z))"
  by (rule sound_keys; (intro keep_rules)?; assumption?)+

section \<open>Super blocks and bitmaps\<close>

lemma keeps_place [keep_rules]:
  "(\<And>a b c. keeps R (f a b c)) \<Longrightarrow> keeps R g \<Longrightarrow> keeps R h \<Longrightarrow>
   keeps R (case r of Entry_at a b c \<Rightarrow> f a b c | Skip_block \<Rightarrow> g | Stop_scan \<Rightarrow> h)"
  by (cases r) simp_all

lemma find_super_sound [keep_rules]: "keeps keeps_kernel (find_super dev)" "keeps sound (find_super dev)"
proof -
  have "keeps keeps_kernel (super_scan n p dev)" for n p
    by (induction n arbitrary: p; unfold super_scan.simps wait_on_super_def; (intro keep_rules; blast)?)
  then show k: "keeps keeps_kernel (find_super dev)" unfolding find_super_def by (intro keep_rules)
  show "keeps sound (find_super dev)" by (rule sound_keys [OF k]) (rule keep_rules)+
qed

lemma super_sound [keep_rules]:
  "keeps sound (lock_super p)" "keeps sound (unlock_super p)" "keeps sound (put_maps p)" "keeps sound (print_super p)"
proof -
  show "keeps sound (lock_super p)" "keeps sound (put_maps p)" "keeps sound (print_super p)"
    unfolding lock_super_def put_maps_def print_super_def by (intro keep_rules)+
  show "keeps sound (unlock_super p)" unfolding unlock_super_def by (intro keep_rules) simp
qed

lemma read_map_sound [keep_rules]:
  assumes "short dev" "\<And>i bh. keeps sound (store i bh)"
  shows "keeps sound (read_map store dev n i block)"
proof (induction n arbitrary: i block)
  case (Suc n)
  show ?case unfolding read_map.simps by (intro keep_rules assms Suc)
qed (unfold read_map.simps, rule keep_rules)

lemma fill_super_sound [keep_rules]:
  assumes "short dev"
  shows "keeps sound (fill_super p dev)"
proof -
  have g: "get_data bh decode_super s = Inr (x, t) \<Longrightarrow> \<forall>b. s_dev (x b) = s_dev b \<and> s_lock (x b) = s_lock b" for bh s x t
    by (auto simp: get_data_def decode_super_def split: if_splits)
  have i: "keeps sound (set_imap p i bh)" "keeps sound (set_zmap p i bh)" for i bh
    unfolding set_imap_def set_zmap_def by (intro keep_rules, simp)+
  have m: "keeps sound (read_maps p dev)" unfolding read_maps_def by (intro keep_rules i assms) simp_all
  show ?thesis
    unfolding fill_super_def by (rule sound.keep_bind_when [OF g] keep_rules assms m | assumption | simp)+
qed

text \<open>What \<open>find_super\<close> does not find is not mounted.\<close>

lemma super_scan_result:
  assumes "super_scan n p dev s = Inr (r, t)" "1 \<le> p" "\<forall>q. 1 \<le> q \<and> q < p \<longrightarrow> ucast (s_dev (super_block_list s q)) \<noteq> dev" "r = NULL"
  shows "\<forall>q. 1 \<le> q \<and> q \<le> NR_SUPER \<longrightarrow> ucast (s_dev (super_block_list s q)) \<noteq> dev"
  using assms(1-3)
proof (induction n arbitrary: p s)
  case (Suc n)
  consider "p > NR_SUPER" | "p \<le> NR_SUPER" "ucast (s_dev (super_block_list s p)) = dev" | "p \<le> NR_SUPER" "ucast (s_dev (super_block_list s p)) \<noteq> dev"
    by linarith
  then show ?case
  proof cases
    case 2
    then show ?thesis using Suc.prems(1,2) assms(4) by (auto simp: wait_on_super_def kproc_def bnd_eq_Inr)
  next
    case 3
    then show ?thesis using Suc.IH [of "p + 1" s] Suc.prems by (auto simp: less_Suc_eq)
  qed (use Suc.prems in auto)
qed simp

lemma free_super_result: "free_super n p s = Inr (q, t) \<Longrightarrow> t = s"
  by (induction n arbitrary: p) (auto split: if_splits)

lemma mounted_once:
  assumes "sys_inv s" "\<forall>q. 1 \<le> q \<and> q \<le> NR_SUPER \<longrightarrow> ucast (s_dev (super_block_list s q)) \<noteq> dev" "short dev"
    "upd_super p (\<lambda>b. b\<lparr>s_dev := ucast dev, s_isup := NULL, s_imount := NULL, s_time := 0, s_rd_only := 0, s_dirt := 0\<rparr>) s = Inr ((), t)"
  shows "sys_inv t"
proof -
  have d: "(ucast (ucast dev :: u16) :: u32) = dev" using assms(3) by (simp add: short_def ucast_u16_u32)
  have t: "t = s\<lparr>super_block_list := (super_block_list s)(p := (super_block_list s p)\<lparr>s_dev := ucast dev, s_isup := NULL,
      s_imount := NULL, s_time := 0, s_rd_only := 0, s_dirt := 0\<rparr>)\<rparr>" using assms(4) by simp
  have "s_dev (super_block_list s q) \<noteq> ucast dev" if "1 \<le> q" "q \<le> NR_SUPER" for q using assms(2) that d by metis
  then have "unique_supers t" using assms(1) unfolding sys_inv_def unique_supers_def t by (auto split: if_splits) metis+
  then show ?thesis using assms(1) by (simp add: t sys_inv_def unique_inodes_def unlocked_def)
qed

lemma read_super_sound [keep_rules]:
  assumes "short dev"
  shows "keeps sound (read_super dev)"
  unfolding keeps_def
proof (intro allI impI)
  fix s r t assume r: "read_super dev s = Inr (r, t)"
  show "sound s t"
  proof (cases "dev = 0")
    case True
    then show ?thesis using r by (simp add: read_super_def sound_def)
  next
    case dev: False
    then obtain p s1 where f: "find_super dev s = Inr (p, s1)" using r by (auto simp: read_super_def bnd_eq_Inr)
    then have s1: "sound s s1" "same_tables s s1" using find_super_sound(2) keeps_find_super(1) by (auto simp: keeps_def)
    show ?thesis
    proof (cases "p = NULL")
      case False
      then show ?thesis using r dev f s1(1) by (simp add: read_super_def)
    next
      case True
      then have none: "\<forall>q. 1 \<le> q \<and> q \<le> NR_SUPER \<longrightarrow> ucast (s_dev (super_block_list s1 q)) \<noteq> dev"
        using super_scan_result [of 9 1 dev s p s1] f dev s1(2) by (simp add: find_super_def same_tables_def del: super_scan.simps)
      obtain q s2 where q: "free_super NR_SUPER 1 s1 = Inr (q, s2)" using r dev f True by (auto simp: read_super_def bnd_eq_Inr)
      have s2: "s2 = s1" by (rule free_super_result [OF q])
      show ?thesis
      proof (cases "q = NULL")
        case True
        then show ?thesis using r dev f \<open>p = NULL\<close> q s2 s1(1) by (simp add: read_super_def)
      next
        case False
        let ?u = "s1\<lparr>super_block_list := (super_block_list s1)(q := (super_block_list s1 q)\<lparr>s_dev := ucast dev, s_isup := NULL,
            s_imount := NULL, s_time := 0, s_rd_only := 0, s_dirt := 0\<rparr>)\<rparr>"
        have "fill_super q dev ?u = Inr (r, t)" using r dev f True q s2 False by (simp add: read_super_def)
        then have "sound ?u t" using fill_super_sound [OF assms] by (auto simp: keeps_def)
        then show ?thesis using mounted_once [OF _ none assms, of q ?u] s1(1) by (simp add: sound_def)
      qed
    qed
  qed
qed

lemma put_super_sound [keep_rules]: "keeps sound (put_super dev)"
  unfolding put_super_def by (intro keep_rules) simp

lemma map_scan_sound [keep_rules]: "keeps sound (map_scan slots n i bh j)"
proof (induction n arbitrary: i bh j)
  case (Suc n)
  show ?case unfolding map_scan.simps by (intro keep_rules Suc)
qed (unfold map_scan.simps, rule keep_rules)

lemma bitmaps_sound [keep_rules]:
  "keeps sound (add_inode_bitmap dev)" "keeps sound (add_zone_bitmap dev)" "keeps sound (clear_map_bit slots nr m1 m2)"
  "keeps sound (free_inode_bitmap dev k)" "keeps sound (free_zone_bitmap dev z)"
  unfolding add_inode_bitmap_def add_zone_bitmap_def mark_bit_def free_inode_bitmap_def free_zone_bitmap_def clear_map_bit_def
  by (intro keep_rules)+

lemma zones_sound [keep_rules]:
  "keeps sound (delete_block dev z)" "short dev \<Longrightarrow> keeps sound (create_block dev)"
  "short dev \<Longrightarrow> keeps sound (delete_indirecte_block dev z)" "short dev \<Longrightarrow> keeps sound (delete_double_indirecte_block dev z)"
proof -
  show d: "keeps sound (delete_block dev z)" for z unfolding delete_block_def by (intro keep_rules)
  show "short dev \<Longrightarrow> keeps sound (create_block dev)" unfolding create_block_def by (intro keep_rules)
  show i: "short dev \<Longrightarrow> keeps sound (delete_indirecte_block dev z)" for z
    unfolding delete_indirecte_block_def each_entry_def by (intro keep_rules d)
  show "short dev \<Longrightarrow> keeps sound (delete_double_indirecte_block dev z)"
    unfolding delete_double_indirecte_block_def each_entry_def by (intro keep_rules d i)
qed

section \<open>Inodes\<close>

lemma inode_kernel [keep_rules]:
  "keeps keeps_kernel (wait_on_inode p)" "keeps keeps_kernel (sync_inode_to_buff p)"
proof -
  show "keeps keeps_kernel (wait_on_inode p)" unfolding wait_on_inode_def by (intro keep_rules)
  show "keeps keeps_kernel (sync_inode_to_buff p)"
    unfolding sync_inode_to_buff_def lock_inode_def unlock_inode_def by (intro keep_rules) simp_all
qed

lemma inode_sound [keep_rules]:
  "keeps sound (wait_on_inode p)" "keeps sound (sync_inode_to_buff p)" "keeps sound (lock_inode p)" "keeps sound (unlock_inode p)"
proof -
  show "keeps sound (wait_on_inode p)" unfolding wait_on_inode_def by (intro keep_rules)
  show l: "keeps sound (lock_inode p)" unfolding lock_inode_def by (intro keep_rules)
  show u: "keeps sound (unlock_inode p)" unfolding unlock_inode_def by (intro keep_rules) simp
  show "keeps sound (sync_inode_to_buff p)" unfolding sync_inode_to_buff_def by (intro keep_rules l u short_u16) simp
qed

lemma decode_inode_key:
  "i_dev (decode_inode off m i) = i_dev i \<and> i_num (decode_inode off m i) = i_num i \<and> i_lock (decode_inode off m i) = i_lock i"
  by (simp add: decode_inode_def)

lemma read_inode_from_buff_sound [keep_rules]: "keeps sound (read_inode_from_buff p)"
proof -
  have g: "get_data bh (decode_inode off) s = Inr (x, t) \<Longrightarrow> \<forall>i. i_dev (x i) = i_dev i \<and> i_num (x i) = i_num i \<and> i_lock (x i) = i_lock i" for bh off s x t
    by (auto simp: get_data_def decode_inode_key split: if_splits)
  show ?thesis
    unfolding read_inode_from_buff_def by (rule sound.keep_bind_when [OF g] keep_rules short_u16 | assumption | simp)+
qed

lemma sync_all_sound [keep_rules]: "keeps sound sync_all_inodes_to_buff"
  unfolding sync_all_inodes_to_buff_def by (intro keep_rules)

section \<open>The table of inodes\<close>

lemma find_inode_kernel [keep_rules]: "keeps keeps_kernel (find_inode dev nr)"
proof -
  have "keeps keeps_kernel (inode_scan n p dev nr)" for n p dev nr
  proof (induction n arbitrary: p dev nr)
    case (Suc n)
    show ?case unfolding inode_scan.simps by (intro keep_rules Suc)
  qed (unfold inode_scan.simps, rule keep_rules)
  then show ?thesis unfolding find_inode_def by (intro keep_rules)
qed

lemma retain_inode_kernel [keep_rules]: "keeps keeps_kernel (retain_inode dev nr)"
proof -
  have "keeps keeps_kernel (retain_inode_loop n dev nr)" for n dev nr
  proof (induction n arbitrary: dev nr)
    case (Suc n)
    show ?case unfolding retain_inode_loop.simps by (intro keep_rules Suc) simp
  qed (unfold retain_inode_loop.simps, rule keep_rules)
  then show ?thesis unfolding retain_inode_def by (intro keep_rules)
qed

lemma new_inode_kernel [keep_rules]: "keeps keeps_kernel (new_inode dev nr)"
proof -
  have p: "keeps keeps_kernel (pick_inode n best)" for n best
  proof (induction n arbitrary: best)
    case (Suc n)
    show ?case unfolding pick_inode.simps by (intro keep_rules Suc)
  qed (unfold pick_inode.simps, rule keep_rules)
  have c: "keeps keeps_kernel (clean_inode n p)" for n p
  proof (induction n)
    case (Suc n)
    show ?case unfolding clean_inode.simps by (intro keep_rules Suc)
  qed (unfold clean_inode.simps, rule keep_rules)
  show ?thesis unfolding new_inode_def install_inode_def print_inodes_def by (intro keep_rules p c) (simp add: zero_inode_def)
qed

lemma get_inode_kernel: "keeps keeps_kernel (get_inode dev nr)"
proof -
  have "keeps keeps_kernel (get_inode_loop n dev nr)" for n dev nr
  proof (induction n arbitrary: dev nr)
    case (Suc n)
    show ?case unfolding get_inode_loop.simps by (intro keep_rules Suc)
  qed (unfold get_inode_loop.simps, rule keep_rules)
  then show ?thesis unfolding get_inode_def .
qed

lemma get_inode_sound [keep_rules]:
  assumes "short dev" "short nr"
  shows "keeps sound (get_inode dev nr)"
  unfolding keeps_def
proof (intro allI impI)
  fix s r t assume r: "get_inode dev nr s = Inr (r, t)"
  show "sound s t"
    using get_inode_kernel [of dev nr] eased_inv [of s t] wp_InrD [OF get_inode_keeps [OF _ assms] r] r
    by (auto simp: sound_def sys_inv_def keeps_def keeps_kernel_def)
qed

lemma new_inode_sound [keep_rules]:
  assumes "short dev" "short nr"
  shows "keeps sound (new_inode dev nr)"
  unfolding keeps_def
proof (intro allI impI)
  fix s r t assume r: "new_inode dev nr s = Inr (r, t)"
  have "unique_inodes t" if "slot (last_inode s)" "unique_inodes s"
    using new_inode_result [OF that(1) assms r] unique_inodes_cong [of s t] renewed_unique [OF that(2)] that(2)
    by (auto split: if_splits)
  then show "sound s t"
    using keeps_last_new_inode [of dev nr] new_inode_kernel [of dev nr] eased_inv [of s t] r
    by (auto simp: sound_def sys_inv_def keeps_def keeps_kernel_def keeps_last_def)
qed

lemma read_inode_sound [keep_rules]: "short dev \<Longrightarrow> short nr \<Longrightarrow> keeps sound (read_inode dev nr)"
  unfolding read_inode_def by (intro keep_rules)

lemma add_inode_bitmap_short: "add_inode_bitmap dev s = Inr (n, t) \<Longrightarrow> n < 65536"
  using unat_u16_bound
  by (auto simp: add_inode_bitmap_def bnd_eq_Inr Let_def not_less split: if_splits option.splits prod.splits intro: le_less_trans)

lemma create_inode_sound [keep_rules]:
  assumes "short dev"
  shows "keeps sound (create_inode dev)"
proof -
  have n: "n < 65536 \<Longrightarrow> short (of_nat n)" for n by (simp add: short_def unat_of_nat)
  show ?thesis unfolding create_inode_def
    by (rule sound.keep_bind_when [OF add_inode_bitmap_short], assumption) (intro keep_rules assms n | simp)+
qed

lemma delete_inode_sound [keep_rules]: "keeps sound (delete_inode p)"
  unfolding delete_inode_def by (intro keep_rules)

lemma truncate_inode_sound [keep_rules]: "keeps sound (truncate_inode p)"
  unfolding truncate_inode_def by (intro keep_rules) simp_all

lemma put_inode_sound [keep_rules]: "keeps sound (put_inode p)"
proof -
  have "keeps sound (put_inode_loop n p)" for n
  proof (induction n)
    case (Suc n)
    show ?case unfolding put_inode_loop.simps by (intro keep_rules Suc) simp
  qed (unfold put_inode_loop.simps, rule keep_rules)
  then show ?thesis unfolding put_inode_def by (intro keep_rules)
qed

section \<open>Files and directories\<close>

lemma sound_file [keep_rules]:
  "keeps sound (zone_slot p k create)" "keeps sound (table_entry p z k create)" "keeps sound (locate_by_inode p block create)"
proof -
  show z: "keeps sound (zone_slot p k create)" for k unfolding zone_slot_def by (intro keep_rules) simp_all
  show t: "keeps sound (table_entry p z k create)" for z k unfolding table_entry_def by (intro keep_rules)
  show "keeps sound (locate_by_inode p block create)" unfolding locate_by_inode_def by (intro keep_rules z t)
qed

lemma dir_block_sound [keep_rules]: "keeps sound (dir_block p i de bh create)"
  unfolding dir_block_def by (intro keep_rules)

lemma dir_scan_sound [keep_rules]: "keeps sound (dir_scan n p entries i de bh name len)"
proof (induction n arbitrary: i de bh)
  case (Suc n)
  show ?case unfolding dir_scan.simps by (intro keep_rules Suc)
qed (unfold dir_scan.simps, rule keep_rules)

lemma retain_inode_by_name_sound [keep_rules]: "keeps sound (retain_inode_by_name p name len)"
  unfolding retain_inode_by_name_def cross_parent_def by (intro keep_rules) simp_all

lemma path_sound [keep_rules]: "keeps sound (retain_inode_by_path p path)"
proof -
  have "keeps sound (path_loop p q rest this n)" for q rest this n
  proof (induction rest arbitrary: q this n)
    case (Cons c rest)
    show ?case unfolding path_loop.simps by (intro keep_rules Cons)
  qed (unfold path_loop.simps, rule keep_rules)
  then show ?thesis unfolding retain_inode_by_path_def by (intro keep_rules) simp_all
qed

lemma create_entry_sound [keep_rules]: "keeps sound (create_entry p i off bh name len)"
  unfolding create_entry_def by (intro keep_rules) simp_all

lemma create_scan_sound [keep_rules]: "keeps sound (create_scan n p i de bh name len)"
proof (induction n arbitrary: i de bh)
  case (Suc n)
  show ?case unfolding create_scan.simps by (intro keep_rules Suc)
qed (unfold create_scan.simps, rule keep_rules)

lemma create_inode_by_name_sound [keep_rules]: "keeps sound (create_inode_by_name p name len)"
  unfolding create_inode_by_name_def by (intro keep_rules)

end
