(* ===== verification/Fs_Machine.thy ===== *)
theory Fs_Machine
  imports Fs_Safe Setup
begin

text \<open>
  The kernel as a transition system: after \<open>sys_setup\<close>, the operations of the file system and of the block layer
  are called one after the other and interrupts arrive in between, with any answers of the disk. The invariants
  of the cache, of the driver and of the tables of super blocks and inodes hold in every reachable state.
\<close>

section \<open>Set-up\<close>

text \<open>The state in which \<open>sys_setup\<close> is called: both tables are empty.\<close>

definition fresh :: "fsys \<Rightarrow> bool" where
  "fresh s \<longleftrightarrow> powered_on (krn s) \<and> inode_list s = (\<lambda>_. zero_inode) \<and> super_block_list s = (\<lambda>_. zero_super) \<and> last_inode s = 1"

lemma init_blk_sys_inv:
  assumes "fresh s" "start + SIZEOF_BUFFER_HEAD + BLOCK_SIZE \<le> 2 * 1024 * 1024" "good_table mem addr len"
    "init_blk start mem flags addr len (krn s) = Inr k"
  shows "sys_inv (s\<lparr>krn := k\<rparr>)"
proof -
  have "powered_on (krn s)" using assms(1) by (simp add: fresh_def)
  then have "kinv k" using wp_InrD [OF init_blk_ok assms(4)] assms(2,3) by blast
  then show ?thesis using assms(1) by (simp add: sys_inv_def fresh_def slot_def unique_inodes_def unique_supers_def unlocked_def zero_inode_def zero_super_def)
qed

lemma count_free_sound [keep_rules]: "keeps sound (count_free n slots free)"
proof (induction n arbitrary: free)
  case (Suc n)
  show ?case unfolding count_free.simps by (intro keep_rules Suc)
qed (unfold count_free.simps, rule keep_rules)

lemma root_short [keep_rules]: "short ROOT_DEV" "short ROOT_INO"
  by (simp_all add: short_def)

lemma mount_root_sound [keep_rules]: "keeps sound mount_root"
  unfolding mount_root_def by (intro keep_rules) simp_all

section \<open>The transition system\<close>

inductive fs_step :: "fsys \<Rightarrow> fsys \<Rightarrow> bool" where
  fs_block: "block_step (krn s) k \<Longrightarrow> fs_step s (s\<lparr>krn := k\<rparr>)"
| fs_cli: "fs_step s (s\<lparr>krn := cli (krn s)\<rparr>)"
| fs_sti: "fs_step s (s\<lparr>krn := sti (krn s)\<rparr>)"
| fs_printk: "fs_step s (s\<lparr>krn := printk fmt as (krn s)\<rparr>)"
| fs_mount_root: "mount_root s = Inr ((), t) \<Longrightarrow> fs_step s t"
| fs_read_super: "short dev \<Longrightarrow> read_super dev s = Inr (p, t) \<Longrightarrow> fs_step s t"
| fs_put_super: "put_super dev s = Inr ((), t) \<Longrightarrow> fs_step s t"
| fs_read_inode: "short dev \<Longrightarrow> short nr \<Longrightarrow> read_inode dev nr s = Inr (p, t) \<Longrightarrow> fs_step s t"
| fs_create_inode: "short dev \<Longrightarrow> create_inode dev s = Inr (p, t) \<Longrightarrow> fs_step s t"
| fs_put_inode: "put_inode p s = Inr ((), t) \<Longrightarrow> fs_step s t"
| fs_delete_inode: "delete_inode p s = Inr ((), t) \<Longrightarrow> fs_step s t"
| fs_truncate_inode: "truncate_inode p s = Inr ((), t) \<Longrightarrow> fs_step s t"
| fs_sync_inodes: "sync_all_inodes_to_buff s = Inr ((), t) \<Longrightarrow> fs_step s t"
| fs_locate: "locate_by_inode p block create s = Inr (z, t) \<Longrightarrow> fs_step s t"
| fs_lookup: "retain_inode_by_name p name len s = Inr (r, t) \<Longrightarrow> fs_step s t"
| fs_create: "create_inode_by_name p name len s = Inr (q, t) \<Longrightarrow> fs_step s t"
| fs_path: "retain_inode_by_path p path s = Inr (q, t) \<Longrightarrow> fs_step s t"
| fs_test: "test_inode s = Inr ((), t) \<Longrightarrow> fs_step s t"

inductive_cases fs_stepE: "fs_step s t"

inductive fs_reachable :: "fsys \<Rightarrow> bool" where
  fs_booted: "fresh s \<Longrightarrow> start + SIZEOF_BUFFER_HEAD + BLOCK_SIZE \<le> 2 * 1024 * 1024 \<Longrightarrow> good_table mem addr len \<Longrightarrow>
     init_blk start mem flags addr len (krn s) = Inr k \<Longrightarrow> fs_reachable (s\<lparr>krn := k\<rparr>)"
| fs_stepped: "fs_reachable s \<Longrightarrow> fs_step s t \<Longrightarrow> fs_reachable t"

lemma test_inode_sound: "keeps sound test_inode"
proof -
  have "short 0x301" "short 1" by (simp_all add: short_def)
  then show ?thesis unfolding test_inode_def by (intro keep_rules)
qed

lemma sound_run: "keeps sound m \<Longrightarrow> m s = Inr (r, t) \<Longrightarrow> sys_inv s \<Longrightarrow> sys_inv t"
  by (auto simp: keeps_def sound_def)

lemma sys_inv_krn: "sys_inv s \<Longrightarrow> kinv k \<Longrightarrow> sys_inv (s\<lparr>krn := k\<rparr>)"
  unfolding sys_inv_def unique_inodes_def unique_supers_def unlocked_def by (auto simp del: One_nat_def)

lemma fs_step_sys_inv: "fs_step s t \<Longrightarrow> sys_inv s \<Longrightarrow> sys_inv t"
proof (induction rule: fs_step.induct)
  case (fs_block s k)
  then show ?case using block_step_kinv sys_inv_krn [of s k] by (auto simp: sys_inv_def)
next
  case (fs_cli s)
  then show ?case by (intro sys_inv_krn) (simp_all add: sys_inv_def)
next
  case (fs_sti s)
  then show ?case by (intro sys_inv_krn) (simp_all add: sys_inv_def)
next
  case (fs_printk s fmt as)
  then show ?case by (intro sys_inv_krn) (simp_all add: sys_inv_def)
qed (erule sound_run [rotated], assumption, (intro keep_rules test_inode_sound; assumption))+

lemma fs_reachable_sys_inv: "fs_reachable s \<Longrightarrow> sys_inv s"
proof (induction rule: fs_reachable.induct)
  case (fs_booted s start mem addr len flags k)
  then show ?case by (rule init_blk_sys_inv)
next
  case (fs_stepped s t)
  then show ?case using fs_step_sys_inv by blast
qed

text \<open>The locks of inodes and super blocks are therefore always free.\<close>

lemma unlocked_locks:
  assumes "unlocked s"
  shows "lock_inode p s = Inr ((), s\<lparr>krn := sti (cli (krn s))\<rparr>)" "lock_super p s = Inr ((), s\<lparr>krn := sti (cli (krn s))\<rparr>)"
  using assms by (simp_all add: unlocked_def lock_inode_def lock_super_def)

text \<open>What \<open>sys_setup\<close> returns with is reachable.\<close>

lemma sys_setup_reachable:
  assumes "fresh s" "start + SIZEOF_BUFFER_HEAD + BLOCK_SIZE \<le> 2 * 1024 * 1024" "good_table mem addr len"
    "sys_setup start mem flags addr len s = Inr ((), t)"
  shows "fs_reachable t"
proof -
  obtain k where k: "init_blk start mem flags addr len (krn s) = Inr k" "mount_root (s\<lparr>krn := k\<rparr>) = Inr ((), t)"
    using assms(4) by (auto simp: sys_setup_def kproc_def bnd_eq_Inr)
  show ?thesis by (rule fs_stepped [OF fs_booted [OF assms(1-3) k(1)] fs_mount_root [OF k(2)]])
qed

end
