(* ===== verification/Kmain.thy ===== *)
theory Kmain
  imports Fs_Machine Desc Screen
begin

text \<open>
  \<open>src/kernel.c\<close>: \<open>kmain\<close> composes the initialisation of the tables, the console, the interrupts and the file
  system. If the boot loader gives no memory map it panics, because \<open>init_blk\<close> then does not look for the disk, even if
  the loader announces drives; and where it gets to its last loop, the system is in a state in which the invariants hold.
\<close>

section \<open>\<open>kmain\<close>\<close>

text \<open>The whole machine. The kernel state is that of \<open>files\<close>; the console has a copy while its routines run.\<close>

record machine =
  tabs :: tables
  console :: screen
  files :: fsys

abbreviation MULTIBOOT_BOOTLOADER_MAGIC :: u32 where
  "MULTIBOOT_BOOTLOADER_MAGIC \<equiv> 0x2BADB002"

text \<open>The result is the state in which the last loop starts, which does nothing but serve interrupts.\<close>

definition kmain ::
  "(nat \<Rightarrow> u32) \<Rightarrow> (nat \<Rightarrow> u32) \<Rightarrow> u32 \<Rightarrow> nat \<Rightarrow> mem \<Rightarrow> u32 \<Rightarrow> u32 \<Rightarrow> u32 \<Rightarrow> machine \<Rightarrow> machine kres" where
  "kmain isr irq magic start mem flags drives_addr drives_length m =
     (if magic \<noteq> MULTIBOOT_BOOTLOADER_MAGIC
      then Inr (m\<lparr>files := (files m)\<lparr>krn := printk (''Invalid magic number: 0x%x'' @ NL) [ArgI magic] (krn (files m))\<rparr>\<rparr>)
      else let t1 = gdt_install (tabs m);
               t2 = idt_install t1;
               c = init_video ((console m)\<lparr>kern := krn (files m)\<rparr>);
               t3 = isrs_install isr t2;
               (t4, k1) = irq_install irq (t3, kern c);
               k2 = timer_install k1
           in bnd (sys_setup start mem flags drives_addr drives_length ((files m)\<lparr>krn := k2\<rparr>)) (\<lambda>(_, s1).
              bnd (test_inode s1) (\<lambda>(_, s2).
              let k3 = sti (krn s2);
                  k4 = printk (''EgGS:hello there!'' @ NL) [] k3
              in Inr \<lparr>tabs = t4, console = c, files = s2\<lparr>krn := k4\<rparr>\<rparr>)))"

section \<open>Before \<open>sys_setup\<close>\<close>

lemma outb_hw: "\<exists>h. outb v p s = s\<lparr>hw := h\<rparr>"
  by (auto simp: outb_def)

lemma init_video_kern: "\<exists>h. kern (init_video s) = (kern s)\<lparr>hw := h\<rparr>"
  by (auto simp: init_video_def cls_def Let_def move_csr_def outb_scr_def outb_def)

lemma init_video_on_screen: "on_screen (init_video s)"
  by (simp add: init_video_def cls_def Let_def move_csr_def outb_scr_def on_screen_def)

lemma irq_remap_hw: "\<exists>h. irq_remap s = s\<lparr>hw := h\<rparr>"
  by (auto simp: irq_remap_def outb_def)

lemma powered_on_ready:
  assumes "powered_on (krn s)"
  shows "powered_on (timer_install (irq_remap (kern (init_video (c\<lparr>kern := krn s\<rparr>)))))"
proof -
  obtain h h' where "irq_remap (kern (init_video (c\<lparr>kern := krn s\<rparr>))) = (krn s)\<lparr>hw := h\<rparr>\<lparr>hw := h'\<rparr>"
    using init_video_kern [of "c\<lparr>kern := krn s\<rparr>"] irq_remap_hw by (metis screen.select_convs(6) screen.surjective screen.update_convs(6))
  then show ?thesis using assms by (auto simp: powered_on_def timer_install_def irq_install_handler_def irqs_ok_def)
qed

section \<open>Without a disk driver\<close>

text \<open>A cache in which no buffer is used, and no driver for the disk.\<close>

definition unused_cache :: "kst \<Rightarrow> bool" where
  "unused_cache s \<longleftrightarrow> cache_inv (cache s) \<and> 1 \<le> NR_BUFFERS (cache s) \<and> (\<forall>m. \<not> request_fn (drv s) m) \<and>
     (\<forall>p \<in> buffers (cache s). b_dev (bh_of s p) = 0 \<and> b_lock (bh_of s p) = 0 \<and> b_count (bh_of s p) = 0 \<and> b_dirt (bh_of s p) = 0)"

lemma unused_cache_cmap: "unused_cache s \<Longrightarrow> cmap (cache s) k = None"
  by (auto simp: cmap_None hashed_def unused_cache_def)

lemma get_buff_unused:
  assumes u: "unused_cache s" and dev: "unat dev < 65536"
  obtains p c where "get_buff dev block s = Inr (p, set_cache c (cli s))" "p \<noteq> NULL"
    "same_core c (upd_buf p (reused dev block) (cache s))" "b_lock (bh_of s p) = 0"
proof -
  obtain l ch where q: "queues_ok (cache s) l ch" using u by (auto simp: unused_cache_def cache_inv_def)
  obtain p where p: "scan_free (cache s) (NR_BUFFERS (cache s)) (free_list (cache s)) NULL = Inr p" "is_best (cache s) l p"
    using scan_free_best [OF q] by blast
  have B: "\<forall>x \<in> buffers (cache s). b_lock (bh_of s x) = 0 \<and> b_count (bh_of s x) = 0 \<and> b_dirt (bh_of s x) = 0"
    using u by (simp add: unused_cache_def)
  have l: "set l = buffers (cache s)" "buffers (cache s) \<noteq> {}" using queues_okD(3) [OF q] u by (auto simp: unused_cache_def buffers_def)
  have pn: "p \<noteq> NULL" using p(2) B l by (auto simp: is_best_def split: if_splits)
  have pb: "p \<in> buffers (cache s)" using p(2) pn l by (auto simp: is_best_def)
  have none: "cmap (cache s) (dev, block) = None" by (rule unused_cache_cmap [OF u])
  have nw: "\<And>r. hashed (cache s) r \<Longrightarrow> buf_key (bh_of s r) \<noteq> (dev, block)" using none by (simp add: cmap_None)
  obtain c ch' where c: "reuse_buff p dev block (cache s) = Inr c" "same_core c (upd_buf p (reused dev block) (cache s))"
    using reuse_buff_ok [OF q pb dev nw] by blast
  have find: "find_buff dev block (cache s) = Inr NULL" using find_buff_cmap [OF q] none by simp
  have wait: "wait_on_buff p s = Inr (cli s)" using B pb wait_unlocked by (simp add: cli_def)
  have "new_buff dev block s = Inr (p, set_cache c (cli s))"
    using p(1) pn wait B pb find c(1) by (simp add: new_buff_def numeral_2_eq_2) (simp add: cli_def)
  moreover have "retain_buff dev block s = Inr (NULL, s)" using find by (simp add: retain_buff_def numeral_2_eq_2)
  ultimately have "get_buff dev block s = Inr (p, set_cache c (cli s))" using pn by (simp add: get_buff_def numeral_2_eq_2)
  then show ?thesis using that pn c(2) B pb by blast
qed

lemma read_buff_unused:
  assumes u: "unused_cache s" and dev: "unat dev < 65536"
  shows "\<exists>t. read_buff dev block s = Inr (NULL, t)"
proof -
  obtain p c where g: "get_buff dev block s = Inr (p, set_cache c (cli s))" "p \<noteq> NULL"
    "same_core c (upd_buf p (reused dev block) (cache s))" "b_lock (bh_of s p) = 0"
    using get_buff_unused [OF assms] .
  note C = same_core_fields(1-8) [OF g(3), of p]
  have b: "b_uptodate (bufs c p) = 0" "b_lock (bufs c p) = 0" "b_count (bufs c p) = 1" using C g(4) by (simp_all add: reused_def)
  let ?s = "printk (''Trying to read nonexistent block-device'' @ NLCR) [] (set_cache c (cli s))"
  have "ll_rw_block READ p (set_cache c (cli s)) = Inr ?s" using u by (simp add: ll_rw_block_eq unused_cache_def cli_def set_cache_def)
  moreover have "wait_on_buff p ?s = Inr (cli ?s)" using wait_unlocked [of ?s p] b by (simp add: cli_def printk_def set_cache_def)
  moreover have "wait_on_buff p (cli ?s) = Inr (cli (cli ?s))" using wait_unlocked [of "cli ?s" p] b by (simp add: cli_def printk_def set_cache_def)
  ultimately show ?thesis
    using g(1,2) b by (simp add: read_buff_def put_buff_def) (simp add: cli_def printk_def set_cache_def)
qed

lemma mount_root_unused:
  assumes u: "unused_cache (krn s)" and z: "super_block_list s = (\<lambda>_. zero_super)"
  shows "mount_root s = Inl (Panic ''Unable to mount root'')"
proof -
  obtain s1 where s1: "each [1..<NR_SUPER + 1] (\<lambda>p. upd_super p (\<lambda>b. b\<lparr>s_dev := 0, s_lock := 0\<rparr>)) s = Inr ((), s1)"
    "krn s1 = krn s" "super_block_list s1 = (\<lambda>_. zero_super)"
    using z by (simp add: upt_rec fun_eq_iff zero_super_def)
  have find: "find_super ROOT_DEV s1 = Inr (NULL, s1)"
    using super_scan_none [of s1 ROOT_DEV 1 9] s1(3) by (simp add: find_super_def zero_super_def del: super_scan.simps)
  have free: "free_super NR_SUPER 1 s1 = Inr (1, s1)" by (simp add: s1(3) zero_super_def numeral_eq_Suc)
  let ?b = "zero_super\<lparr>s_dev := ucast ROOT_DEV, s_isup := NULL, s_imount := NULL, s_time := 0, s_rd_only := 0, s_dirt := 0\<rparr>"
  let ?s2 = "s1\<lparr>super_block_list := (super_block_list s1)(1 := ?b)\<rparr>"
  let ?k = "sti (cli (krn s))"
  have "unused_cache ?k" using u by (simp add: unused_cache_def sti_def cli_def)
  then obtain k where k: "read_buff ROOT_DEV 1 ?k = Inr (NULL, k)" using read_buff_unused by fastforce
  have "\<exists>t. fill_super 1 ROOT_DEV ?s2 = Inr (NULL, t)"
    using k s1(2,3) by (auto simp: fill_super_def lock_super_def unlock_super_def kcall_def zero_super_def)
  then obtain t where "read_super ROOT_DEV s1 = Inr (NULL, t)" using find free s1(3) by (auto simp: read_super_def)
  then show ?thesis using s1(1) by (simp add: mount_root_def MAJOR_def del: each.simps)
qed

section \<open>The outcomes\<close>

lemma init_blk_unused:
  assumes "powered_on s" "start + SIZEOF_BUFFER_HEAD + BLOCK_SIZE \<le> 2 * 1024 * 1024" "BLOCK_SIZE \<le> start"
    "flags AND MULTIBOOT_INFO_MEM_MAP = 0"
  shows "\<exists>k. init_blk start mem flags addr len s = Inr k \<and> unused_cache k"
proof -
  have f: "start + SIZEOF_BUFFER_HEAD + BLOCK_SIZE \<le> buffer_top (2 * 1024 * 1024)" "2 * 1024 * 1024 < (2 ^ 31 :: nat)"
    "NR_BUFFERS (cache s) = 0"
    using assms(1,2) by (simp_all add: buffer_top_def powered_on_def)
  obtain c where c: "init_buff start (2 * 1024 * 1024) (cache s) = Inr c" using init_buff_returns [OF f(1,2) assms(3)] by blast
  note I = init_buff_ok [OF f c]
  let ?k = "init_request_queue (set_cache c s)"
  have "cache ?k = c" "request_fn (drv ?k) = request_fn (drv s)"
    by (simp_all add: init_request_queue_def init_requests_proj set_cache_def)
  then have "unused_cache ?k" using I assms(1) by (auto simp: unused_cache_def cache_inv_def powered_on_def)
  then show ?thesis using assms(4) c by (simp add: init_blk_def Let_def)
qed

lemma sys_setup_unused:
  assumes "fresh s" "start + SIZEOF_BUFFER_HEAD + BLOCK_SIZE \<le> 2 * 1024 * 1024" "BLOCK_SIZE \<le> start"
    "flags AND MULTIBOOT_INFO_MEM_MAP = 0"
  shows "sys_setup start mem flags addr len s = Inl (Panic ''Unable to mount root'')"
proof -
  obtain k where k: "init_blk start mem flags addr len (krn s) = Inr k" "unused_cache k"
    using init_blk_unused [OF _ assms(2-4), of "krn s" mem addr len] assms(1) by (auto simp: fresh_def)
  have "mount_root (s\<lparr>krn := k\<rparr>) = Inl (Panic ''Unable to mount root'')"
    by (rule mount_root_unused) (use k(2) assms(1) in \<open>simp_all add: fresh_def\<close>)
  then show ?thesis using k(1) by (simp add: sys_setup_def kproc_def)
qed

text \<open>The run of \<open>kmain\<close> with the right magic number.\<close>

lemma kmain_run:
  fixes m isr irq
  defines "c \<equiv> init_video ((console m)\<lparr>kern := krn (files m)\<rparr>)"
  defines "t \<equiv> fst (install_tables isr irq (tabs m, kern c))" and "s \<equiv> (files m)\<lparr>krn := timer_install (irq_remap (kern c))\<rparr>"
  shows "kmain isr irq MULTIBOOT_BOOTLOADER_MAGIC start mem flags addr len m =
      bnd (sys_setup start mem flags addr len s) (\<lambda>(_, s1). bnd (test_inode s1) (\<lambda>(_, s2).
        Inr \<lparr>tabs = t, console = c, files = s2\<lparr>krn := printk (''EgGS:hello there!'' @ NL) [] (sti (krn s2))\<rparr>\<rparr>))"
    and "fresh (files m) \<Longrightarrow> fresh s"
  using powered_on_ready [of "files m" "console m"]
  by (simp_all add: kmain_def Let_def install_tables_def irq_install_def c_def t_def s_def fresh_def)

lemma kmain_panics:
  assumes "fresh (files m)" "start + SIZEOF_BUFFER_HEAD + BLOCK_SIZE \<le> 2 * 1024 * 1024" "BLOCK_SIZE \<le> start"
    "flags AND MULTIBOOT_INFO_MEM_MAP = 0"
  shows "kmain isr irq MULTIBOOT_BOOTLOADER_MAGIC start mem flags addr len m = Inl (Panic ''Unable to mount root'')"
  using sys_setup_unused [OF kmain_run(2) [OF assms(1)] assms(2-4)] by (simp add: kmain_run(1))

text \<open>
  The state of the last loop: interrupts on, the gates of the 48 vectors present and no other, the cursor on the
  screen and the file system in a reachable state.
\<close>

definition serving :: "(nat \<Rightarrow> u32) \<Rightarrow> (nat \<Rightarrow> u32) \<Rightarrow> machine \<Rightarrow> bool" where
  "serving isr irq m \<longleftrightarrow> fs_reachable (files m) \<and> if_flag (hw (krn (files m))) \<and> on_screen (console m) \<and>
     (\<forall>v < 256. gate_target (idt (tabs m) v) =
        (if v < 32 then Some (0x0E, 0x10, isr v) else if v < 48 then Some (0x0E, 0x10, irq (v - 32)) else None))"

lemma kmain_serving:
  assumes f: "fresh (files m)" and fits: "start + SIZEOF_BUFFER_HEAD + BLOCK_SIZE \<le> 2 * 1024 * 1024" and t: "good_table mem addr len"
    and run: "kmain isr irq MULTIBOOT_BOOTLOADER_MAGIC start mem flags addr len m = Inr m'"
  shows "serving isr irq m'"
proof -
  let ?c = "init_video ((console m)\<lparr>kern := krn (files m)\<rparr>)"
  let ?s = "(files m)\<lparr>krn := timer_install (irq_remap (kern ?c))\<rparr>"
  obtain s1 s2 where s: "sys_setup start mem flags addr len ?s = Inr ((), s1)" "test_inode s1 = Inr ((), s2)"
    and m': "m' = \<lparr>tabs = fst (install_tables isr irq (tabs m, kern ?c)), console = ?c,
      files = s2\<lparr>krn := printk (''EgGS:hello there!'' @ NL) [] (sti (krn s2))\<rparr>\<rparr>"
    using run by (auto simp: kmain_run(1) bnd_eq_Inr simp del: append.simps)
  have "fs_reachable s2"
    by (rule fs_stepped [OF sys_setup_reachable [OF kmain_run(2) [OF f] fits t s(1)] fs_test [OF s(2)]])
  from fs_stepped [OF fs_stepped [OF this fs_sti] fs_printk [of _ "''EgGS:hello there!'' @ NL" "[]"]]
  show ?thesis
    using init_video_on_screen install_tables_gates [of isr irq "(tabs m, kern ?c)"]
    by (simp add: serving_def m') (simp add: printk_def sti_def)
qed

end
