(* ===== verification/Page.thy ===== *)
theory Page
  imports Prelude
begin

text \<open>
  Paging (\<open>src/page.c\<close>, \<open>src/inc/page.h\<close>), which no makefile compiles: the page directory maps itself in its last
  entry, and the code reaches the directory and the tables through that mapping. What the code uses but nothing
  declares is a parameter: the functions \<open>vmm_page_get\<close>, \<open>vmm_page_set\<close> and \<open>vmm_page_val\<close>, the bottom of the page
  stack \<open>PMM_PAGE_STACK\<close>, and the fields of the boot loader's memory map. The variables \<open>pmm_running\<close> and
  \<open>pmm_pos\<close>, which are not declared either, are fields of the state.
\<close>

section \<open>Memory\<close>

text \<open>\<open>phys\<close> has the word at each physical address that is a multiple of 4.\<close>

record pager =
  phys :: "u32 \<Rightarrow> u32"
  cr3 :: u32
  pmm_running :: bool
  pmm_pos :: u32
  pmm_page_stack_max :: u32
  pmm_page_stack_ptr :: u32

abbreviation PAGE_MASK :: u32 where "PAGE_MASK \<equiv> 0xFFFFF000"
abbreviation PAGE_FLAG_MASK :: u32 where "PAGE_FLAG_MASK \<equiv> 0xFFF"
abbreviation PAGE_TABLE_MASK :: u32 where "PAGE_TABLE_MASK \<equiv> 0x003FF000"
abbreviation PAGE_SIZE :: u32 where "PAGE_SIZE \<equiv> 0x1000"
abbreviation PAGE_PRESENT :: u32 where "PAGE_PRESENT \<equiv> 1"
abbreviation PAGE_WRITE :: u32 where "PAGE_WRITE \<equiv> 2"
abbreviation KERNEL_OFFSET :: u32 where "KERNEL_OFFSET \<equiv> 0x00100000"
abbreviation PAGE_TABLES_VADDR :: u32 where "PAGE_TABLES_VADDR \<equiv> 0xFFC00000"
abbreviation PAGE_DIR_VADDR :: u32 where "PAGE_DIR_VADDR \<equiv> 0xFFFFF000"

definition dir_idx :: "u32 \<Rightarrow> u32" where
  "dir_idx vaddr = drop_bit 22 vaddr"

definition table_idx :: "u32 \<Rightarrow> u32" where
  "table_idx vaddr = drop_bit 12 (vaddr AND PAGE_TABLE_MASK)"

text \<open>
  How the processor translates an address, with tables of two levels and pages of 4096 bytes. The translation
  buffer, which the code flushes with \<open>invlpg\<close>, has no counterpart. An access without a translation is a fault.
\<close>

definition dir_entry_at :: "u32 \<Rightarrow> pager \<Rightarrow> u32" where
  "dir_entry_at d s = phys s (cr3 s + 4 * d)"

definition translate :: "u32 \<Rightarrow> pager \<Rightarrow> u32 option" where
  "translate va s =
     (let pde = dir_entry_at (drop_bit 22 va) s;
          pte = phys s ((pde AND PAGE_MASK) + 4 * (drop_bit 12 va AND 0x3FF))
      in if pde AND PAGE_PRESENT = 0 \<or> pte AND PAGE_PRESENT = 0 then None
         else Some ((pte AND PAGE_MASK) OR (va AND 0xFFF)))"

definition load :: "u32 \<Rightarrow> pager \<Rightarrow> u32 kres" where
  "load va s = (case translate va s of None \<Rightarrow> Inl Fault | Some pa \<Rightarrow> Inr (phys s pa))"

definition store :: "u32 \<Rightarrow> u32 \<Rightarrow> pager \<Rightarrow> pager kres" where
  "store va v s = (case translate va s of None \<Rightarrow> Inl Fault | Some pa \<Rightarrow> Inr (s\<lparr>phys := (phys s)(pa := v)\<rparr>))"

text \<open>\<open>memset\<close> with zero from an address that is a multiple of 4, \<open>n\<close> words.\<close>

fun clear_words :: "nat \<Rightarrow> u32 \<Rightarrow> pager \<Rightarrow> pager kres" where
  "clear_words 0 va s = Inr s"
| "clear_words (Suc n) va s = bnd (store va 0 s) (clear_words n (va + 4))"

section \<open>The code\<close>

record vmm =
  vmm_page_get :: "u32 \<Rightarrow> pager \<Rightarrow> u32 kres"
  vmm_page_set :: "u32 \<Rightarrow> u32 \<Rightarrow> pager \<Rightarrow> pager kres"
  vmm_page_val :: "u32 \<Rightarrow> u32 \<Rightarrow> u32"
  PMM_PAGE_STACK :: u32

definition page_get :: "u32 \<Rightarrow> pager \<Rightarrow> u32 kres" where
  "page_get vaddr0 s =
     (let vaddr = vaddr0 AND PAGE_MASK
      in bnd (load (PAGE_DIR_VADDR + 4 * dir_idx vaddr) s) (\<lambda>d.
         if d AND PAGE_PRESENT \<noteq> 0
         then bnd (load (PAGE_TABLES_VADDR + 4 * table_idx vaddr) s) (\<lambda>t.
              if t AND PAGE_PRESENT \<noteq> 0 then load (PAGE_TABLES_VADDR + 4 * table_idx vaddr) s else Inr 0)
         else Inr 0))"

definition pop_free_physical_page :: "vmm \<Rightarrow> pager \<Rightarrow> (u32 \<times> pager) kres" where
  "pop_free_physical_page v s =
     (if \<not> pmm_running s
      then let s1 = s\<lparr>pmm_pos := pmm_pos s + PAGE_SIZE\<rparr> in Inr (pmm_pos s1 - PAGE_SIZE, s1)
      else if pmm_page_stack_ptr s = PMM_PAGE_STACK v then Inl (Panic ''Out of memory!'')
      else let s1 = s\<lparr>pmm_page_stack_ptr := pmm_page_stack_ptr s - 4\<rparr>
           in if pmm_page_stack_ptr s1 \<le> pmm_page_stack_max s1 - PAGE_SIZE
              then let s2 = s1\<lparr>pmm_page_stack_max := pmm_page_stack_max s1 - PAGE_SIZE\<rparr>
                   in bnd (vmm_page_get v (pmm_page_stack_max s2 - PAGE_SIZE) s2) (\<lambda>e.
                      let r = e AND PAGE_MASK
                      in bnd (vmm_page_set v r 0 s2) (\<lambda>s3. Inr (r, s3)))
              else bnd (load (pmm_page_stack_ptr s1) s1) (\<lambda>w. Inr (w, s1)))"

definition page_table_touch :: "vmm \<Rightarrow> u32 \<Rightarrow> u32 \<Rightarrow> pager \<Rightarrow> pager kres" where
  "page_table_touch v vaddr0 flags0 s =
     (let vaddr = vaddr0 AND PAGE_MASK; flags = flags0 AND PAGE_FLAG_MASK
      in bnd (load (PAGE_DIR_VADDR + 4 * dir_idx vaddr) s) (\<lambda>d.
         if d AND PAGE_PRESENT \<noteq> 0 then Inr s
         else bnd (pop_free_physical_page v s) (\<lambda>(page, s1).
              bnd (store (PAGE_DIR_VADDR + 4 * dir_idx vaddr) (page OR flags) s1) (\<lambda>s2.
              clear_words 1024 ((PAGE_TABLES_VADDR + 4 * table_idx vaddr) AND PAGE_MASK) s2))))"

definition page_set :: "vmm \<Rightarrow> u32 \<Rightarrow> u32 \<Rightarrow> pager \<Rightarrow> pager kres" where
  "page_set v vaddr0 val s =
     (let vaddr = vaddr0 AND PAGE_MASK
      in bnd (page_table_touch v vaddr (val AND PAGE_FLAG_MASK) s)
           (store (PAGE_TABLES_VADDR + 4 * table_idx vaddr) val))"

definition pmm_free_page :: "vmm \<Rightarrow> u32 \<Rightarrow> pager \<Rightarrow> pager kres" where
  "pmm_free_page v page0 s =
     (let page = page0 AND PAGE_MASK
      in if page < pmm_pos s then Inr s
         else if pmm_page_stack_ptr s \<ge> pmm_page_stack_max s
         then bnd (vmm_page_set v (pmm_page_stack_max s) (vmm_page_val v page (PAGE_PRESENT OR PAGE_WRITE)) s) (\<lambda>s1.
              Inr (s1\<lparr>pmm_page_stack_max := pmm_page_stack_max s1 + PAGE_SIZE, pmm_running := True\<rparr>))
         else bnd (store (pmm_page_stack_ptr s) page s) (\<lambda>s1.
              Inr (s1\<lparr>pmm_page_stack_ptr := pmm_page_stack_ptr s1 + 4, pmm_running := True\<rparr>)))"

text \<open>
  \<open>pmm_init\<close>, whose two loops may not end: \<open>None\<close> is a run that never returns. The fields of an entry of the memory
  map at an address are the parameter \<open>boot_map\<close>.
\<close>

record boot_map =
  me_free :: "u32 \<Rightarrow> pager \<Rightarrow> bool"
  base_addr_lower :: "u32 \<Rightarrow> pager \<Rightarrow> u32"
  length_lower :: "u32 \<Rightarrow> pager \<Rightarrow> u32"
  me_size :: "u32 \<Rightarrow> pager \<Rightarrow> u32"

partial_function (option) free_range :: "boot_map \<Rightarrow> vmm \<Rightarrow> u32 \<Rightarrow> u32 \<Rightarrow> pager \<Rightarrow> pager kres option" where
  "free_range m v me j s =
     (if j \<le> base_addr_lower m me s + length_lower m me s
      then (case pmm_free_page v j s of Inl e \<Rightarrow> Some (Inl e) | Inr s1 \<Rightarrow> free_range m v me (j + PAGE_SIZE) s1)
      else Some (Inr s))"

definition assert_higher :: "u32 \<Rightarrow> u32" where
  "assert_higher val = (if val > KERNEL_OFFSET then val else val + KERNEL_OFFSET)"

partial_function (option) free_map :: "boot_map \<Rightarrow> vmm \<Rightarrow> u32 \<Rightarrow> u32 \<Rightarrow> pager \<Rightarrow> pager kres option" where
  "free_map m v i end_addr s =
     (if i < end_addr
      then (case (if me_free m i s then free_range m v i (base_addr_lower m i s) s else Some (Inr s)) of
              None \<Rightarrow> None
            | Some r \<Rightarrow> (case r of Inl e \<Rightarrow> Some (Inl e) | Inr s1 \<Rightarrow> free_map m v (i + me_size m i s1 + 4) end_addr s1))
      else Some (Inr s))"

definition pmm_init :: "boot_map \<Rightarrow> vmm \<Rightarrow> u32 \<Rightarrow> u32 \<Rightarrow> u32 \<Rightarrow> pager \<Rightarrow> pager kres option" where
  "pmm_init m v mem_upper mmap_addr mmap_length s =
     free_map m v (assert_higher mmap_addr) (mmap_addr + mmap_length)
       (s\<lparr>pmm_pos := (mem_upper + PAGE_SIZE) AND PAGE_MASK, pmm_running := False\<rparr>)"

section \<open>The recursive mapping\<close>

text \<open>The constants as masks.\<close>

lemma page_masks:
  "(0xFFFFF000 :: u32) = NOT (mask 12)" "(0xFFF :: u32) = mask 12" "(0x3FF :: u32) = mask 10"
  "(0x003FF000 :: u32) = push_bit 12 (mask 10)" "(0xFFC00000 :: u32) = NOT (mask 22)"
  by (simp_all add: mask_eq_exp_minus_1)

lemma plus_disjoint: "(a :: u32) AND b = 0 \<Longrightarrow> a + b = a OR b"
  by (rule disjunctive_add_eq_or)

lemma times4: "4 * (x :: u32) = push_bit 2 x"
  by (simp add: push_bit_eq_mult)

text \<open>An index of a table, and the place of its entry in a page.\<close>

definition index :: "u32 \<Rightarrow> bool" where
  "index i \<longleftrightarrow> take_bit 10 i = i"

lemma index_bit: "index i \<Longrightarrow> bit i n \<Longrightarrow> n < 10"
  by (metis index_def bit_take_bit_iff)

lemma index_idx [simp]: "index (dir_idx v)" "index (table_idx v)" "index (drop_bit 22 (v :: u32))" "index (v AND mask 10)"
proof -
  have "bit v (22 + n) \<Longrightarrow> n < 10" for n using bit_imp_le_length [of v "22 + n"] by simp
  then show "index (dir_idx v)" "index (table_idx v)" "index (drop_bit 22 (v :: u32))" "index (v AND mask 10)"
    by (auto simp: index_def dir_idx_def table_idx_def page_masks intro!: bit_word_eqI simp: bit_simps)
qed

lemma entry_in_page:
  assumes "index i"
  shows "(w AND PAGE_MASK) + 4 * i = (w AND PAGE_MASK) OR push_bit 2 i"
proof -
  have "(w AND NOT (mask 12)) AND push_bit 2 i = 0"
  proof (rule bit_word_eqI)
    fix n :: nat
    show "bit ((w AND NOT (mask 12)) AND push_bit 2 i) n = bit (0 :: u32) n"
      using index_bit [OF assms, of "n - 2"] by (auto simp: bit_simps)
  qed
  then show ?thesis unfolding times4 page_masks by (rule plus_disjoint)
qed

lemma entry_inj:
  assumes "index i" "index j"
  shows "(w AND PAGE_MASK) + 4 * i = (w' AND PAGE_MASK) + 4 * j \<longleftrightarrow> w AND PAGE_MASK = w' AND PAGE_MASK \<and> i = j"
proof
  assume "(w AND PAGE_MASK) + 4 * i = (w' AND PAGE_MASK) + 4 * j"
  then have b: "bit ((w AND NOT (mask 12)) OR push_bit 2 i) n = bit ((w' AND NOT (mask 12)) OR push_bit 2 j) n" for n
    using entry_in_page assms by (simp add: page_masks)
  have "w AND NOT (mask 12) = w' AND NOT (mask 12)"
  proof (rule bit_word_eqI)
    fix n :: nat
    show "bit (w AND NOT (mask 12)) n = bit (w' AND NOT (mask 12)) n"
      using b [of n] index_bit [OF assms(1), of "n - 2"] index_bit [OF assms(2), of "n - 2"] by (auto simp: bit_simps)
  qed
  moreover have "i = j"
  proof (rule bit_word_eqI)
    fix n :: nat assume "n < LENGTH(32)"
    show "bit i n = bit j n"
      using b [of "n + 2"] index_bit [OF assms(1), of n] index_bit [OF assms(2), of n] by (auto simp: bit_simps)
  qed
  ultimately show "w AND PAGE_MASK = w' AND PAGE_MASK \<and> i = j" by (simp add: page_masks)
qed simp

abbreviation frame :: "u32 \<Rightarrow> u32" where
  "frame e \<equiv> e AND PAGE_MASK"

text \<open>
  The directory maps itself, the first 4 MB have a table, and no other directory entry leads to that table.
\<close>

definition recursive :: "pager \<Rightarrow> bool" where
  "recursive s \<longleftrightarrow> frame (cr3 s) = cr3 s \<and>
     dir_entry_at 0x3FF s AND PAGE_PRESENT \<noteq> 0 \<and> frame (dir_entry_at 0x3FF s) = cr3 s \<and>
     dir_entry_at 0 s AND PAGE_PRESENT \<noteq> 0 \<and>
     (\<forall>d. index d \<and> d \<noteq> 0 \<and> dir_entry_at d s AND PAGE_PRESENT \<noteq> 0 \<longrightarrow> frame (dir_entry_at d s) \<noteq> frame (dir_entry_at 0 s))"

lemma dir_vaddr:
  assumes "index d"
  shows "drop_bit 22 (PAGE_DIR_VADDR + 4 * d) = 0x3FF" "drop_bit 12 (PAGE_DIR_VADDR + 4 * d) AND 0x3FF = 0x3FF"
    "(PAGE_DIR_VADDR + 4 * d) AND 0xFFF = push_bit 2 d"
proof -
  have "PAGE_DIR_VADDR + 4 * d = PAGE_DIR_VADDR OR push_bit 2 d" using entry_in_page [OF assms, of PAGE_DIR_VADDR] by simp
  then have a: "PAGE_DIR_VADDR + 4 * d = NOT (mask 12) OR push_bit 2 d" by (simp only: page_masks)
  have "bit d (n - 2) \<Longrightarrow> n < 12" "bit d (10 + n) \<Longrightarrow> False" for n using index_bit [OF assms, of "n - 2"] index_bit [OF assms, of "10 + n"] by simp_all
  then show "drop_bit 22 (PAGE_DIR_VADDR + 4 * d) = 0x3FF" "drop_bit 12 (PAGE_DIR_VADDR + 4 * d) AND 0x3FF = 0x3FF"
    "(PAGE_DIR_VADDR + 4 * d) AND 0xFFF = push_bit 2 d"
    unfolding a by (auto simp: page_masks bit_simps intro!: bit_word_eqI)
qed

lemma table_vaddr:
  assumes "index j"
  shows "drop_bit 22 (PAGE_TABLES_VADDR + 4 * j) = 0x3FF" "drop_bit 12 (PAGE_TABLES_VADDR + 4 * j) AND 0x3FF = 0"
    "(PAGE_TABLES_VADDR + 4 * j) AND 0xFFF = push_bit 2 j"
proof -
  have "PAGE_TABLES_VADDR + 4 * j = PAGE_TABLES_VADDR OR push_bit 2 j" using entry_in_page [OF assms, of PAGE_TABLES_VADDR] by simp
  then have a: "PAGE_TABLES_VADDR + 4 * j = NOT (mask 22) OR push_bit 2 j" by (simp only: page_masks)
  have "bit j (n - 2) \<Longrightarrow> n < 12" "bit j (10 + n) \<Longrightarrow> False" for n using index_bit [OF assms, of "n - 2"] index_bit [OF assms, of "10 + n"] by simp_all
  then show "drop_bit 22 (PAGE_TABLES_VADDR + 4 * j) = 0x3FF" "drop_bit 12 (PAGE_TABLES_VADDR + 4 * j) AND 0x3FF = 0"
    "(PAGE_TABLES_VADDR + 4 * j) AND 0xFFF = push_bit 2 j"
    unfolding a by (auto simp: page_masks bit_simps intro!: bit_word_eqI)
qed

lemma page_dir_slot:
  assumes "recursive s" "index d"
  shows "translate (PAGE_DIR_VADDR + 4 * d) s = Some (cr3 s + 4 * d)"
proof -
  have "translate (PAGE_DIR_VADDR + 4 * d) s = Some (frame (cr3 s) OR push_bit 2 d)"
    using assms(1) unfolding translate_def dir_vaddr [OF assms(2)] Let_def recursive_def by (simp add: dir_entry_at_def)
  then show ?thesis using entry_in_page [OF assms(2), of "cr3 s"] assms(1) by (simp add: recursive_def)
qed

lemma page_table_slot:
  assumes "recursive s" "index j"
  shows "translate (PAGE_TABLES_VADDR + 4 * j) s = Some (frame (dir_entry_at 0 s) + 4 * j)"
proof -
  have "translate (PAGE_TABLES_VADDR + 4 * j) s = Some (frame (dir_entry_at 0 s) OR push_bit 2 j)"
    using assms(1) unfolding translate_def table_vaddr [OF assms(2)] Let_def recursive_def by (simp add: dir_entry_at_def)
  then show ?thesis using entry_in_page [OF assms(2)] by simp
qed

section \<open>\<open>page_set\<close> with a table in place\<close>

lemma translate_table0:
  fixes val :: u32
  assumes r: "recursive s" and j: "index j"
  defines "t \<equiv> s\<lparr>phys := (phys s)(frame (dir_entry_at 0 s) + 4 * j := val)\<rparr>"
  shows "index d \<Longrightarrow> dir_entry_at d t = dir_entry_at d s"
    and "translate va t = (if drop_bit 22 va = 0 \<and> drop_bit 12 va AND 0x3FF = j
       then (if val AND PAGE_PRESENT = 0 then None else Some (frame val OR (va AND 0xFFF))) else translate va s)"
proof -
  have c: "frame (cr3 s) = cr3 s" "frame (cr3 s) \<noteq> frame (dir_entry_at 0 s)"
    using r by (auto simp: recursive_def index_def dest!: spec [of _ "0x3FF"])
  show d: "dir_entry_at d t = dir_entry_at d s" if "index d" for d
    using entry_inj [OF that j, of "cr3 s" "dir_entry_at 0 s"] c by (simp add: dir_entry_at_def t_def)
  let ?d = "drop_bit 22 va" and ?i = "drop_bit 12 va AND 0x3FF"
  have i: "index ?i" by (simp add: page_masks)
  have e: "dir_entry_at ?d t = dir_entry_at ?d s" by (rule d) simp
  show "translate va t = (if ?d = 0 \<and> ?i = j
       then (if val AND PAGE_PRESENT = 0 then None else Some (frame val OR (va AND 0xFFF))) else translate va s)"
  proof (cases "dir_entry_at ?d s AND PAGE_PRESENT = 0")
    case True
    then show ?thesis using e r by (auto simp: translate_def Let_def recursive_def)
  next
    case False
    have "frame (dir_entry_at ?d s) = frame (dir_entry_at 0 s) \<longleftrightarrow> ?d = 0"
      using r False index_idx(3) [of va] unfolding recursive_def by metis
    then have "frame (dir_entry_at ?d s) + 4 * ?i = frame (dir_entry_at 0 s) + 4 * j \<longleftrightarrow> ?d = 0 \<and> ?i = j"
      using entry_inj [OF i j] by simp
    then show ?thesis using e False by (auto simp: translate_def Let_def t_def)
  qed
qed

lemma idx_masked [simp]: "dir_idx (v AND PAGE_MASK) = dir_idx v" "table_idx (v AND PAGE_MASK) = table_idx v"
proof -
  have "bit v (22 + n) \<Longrightarrow> n < 10" for n using bit_imp_le_length [of v "22 + n"] by simp
  then show "dir_idx (v AND PAGE_MASK) = dir_idx v" "table_idx (v AND PAGE_MASK) = table_idx v"
    by (auto simp: dir_idx_def table_idx_def page_masks bit_simps intro!: bit_word_eqI)
qed

lemma recursive_cong:
  assumes "recursive s" "cr3 t = cr3 s" and d: "\<And>d. index d \<Longrightarrow> dir_entry_at d t = dir_entry_at d s"
  shows "recursive t"
proof -
  have "dir_entry_at 0x3FF t = dir_entry_at 0x3FF s" "dir_entry_at 0 t = dir_entry_at 0 s"
    by (rule d, simp add: index_def)+
  then show ?thesis using assms(1,2) d unfolding recursive_def by metis
qed

lemma load_dir: "recursive s \<Longrightarrow> index d \<Longrightarrow> load (PAGE_DIR_VADDR + 4 * d) s = Inr (dir_entry_at d s)"
  by (simp add: load_def page_dir_slot dir_entry_at_def)

text \<open>
  The index of the table entry keeps ten bits of the address only: whatever the directory entry of the address is,
  the entry that is written is one of the first table.
\<close>

lemma page_set_run:
  assumes r: "recursive s" and p: "dir_entry_at (dir_idx vaddr) s AND PAGE_PRESENT \<noteq> 0"
  shows "page_set v vaddr val s =
    Inr (s\<lparr>phys := (phys s)(frame (dir_entry_at 0 s) + 4 * table_idx vaddr := val)\<rparr>)"
proof -
  have "page_table_touch v (vaddr AND PAGE_MASK) (val AND PAGE_FLAG_MASK) s = Inr s"
    using load_dir [OF r index_idx(1)] p by (simp add: page_table_touch_def Let_def and.assoc)
  then show ?thesis using page_table_slot [OF r index_idx(2), of vaddr] by (simp add: page_set_def Let_def store_def)
qed

lemma page_set_translates:
  assumes "recursive s" "dir_entry_at (dir_idx vaddr) s AND PAGE_PRESENT \<noteq> 0"
  shows "\<exists>t. page_set v vaddr val s = Inr t \<and>
    (\<forall>va. translate va t = (if drop_bit 22 va = 0 \<and> drop_bit 12 va AND 0x3FF = table_idx vaddr
       then (if val AND PAGE_PRESENT = 0 then None else Some (frame val OR (va AND 0xFFF))) else translate va s))"
  using page_set_run [OF assms] translate_table0(2) [OF assms(1) index_idx(2)] by blast

text \<open>What \<open>page_get\<close> reads back.\<close>

lemma page_get_set:
  assumes r: "recursive s" and p: "dir_entry_at (dir_idx vaddr) s AND PAGE_PRESENT \<noteq> 0"
    and t: "page_set v vaddr val s = Inr t"
  shows "page_get vaddr t = Inr (if val AND PAGE_PRESENT \<noteq> 0 then val else 0)"
proof -
  have T: "t = s\<lparr>phys := (phys s)(frame (dir_entry_at 0 s) + 4 * table_idx vaddr := val)\<rparr>"
    using page_set_run [OF r p] t by simp
  have d: "\<And>d. index d \<Longrightarrow> dir_entry_at d t = dir_entry_at d s"
    using translate_table0(1) [OF r index_idx(2), of _ vaddr val] by (simp add: T)
  have i: "index 0x3FF" "index 0" by (simp_all add: index_def)
  have "recursive t" by (rule recursive_cong [OF r _ d]) (simp_all add: T)
  from load_dir [OF this index_idx(1)] page_table_slot [OF this index_idx(2)]
  show ?thesis using d [OF i(2)] d [OF index_idx(1)] p by (simp add: page_get_def Let_def load_def T)
qed

section \<open>A missing table\<close>

text \<open>\<open>memset\<close> over the first table.\<close>

lemma clear_table0:
  assumes "recursive s" "i + n \<le> 1024"
  shows "\<exists>t. clear_words n (PAGE_TABLES_VADDR + 4 * of_nat i) s = Inr t \<and> cr3 t = cr3 s \<and>
    (\<forall>d. index d \<longrightarrow> dir_entry_at d t = dir_entry_at d s) \<and> (\<forall>a. phys t a = phys s a \<or> phys t a = 0) \<and>
    (\<forall>k. i \<le> k \<and> k < i + n \<longrightarrow> phys t (frame (dir_entry_at 0 s) + 4 * of_nat k) = 0)"
  using assms
proof (induction n arbitrary: i s)
  case (Suc n)
  have "of_nat i < (1024 :: u32)" using Suc.prems(2) by (simp add: word_less_nat_alt unat_of_nat)
  then have i: "index (of_nat i)" by (simp add: index_def take_bit_eq_mod word_mod_less_divisor mod_word_less)
  let ?u = "s\<lparr>phys := (phys s)(frame (dir_entry_at 0 s) + 4 * of_nat i := 0)\<rparr>"
  have d: "index d \<Longrightarrow> dir_entry_at d ?u = dir_entry_at d s" for d by (rule translate_table0(1) [OF Suc.prems(1) i])
  have u: "recursive ?u" by (rule recursive_cong [OF Suc.prems(1) _ d]) simp_all
  have z: "dir_entry_at 0 ?u = dir_entry_at 0 s" by (rule d) (simp add: index_def)
  obtain t where t: "clear_words n (PAGE_TABLES_VADDR + 4 * of_nat (Suc i)) ?u = Inr t" "cr3 t = cr3 ?u"
    "\<forall>d. index d \<longrightarrow> dir_entry_at d t = dir_entry_at d ?u" "\<forall>a. phys t a = phys ?u a \<or> phys t a = 0"
    "\<forall>k. Suc i \<le> k \<and> k < Suc i + n \<longrightarrow> phys t (frame (dir_entry_at 0 ?u) + 4 * of_nat k) = 0"
    using Suc.IH [OF u, of "Suc i"] Suc.prems(2) by auto
  have "clear_words (Suc n) (PAGE_TABLES_VADDR + 4 * of_nat i) s = Inr t"
    using page_table_slot [OF Suc.prems(1) i] t(1) by (simp add: store_def algebra_simps)
  moreover have "phys t (frame (dir_entry_at 0 s) + 4 * of_nat k) = 0" if "i \<le> k" "k < i + Suc n" for k
  proof (cases "k = i")
    case True
    then show ?thesis using t(4) by (auto dest!: spec [of _ "frame (dir_entry_at 0 s) + 4 * of_nat i"])
  next
    case False
    then show ?thesis using t(5) that z by simp
  qed
  moreover have "phys t a = phys s a \<or> phys t a = 0" for a using t(4) by (auto split: if_splits)
  ultimately show ?case using t(2,3) d by auto
qed auto

lemma touch_missing:
  assumes r: "recursive s" and idle: "\<not> pmm_running s" and fresh: "frame (pmm_pos s) \<noteq> frame (dir_entry_at 0 s)"
    and p: "dir_entry_at (dir_idx vaddr) s AND PAGE_PRESENT = 0"
  shows "\<exists>t. page_table_touch v vaddr flags s = Inr t \<and> recursive t \<and> dir_entry_at 0 t = dir_entry_at 0 s \<and>
    dir_entry_at (dir_idx vaddr) t = pmm_pos s OR (flags AND PAGE_FLAG_MASK) \<and>
    (\<forall>j. index j \<longrightarrow> phys t (frame (dir_entry_at 0 s) + 4 * j) = 0)"
proof -
  let ?d = "dir_idx vaddr" and ?e = "pmm_pos s OR (flags AND PAGE_FLAG_MASK)"
  have n: "?d \<noteq> 0" "?d \<noteq> 0x3FF" using r p by (auto simp: recursive_def)
  define s1 where "s1 = s\<lparr>pmm_pos := pmm_pos s + PAGE_SIZE\<rparr>"
  have r1: "recursive s1" by (rule recursive_cong [OF r]) (simp_all add: s1_def dir_entry_at_def)
  have pop: "pop_free_physical_page v s = Inr (pmm_pos s, s1)" using idle by (simp add: pop_free_physical_page_def s1_def)
  define u where "u = s1\<lparr>phys := (phys s)(cr3 s + 4 * ?d := ?e)\<rparr>"
  have c: "frame (cr3 s) = cr3 s" using r by (simp add: recursive_def)
  have du: "dir_entry_at d u = (if d = ?d then ?e else dir_entry_at d s)" if "index d" for d
    using entry_inj [OF that index_idx(1), of "cr3 s" "cr3 s"] c by (simp add: dir_entry_at_def u_def s1_def)
  have i: "index 0x3FF" "index 0" by (simp_all add: index_def)
  have f: "frame ?e = frame (pmm_pos s)" by (rule bit_word_eqI) (auto simp: page_masks bit_simps)
  have u: "recursive u"
    using r n du [OF i(1)] du [OF i(2)] du fresh f unfolding recursive_def by (auto simp: u_def s1_def)
  have z: "dir_entry_at 0 u = dir_entry_at 0 s" using du [OF i(2)] n by simp
  obtain t where t: "clear_words 1024 PAGE_TABLES_VADDR u = Inr t" "cr3 t = cr3 u"
    "\<forall>d. index d \<longrightarrow> dir_entry_at d t = dir_entry_at d u"
    "\<forall>k. k < 1024 \<longrightarrow> phys t (frame (dir_entry_at 0 u) + 4 * of_nat k) = 0"
    using clear_table0 [OF u, of 0 1024] by auto
  have "(PAGE_TABLES_VADDR + 4 * table_idx vaddr) AND PAGE_MASK = PAGE_TABLES_VADDR"
  proof -
    have "PAGE_TABLES_VADDR + 4 * table_idx vaddr = PAGE_TABLES_VADDR OR push_bit 2 (table_idx vaddr)"
      using entry_in_page [OF index_idx(2), of PAGE_TABLES_VADDR] by simp
    moreover have "bit (table_idx vaddr) (n - 2) \<Longrightarrow> n < 12" for n using index_bit [OF index_idx(2), of vaddr "n - 2"] by simp
    ultimately show ?thesis unfolding page_masks by (auto simp: bit_simps intro!: bit_word_eqI)
  qed
  then have "page_table_touch v vaddr flags s = Inr t"
    using load_dir [OF r index_idx(1)] p pop page_dir_slot [OF r1 index_idx(1)] t(1)
    by (simp add: page_table_touch_def Let_def store_def u_def s1_def)
  moreover have "recursive t" by (rule recursive_cong [OF u t(2)]) (use t(3) in blast)
  moreover have "phys t (frame (dir_entry_at 0 s) + 4 * j) = 0" if "index j" for j
  proof -
    have "j mod 1024 < 1024" by (rule word_mod_less_divisor) simp
    then have "j < 1024" using that by (simp add: index_def take_bit_eq_mod)
    then have "unat j < 1024" by (simp add: word_less_nat_alt)
    then show ?thesis using t(4) [rule_format, of "unat j"] z by simp
  qed
  ultimately show ?thesis using t(3) du index_idx(1) i(2) z by auto
qed

lemma page_set_missing:
  assumes r: "recursive s" and "\<not> pmm_running s" "frame (pmm_pos s) \<noteq> frame (dir_entry_at 0 s)"
    and "dir_entry_at (dir_idx vaddr) s AND PAGE_PRESENT = 0"
  shows "\<exists>t. page_set v vaddr val s = Inr t \<and>
    (\<forall>va. drop_bit 22 va = 0 \<longrightarrow> translate va t =
       (if drop_bit 12 va AND 0x3FF = table_idx vaddr \<and> val AND PAGE_PRESENT \<noteq> 0 then Some (frame val OR (va AND 0xFFF)) else None))"
proof -
  have p: "dir_entry_at (dir_idx (vaddr AND PAGE_MASK)) s AND PAGE_PRESENT = 0" using assms(4) by simp
  obtain u where u: "page_table_touch v (vaddr AND PAGE_MASK) (val AND PAGE_FLAG_MASK) s = Inr u" "recursive u"
    "dir_entry_at 0 u = dir_entry_at 0 s" "\<forall>j. index j \<longrightarrow> phys u (frame (dir_entry_at 0 s) + 4 * j) = 0"
    using touch_missing [OF assms(1-3) p, of v "val AND PAGE_FLAG_MASK"] by blast
  let ?t = "u\<lparr>phys := (phys u)(frame (dir_entry_at 0 u) + 4 * table_idx vaddr := val)\<rparr>"
  have "page_set v vaddr val s = Inr ?t"
    using u(1) page_table_slot [OF u(2) index_idx(2), of vaddr] by (simp add: page_set_def Let_def store_def)
  moreover have "translate va u = None" if "drop_bit 22 va = 0" for va
  proof -
    have "index (drop_bit 12 va AND 0x3FF)" by (simp add: page_masks)
    then show ?thesis using u(3,4) that by (simp add: translate_def Let_def)
  qed
  ultimately show ?thesis using translate_table0(2) [OF u(2) index_idx(2), of _ vaddr val] by auto
qed

text \<open>Both cases.\<close>

definition mapped_to :: "u32 \<Rightarrow> u32 \<Rightarrow> u32 option" where
  "mapped_to val va = (if val AND PAGE_PRESENT = 0 then None else Some (frame val OR (va AND 0xFFF)))"

definition has_table :: "u32 \<Rightarrow> pager \<Rightarrow> bool" where
  "has_table vaddr s \<longleftrightarrow> dir_entry_at (dir_idx vaddr) s AND PAGE_PRESENT \<noteq> 0"

lemma page_set_table0:
  assumes "recursive s" "has_table vaddr s \<or> \<not> pmm_running s \<and> frame (pmm_pos s) \<noteq> frame (dir_entry_at 0 s)"
  shows "\<exists>t. page_set v vaddr val s = Inr t \<and>
    (\<forall>va. dir_idx va = 0 \<longrightarrow> translate va t = (if table_idx va = table_idx vaddr then mapped_to val va
       else if has_table vaddr s then translate va s else None)) \<and>
    (\<forall>va. dir_idx va \<noteq> 0 \<and> has_table vaddr s \<longrightarrow> translate va t = translate va s)"
proof -
  have i: "drop_bit 12 va AND 0x3FF = table_idx va" for va :: u32
    by (auto simp: table_idx_def page_masks bit_simps intro!: bit_word_eqI)
  show ?thesis
  proof (cases "has_table vaddr s")
    case True
    then obtain t where "page_set v vaddr val s = Inr t" "\<forall>va. translate va t = (if drop_bit 22 va = 0 \<and> table_idx va = table_idx vaddr
         then (if val AND PAGE_PRESENT = 0 then None else Some (frame val OR (va AND 0xFFF))) else translate va s)"
      using page_set_translates [OF assms(1), of vaddr v val] unfolding has_table_def i by blast
    then show ?thesis using True by (simp add: mapped_to_def dir_idx_def)
  next
    case False
    then have "dir_entry_at (dir_idx vaddr) s AND PAGE_PRESENT = 0" "\<not> pmm_running s" "frame (pmm_pos s) \<noteq> frame (dir_entry_at 0 s)"
      using assms(2) by (auto simp: has_table_def)
    from page_set_missing [OF assms(1) this(2,3,1), of v val] obtain t where "page_set v vaddr val s = Inr t"
      "\<forall>va. drop_bit 22 va = 0 \<longrightarrow> translate va t =
         (if table_idx va = table_idx vaddr \<and> val AND PAGE_PRESENT \<noteq> 0 then Some (frame val OR (va AND 0xFFF)) else None)"
      unfolding i by blast
    then show ?thesis using False by (simp add: mapped_to_def dir_idx_def)
  qed
qed

section \<open>The page stack\<close>

text \<open>
  The stack of free pages is last in, first out, as long as it neither is full nor falls by a whole page. The
  mapping of the stack must not go through the word that is pushed.
\<close>

lemma free_then_pop:
  assumes "pmm_pos s \<le> page AND PAGE_MASK" "pmm_page_stack_ptr s < pmm_page_stack_max s"
    and "pmm_page_stack_max s - PAGE_SIZE < pmm_page_stack_ptr s" "pmm_page_stack_ptr s + 4 \<noteq> PMM_PAGE_STACK v"
    and "translate (pmm_page_stack_ptr s) s = Some pa"
    and "translate (pmm_page_stack_ptr s) (s\<lparr>phys := (phys s)(pa := page AND PAGE_MASK)\<rparr>) = Some pa"
  shows "\<exists>t u. pmm_free_page v page s = Inr t \<and> pop_free_physical_page v t = Inr (page AND PAGE_MASK, u) \<and>
    pmm_page_stack_ptr u = pmm_page_stack_ptr s \<and> pmm_page_stack_max u = pmm_page_stack_max s"
proof -
  let ?t = "s\<lparr>phys := (phys s)(pa := page AND PAGE_MASK), pmm_page_stack_ptr := pmm_page_stack_ptr s + 4, pmm_running := True\<rparr>"
  have "pmm_free_page v page s = Inr ?t" using assms(1,5) leD [OF assms(1)] assms(2) [unfolded not_le [symmetric]] by (simp add: pmm_free_page_def Let_def store_def)
  moreover have "translate (pmm_page_stack_ptr s) (?t\<lparr>pmm_page_stack_ptr := pmm_page_stack_ptr s\<rparr>) = Some pa"
    using assms(6) by (simp add: translate_def dir_entry_at_def)
  then have "pop_free_physical_page v ?t = Inr (page AND PAGE_MASK, ?t\<lparr>pmm_page_stack_ptr := pmm_page_stack_ptr s\<rparr>)"
    using assms(3) [unfolded not_le [symmetric]] assms(4) by (simp add: pop_free_physical_page_def Let_def load_def)
  ultimately show ?thesis by simp
qed

section \<open>The memory map\<close>

text \<open>
  A range of free memory that reaches into the last page of the address space is freed for ever: the address wraps
  around before it is beyond the end.
\<close>

lemma free_range_endless:
  assumes "free_range m v me j s = Some r"
  shows "(\<forall>s. PAGE_MASK \<le> base_addr_lower m me s + length_lower m me s) \<Longrightarrow> take_bit 12 j = 0 \<Longrightarrow> \<exists>e. r = Inl e"
  using assms
proof (induction rule: free_range.raw_induct [rotated 1, consumes 1, case_names step])
  case (step rec m v me j s r)
  have "j = j AND PAGE_MASK"
  proof (rule bit_word_eqI)
    fix n
    have "\<not> bit (take_bit 12 j) n" using step(4) by simp
    then show "bit j n = bit (j AND PAGE_MASK) n" by (auto simp: page_masks bit_simps dest: bit_imp_le_length)
  qed
  then have "j \<le> PAGE_MASK" by (metis word_and_le1)
  then have go: "j \<le> base_addr_lower m me s + length_lower m me s" using step(3) order_trans by blast
  have m: "unat (take_bit 12 w) = unat w mod 4096" for w :: u32 by (simp only: unsigned_take_bit_eq) (simp add: take_bit_eq_mod)
  have "unat (j + PAGE_SIZE) mod 4096 = (unat j + 4096) mod 4096" by (simp add: unat_word_ariths mod_mod_cancel)
  also have "\<dots> = 0" using m [of j] step(4) by simp
  finally have a: "take_bit 12 (j + PAGE_SIZE) = 0" using m [of "j + PAGE_SIZE"] by (simp add: word_unat_eq_iff)
  show ?case
  proof (cases "pmm_free_page v j s")
    case (Inl e)
    have "r = Inl e" using step(2) go by (simp add: Inl)
    then show ?thesis by blast
  next
    case (Inr s1)
    then show ?thesis using step(1) [OF _ step(3) a] step(2) go by auto
  qed
qed

end
