(* ===== verification/Namei.thy ===== *)
theory Namei
  imports Dir Inode_Inv
begin

text \<open>
  Opening files by name (\<open>src/fs/name2inode.c\<close>), which no makefile compiles. It is written against functions and
  constants that nothing declares (\<open>get_dir\<close>, \<open>find_entry\<close>, \<open>iput\<close>, \<open>brelse\<close>, \<open>iget\<close>, the flags of \<open>open\<close>); they are
  the fields of the parameter \<open>env\<close>.
\<close>

section \<open>What the code uses\<close>

record namei_env =
  get_dir :: "u8 list \<Rightarrow> ptr fsm"
  find_entry :: "ptr \<Rightarrow> u8 list \<Rightarrow> nat \<Rightarrow> (ptr \<times> ptr \<times> nat) fsm"
  iput :: "ptr \<Rightarrow> unit fsm"
  brelse :: "ptr \<Rightarrow> unit fsm"
  iget :: "u32 \<Rightarrow> u32 \<Rightarrow> ptr fsm"
  add_entry :: "ptr \<Rightarrow> u8 list \<Rightarrow> nat \<Rightarrow> ptr fsm"
  umask :: "fsys \<Rightarrow> u32"
  I_REGULAR :: u32
  CURRENT_TIME :: "fsys \<Rightarrow> u32"
  O_ACCMODE :: u32
  O_WRONLY :: u32
  O_CREAT :: u32
  O_EXCL :: u32
  O_TRUNC :: u32

text \<open>\<open>find_entry\<close> returns the directory, which it may change at a mount point, the buffer and the offset of the entry.\<close>

datatype errno = ENOENT | EISDIR | EACCES | EEXIST | EPERM | ENOSPC

datatype open_result = Opened ptr | Failed errno

section \<open>\<open>dir_namei\<close>\<close>

text \<open>The loop: the rest of the path, the rest of the path after the last slash, and the distance between the two.\<close>

fun last_name :: "u8 list \<Rightarrow> u8 list \<Rightarrow> nat \<Rightarrow> u8 list \<times> nat" where
  "last_name [] basename n = (basename, n)"
| "last_name (c # rest) basename n =
     (if c = 0 then (basename, n) else if c = 0x2F then last_name rest rest 0 else last_name rest basename (n + 1))"

definition dir_namei :: "namei_env \<Rightarrow> u8 list \<Rightarrow> (ptr \<times> u8 list \<times> nat) fsm" where
  "dir_namei env pathname =
     fbind (get_dir env pathname) (\<lambda>dir.
     if dir = NULL then ret (NULL, [], 0)
     else let (basename, namelen) = last_name pathname pathname 0 in ret (dir, basename, namelen))"

section \<open>\<open>namei\<close>\<close>

definition namei :: "namei_env \<Rightarrow> u8 list \<Rightarrow> ptr fsm" where
  "namei env pathname =
     fbind (dir_namei env pathname) (\<lambda>(dir, basename, namelen).
     if dir = NULL then ret NULL
     else if namelen = 0 then ret dir
     else fbind (find_entry env dir basename namelen) (\<lambda>(dir, bh, de).
     if bh = NULL then fbind (iput env dir) (\<lambda>_. ret NULL)
     else fbind (get_data bh (\<lambda>m. load16 m de)) (\<lambda>inr.
          fbind (ino dir i_dev) (\<lambda>dev.
          fbind (brelse env bh) (\<lambda>_.
          fbind (iput env dir) (\<lambda>_.
          fbind (iget env (ucast dev) (ucast inr)) (\<lambda>dir.
          fbind (gets (CURRENT_TIME env)) (\<lambda>now.
          fbind (iff_do (dir \<noteq> NULL) (upd_inode dir (\<lambda>i. i\<lparr>i_atime := now, i_dirt := 1\<rparr>))) (\<lambda>_.
          ret dir)))))))))"

section \<open>\<open>open_namei\<close>\<close>

text \<open>The characters of the string constant that \<open>ACC_MODE\<close> indexes, with its final null; there is nothing beyond it.\<close>

definition ACC_MODE :: "namei_env \<Rightarrow> u32 \<Rightarrow> nat option" where
  "ACC_MODE env x = (let i = unat (x AND O_ACCMODE env) in if i < 5 then Some ([4, 2, 6, 255, 0] ! i) else None)"

definition open_flag :: "namei_env \<Rightarrow> u32 \<Rightarrow> u32" where
  "open_flag env flag = (if flag AND O_TRUNC env \<noteq> 0 \<and> flag AND O_ACCMODE env = 0 then flag OR O_WRONLY env else flag)"

text \<open>The end of \<open>open_namei\<close>, for an inode that exists.\<close>

definition open_found :: "namei_env \<Rightarrow> u32 \<Rightarrow> ptr \<Rightarrow> open_result fsm" where
  "open_found env flag inode =
     fbind (ino inode i_mode) (\<lambda>mode.
     if S_ISDIR mode \<and> flag AND O_ACCMODE env \<noteq> 0
     then fbind (iput env inode) (\<lambda>_. ret (Failed EPERM))
     else case ACC_MODE env flag of
            None \<Rightarrow> fstop Fault
          | Some acc \<Rightarrow>
              if \<not> permission inode acc
              then fbind (iput env inode) (\<lambda>_. ret (Failed EPERM))
              else fbind (gets (CURRENT_TIME env)) (\<lambda>now.
                   fbind (upd_inode inode (\<lambda>i. i\<lparr>i_atime := now\<rparr>)) (\<lambda>_.
                   fbind (iff_do (flag AND O_TRUNC env \<noteq> 0) (truncate_inode inode)) (\<lambda>_.
                   ret (Opened inode)))))"

text \<open>
  The branch that creates a file. No inode is made for it: the code goes through the variable \<open>inode\<close>, which has no
  value yet. \<open>junk\<close> is what the variable happens to hold: \<open>Some q\<close> if that is the address of the \<open>q\<close>-th inode of the table;
  otherwise, and through null, the write goes to memory that is not described.
\<close>

abbreviation MAY_WRITE :: nat where "MAY_WRITE \<equiv> 2"

definition open_create :: "namei_env \<Rightarrow> ptr option \<Rightarrow> u16 \<Rightarrow> ptr \<Rightarrow> u8 list \<Rightarrow> nat \<Rightarrow> open_result fsm" where
  "open_create env junk mode dir basename namelen =
     (case junk of None \<Rightarrow> fstop Fault
      | Some inode \<Rightarrow>
          if inode = NULL then fstop Fault
          else fbind (upd_inode inode (\<lambda>i. i\<lparr>i_mode := mode\<rparr>)) (\<lambda>_.
               fbind (add_entry env dir basename namelen) (\<lambda>bh.
               if bh = NULL
               then fbind (upd_inode inode (\<lambda>i. i\<lparr>i_nlinks := i_nlinks i - 1\<rparr>)) (\<lambda>_.
                    fbind (iput env inode) (\<lambda>_.
                    fbind (iput env dir) (\<lambda>_. ret (Failed ENOSPC))))
               else fbind (kmod (upd_bh bh (\<lambda>b. b\<lparr>b_dirt := 1\<rparr>))) (\<lambda>_.
                    fbind (brelse env bh) (\<lambda>_.
                    fbind (iput env dir) (\<lambda>_. ret (Opened inode)))))))"

definition open_namei :: "namei_env \<Rightarrow> ptr option \<Rightarrow> u8 list \<Rightarrow> u32 \<Rightarrow> u32 \<Rightarrow> open_result fsm" where
  "open_namei env junk pathname flag0 mode0 =
     (let flag = open_flag env flag0
      in fbind (gets (umask env)) (\<lambda>um.
         let mode = (mode0 AND (0x1FF AND NOT um)) OR I_REGULAR env
         in fbind (dir_namei env pathname) (\<lambda>(dir, basename, namelen).
         if dir = NULL then ret (Failed ENOENT)
         else if namelen = 0
         then (if flag AND (O_ACCMODE env OR O_CREAT env OR O_TRUNC env) = 0 then ret (Opened dir)
               else fbind (iput env dir) (\<lambda>_. ret (Failed EISDIR)))
         else fbind (find_entry env dir basename namelen) (\<lambda>(dir, bh, de).
              if bh = NULL
              then (if flag AND O_CREAT env = 0 then fbind (iput env dir) (\<lambda>_. ret (Failed ENOENT))
                    else if \<not> permission dir MAY_WRITE then fbind (iput env dir) (\<lambda>_. ret (Failed EACCES))
                    else open_create env junk (ucast mode) dir basename namelen)
              else fbind (get_data bh (\<lambda>m. load16 m de)) (\<lambda>inr.
                   fbind (ino dir i_dev) (\<lambda>dev.
                   fbind (brelse env bh) (\<lambda>_.
                   fbind (iput env dir) (\<lambda>_.
                   if flag AND O_EXCL env \<noteq> 0 then ret (Failed EEXIST)
                   else fbind (iget env (ucast dev) (ucast inr)) (\<lambda>inode.
                        if inode = NULL then ret (Failed EACCES)
                        else open_found env flag inode)))))))))"

section \<open>The last component of a path\<close>

definition base_part :: "u8 list \<Rightarrow> u8 list" where
  "base_part p = rev (takeWhile (\<lambda>c. c \<noteq> 0x2F) (rev p))"

lemma take_no_slash: "0x2F \<notin> set p \<Longrightarrow> takeWhile (\<lambda>c. c \<noteq> (0x2F :: u8)) (rev p) = rev p"
  by (subst takeWhile_eq_all_conv) auto

lemma base_part_id: "0x2F \<notin> set p \<Longrightarrow> base_part p = p"
  by (simp add: base_part_def take_no_slash)

lemma base_part_slash: "base_part (p @ 0x2F # q) = base_part q"
  by (cases "0x2F \<in> set q") (auto simp: base_part_def takeWhile_append take_no_slash)

lemma last_name_base:
  assumes "0 \<notin> set rest" "0x2F \<notin> set pre"
  shows "last_name rest (pre @ rest) (length pre) = (base_part (pre @ rest), length (base_part (pre @ rest)))"
  using assms
proof (induction rest arbitrary: pre)
  case Nil
  then show ?case by (simp add: base_part_id)
next
  case (Cons c rest)
  show ?case
  proof (cases "c = 0x2F")
    case True
    then show ?thesis using Cons.IH [of "[]"] Cons.prems(1) by (simp add: base_part_slash)
  next
    case False
    then show ?thesis using Cons.IH [of "pre @ [c]"] Cons.prems by auto
  qed
qed

lemma base_part_splits: "\<exists>d. p = d @ base_part p \<and> (d = [] \<or> last d = 0x2F)" "0x2F \<notin> set (base_part p)"
proof -
  let ?r = "dropWhile (\<lambda>c. c \<noteq> 0x2F) (rev p)"
  have "rev p = takeWhile (\<lambda>c. c \<noteq> 0x2F) (rev p) @ ?r" by simp
  then have "p = rev ?r @ base_part p" unfolding base_part_def by (metis rev_append rev_rev_ident)
  moreover have "rev ?r = [] \<or> last (rev ?r) = 0x2F" using hd_dropWhile [of "\<lambda>c. c \<noteq> 0x2F" "rev p"] by (auto simp: last_rev)
  ultimately show "\<exists>d. p = d @ base_part p \<and> (d = [] \<or> last d = 0x2F)" by blast
  show "0x2F \<notin> set (base_part p)" by (auto simp: base_part_def dest: set_takeWhileD)
qed

lemma dir_namei_splits:
  assumes "0 \<notin> set p" "get_dir env p s = Inr (dir, t)" "dir \<noteq> NULL"
  shows "dir_namei env p s = Inr ((dir, base_part p, length (base_part p)), t)"
  using assms last_name_base [of p "[]"] by (simp add: dir_namei_def)

section \<open>References\<close>

text \<open>\<open>shifts m h\<close>: if \<open>m\<close> returns \<open>r\<close>, the count of inode \<open>p\<close> has grown by \<open>h r p\<close>.\<close>

definition shifts :: "'a fsm \<Rightarrow> ('a \<Rightarrow> ptr \<Rightarrow> u16) \<Rightarrow> bool" where
  "shifts m h \<longleftrightarrow> (\<forall>s r t. m s = Inr (r, t) \<longrightarrow> (\<forall>p. i_count (inode_list t p) = i_count (inode_list s p) + h r p))"

definition one :: "ptr \<Rightarrow> ptr \<Rightarrow> u16" where
  "one d p = (if d \<noteq> NULL \<and> p = d then 1 else 0)"

lemma one_NULL [simp]: "one NULL p = 0"
  by (simp add: one_def)

named_theorems shift_rules

lemma shifts_ret [shift_rules]: "(\<And>p. h v p = 0) \<Longrightarrow> shifts (ret v) h"
  by (simp add: shifts_def)

lemma shifts_stop [shift_rules]: "shifts (fstop e) h"
  by (simp add: shifts_def)

lemma shifts_gets [shift_rules]: "shifts (gets f) (\<lambda>_ _. 0)" "shifts (get_data bh g) (\<lambda>_ _. 0)"
  by (auto simp: shifts_def get_data_def split: if_splits)

lemma shifts_bind: "shifts m f \<Longrightarrow> (\<And>x. shifts (g x) (\<lambda>r p. h r p - f x p)) \<Longrightarrow> shifts (fbind m g) h"
proof -
  assume m: "shifts m f" and g: "\<And>x. shifts (g x) (\<lambda>r p. h r p - f x p)"
  show ?thesis unfolding shifts_def
  proof (intro allI impI)
    fix s r t p assume "fbind m g s = Inr (r, t)"
    then obtain x u where "m s = Inr (x, u)" "g x u = Inr (r, t)" by (auto simp: bnd_eq_Inr)
    then show "i_count (inode_list t p) = i_count (inode_list s p) + h r p" using m g unfolding shifts_def by fastforce
  qed
qed

lemma shifts_if [shift_rules]: "(c \<Longrightarrow> shifts m h) \<Longrightarrow> (\<not> c \<Longrightarrow> shifts n h) \<Longrightarrow> shifts (if c then m else n) h"
  by simp

lemma shifts_keys: "keeps same_keys m \<Longrightarrow> shifts m (\<lambda>_ _. 0)"
  by (simp add: shifts_def keeps_def same_keys_def)

text \<open>What the functions that are declared nowhere do to references, as their counterparts in \<open>inode.c\<close> do.\<close>

definition ref_contract :: "namei_env \<Rightarrow> bool" where
  "ref_contract env \<longleftrightarrow>
     (\<forall>p. shifts (get_dir env p) one) \<and> (\<forall>d. shifts (iput env d) (\<lambda>_ p. - one d p)) \<and>
     (\<forall>d name n. shifts (find_entry env d name n) (\<lambda>r p. one (fst r) p - one d p)) \<and>
     (\<forall>bh. shifts (brelse env bh) (\<lambda>_ _. 0)) \<and> (\<forall>dev nr. shifts (iget env dev nr) one)"

lemma ref_contractD [shift_rules]:
  assumes "ref_contract env"
  shows "shifts (get_dir env p) one" "shifts (iput env d) (\<lambda>_ p. - one d p)"
    "shifts (find_entry env d name n) (\<lambda>r p. one (fst r) p - one d p)"
    "shifts (brelse env bh) (\<lambda>_ _. 0)" "shifts (iget env dev nr) one"
  using assms by (simp_all add: ref_contract_def)

lemma dir_namei_shifts [shift_rules]:
  assumes "ref_contract env"
  shows "shifts (dir_namei env p) (\<lambda>r. one (fst r))"
  unfolding dir_namei_def Let_def case_prod_beta
  by (rule shifts_bind [OF ref_contractD(1) [OF assms]]) (intro shift_rules, simp_all)

lemma keeps_truncate: "keeps same_keys (truncate_inode p)"
  unfolding truncate_inode_def delete_block_def delete_indirecte_block_def delete_double_indirecte_block_def each_entry_def
    free_zone_bitmap_def clear_map_bit_def
  by (intro keep_rules) simp_all

lemma touch_shifts:
  "shifts (upd_inode q (\<lambda>i. i\<lparr>i_atime := now, i_dirt := d\<rparr>)) (\<lambda>_ _. 0)" "shifts (upd_inode q (\<lambda>i. i\<lparr>i_atime := now\<rparr>)) (\<lambda>_ _. 0)"
  by (rule shifts_keys, intro keep_rules, simp)+

lemma iff_shifts: "shifts m (\<lambda>_ _. 0) \<Longrightarrow> shifts (iff_do c m) (\<lambda>_ _. 0)"
  by (simp add: shifts_def)

lemmas shift_binds = ref_contractD [THEN shifts_bind] dir_namei_shifts [THEN shifts_bind] shifts_gets [THEN shifts_bind]
  touch_shifts [THEN shifts_bind] touch_shifts(1) [THEN iff_shifts, THEN shifts_bind]
  keeps_truncate [THEN shifts_keys, THEN iff_shifts, THEN shifts_bind]

lemma namei_shifts:
  assumes c: "ref_contract env"
  shows "shifts (namei env p) one"
  unfolding namei_def case_prod_beta
  by (rule shift_binds shifts_if shifts_ret shifts_stop c | simp)+

definition opened :: "open_result \<Rightarrow> ptr" where
  "opened r = (case r of Opened q \<Rightarrow> q | Failed e \<Rightarrow> NULL)"

lemma shifts_option: "shifts m h \<Longrightarrow> (\<And>x. shifts (f x) h) \<Longrightarrow> shifts (case z of None \<Rightarrow> m | Some x \<Rightarrow> f x) h"
  by (cases z) simp_all

lemma open_found_shifts:
  assumes c: "ref_contract env"
  shows "shifts (open_found env flag q) (\<lambda>r p. one (opened r) p - one q p)"
  unfolding open_found_def
  by (rule shift_binds shifts_if shifts_ret shifts_stop shifts_option c | simp add: opened_def)+

text \<open>Where no file is created the references are balanced; creating one gives away a reference nobody took.\<close>

lemma open_namei_shifts:
  assumes c: "ref_contract env" and nocreat: "open_flag env flag AND O_CREAT env = 0"
  shows "shifts (open_namei env junk p flag mode) (\<lambda>r. one (opened r))"
proof -
  have f: "h = (\<lambda>r p. one (opened r) p - one q p) \<Longrightarrow> shifts (open_found env fl q) h" for h q fl
    using open_found_shifts [OF c] by simp
  show ?thesis
    unfolding open_namei_def case_prod_beta Let_def nocreat
    by (rule shift_binds shifts_if shifts_ret shifts_stop c f | simp add: opened_def)+
qed

end
