(* ===== verification/Demo_Kernel.thy ===== *)
theory Demo_Kernel
  imports Kmain Demo_Fs Page Namei
begin

text \<open>A machine as the boot loader leaves it, for the witnesses of the properties of the whole kernel.\<close>

definition demo_files :: fsys where
  "demo_files = \<lparr>krn = power_up, inode_list = (\<lambda>_. zero_inode), super_block_list = (\<lambda>_. zero_super), last_inode = 1\<rparr>"

definition demo_machine :: machine where
  "demo_machine = \<lparr>tabs = \<lparr>gdt = (\<lambda>_. \<lparr>limit_low = 0, base_low = 0, base_middle = 0, access = 0, granularity = 0, base_high = 0\<rparr>),
     idt = (\<lambda>_. zero_gate), gdtr = None, idtr = None\<rparr>, console = demo_screen, files = demo_files\<rparr>"

lemma demo_fresh: "fresh (files demo_machine)"
  by (simp add: fresh_def demo_machine_def demo_files_def power_up_on)

definition demo_booted :: fsys where
  "demo_booted = demo_files\<lparr>krn := sti booted_state\<rparr>"

lemma demo_booted_reachable: "fs_reachable demo_booted"
proof -
  have "fresh demo_files" using demo_fresh by (simp add: demo_machine_def)
  then have "fs_reachable (demo_files\<lparr>krn := booted_state\<rparr>)"
    using booted_init by (intro fs_booted [OF _ _ demo_table, where start = "0x100000" and flags = 0]) (simp_all add: demo_files_def)
  from fs_stepped [OF this fs_sti] show ?thesis by (simp add: demo_booted_def)
qed

text \<open>A page directory at 0x1000 that maps itself, with the tables of the first and of the second 4 MB.\<close>

definition demo_pager :: pager where
  "demo_pager = \<lparr>phys = (\<lambda>_. 0)(0x1000 := 0x2003, 0x1004 := 0x3003, 0x1FFC := 0x1003, 0x3000 := 0x6003), cr3 = 0x1000,
     pmm_running = False, pmm_pos = 0x5000, pmm_page_stack_max = 0x401000, pmm_page_stack_ptr = 0x400010\<rparr>"

definition demo_vmm :: vmm where
  "demo_vmm = \<lparr>vmm_page_get = page_get, vmm_page_set = (\<lambda>_ _ s. Inr s), vmm_page_val = (\<lambda>p f. p OR f), PMM_PAGE_STACK = 0x400000\<rparr>"

lemma demo_recursive: "recursive demo_pager"
proof -
  have p: "(0x1000 :: u32) AND PAGE_MASK = 0x1000" by simp
  have k: "0x1000 + 4 * d = 0x1000 + 4 * k \<longleftrightarrow> d = k" if "index d" "index k" for d k :: u32
    using entry_inj [OF that, where w = "0x1000" and w' = "0x1000"] by simp
  have i: "index 0" "index 1" "index 0x3FF" by (simp_all add: index_def)
  have "0x1000 + 4 * d \<noteq> 0x3000" if "index d" for d
    using entry_inj [OF that i(1), where w = "0x1000" and w' = "0x3000"] by simp
  then have "dir_entry_at d demo_pager = (if d = 0 then 0x2003 else if d = 1 then 0x3003 else if d = 0x3FF then 0x1003 else 0)" if "index d" for d
    using k [OF that i(1)] k [OF that i(2)] k [OF that i(3)] that by (simp add: dir_entry_at_def demo_pager_def)
  then show ?thesis using i by (simp add: recursive_def) (simp add: demo_pager_def)
qed

text \<open>Functions for the names that \<open>name2inode.c\<close> uses: one directory, inode 1, and one file, inode 2.\<close>

definition demo_env :: namei_env where
  "demo_env = \<lparr>get_dir = (\<lambda>_. fbind (upd_inode 1 (\<lambda>i. i\<lparr>i_count := i_count i + 1\<rparr>)) (\<lambda>_. ret 1)),
     find_entry = (\<lambda>d _ _. ret (d, 1, 0)),
     iput = (\<lambda>d. iff_do (d \<noteq> NULL) (upd_inode d (\<lambda>i. i\<lparr>i_count := i_count i - 1\<rparr>))),
     brelse = (\<lambda>_. ret ()), iget = (\<lambda>_ _. fbind (upd_inode 2 (\<lambda>i. i\<lparr>i_count := i_count i + 1\<rparr>)) (\<lambda>_. ret 2)),
     add_entry = (\<lambda>_ _ _. ret NULL), umask = (\<lambda>_. 0), I_REGULAR = 0x8000,
     CURRENT_TIME = (\<lambda>_. 0), O_ACCMODE = 3, O_WRONLY = 1, O_CREAT = 0x40, O_EXCL = 0x80, O_TRUNC = 0x200\<rparr>"

lemma demo_ref_contract: "ref_contract demo_env"
  by (auto simp: ref_contract_def shifts_def demo_env_def one_def)

end
