(* ===== verification/Spec2Isabelle.thy ===== *)
theory Spec2Isabelle
  imports Prelude DList Cache Cache_Inv Cache_Spec Machine Hd Request Buffer Hd_Inv Hd_Safe Hd_Irq Request_Inv Buffer_Inv Windows Disk_Read Boot Block_Machine Demo Desc Util Printf Screen Fs_State Super Zone Inode Dir Setup Bitmap Inode_Inv Dir_Inv File_Map Dir_Lookup Mount Inode_Create Dir_Create Inode_Sync Zone_Inv Demo_Fs Demo_Dir Buffer_Safe Fs_Safe Fs_Machine Kmain Page Namei Demo_Kernel
begin

text \<open>
  A verification library for the EgGS kernel, a small i386 kernel that boots with a multiboot loader, sets up the
  processor's tables and the interrupts, and mounts a Minix file system from an IDE disk.

  \<^bold>\<open>The program.\<close>

  \<^item> The disk driver \<open>src/blk/hd.c\<close> serves the request queue of \<open>src/blk/blk_main.c\<close>
    from its interrupt handlers.
  \<^item> The buffer cache \<open>src/blk/buffer.c\<close> keeps 1024-byte blocks in buffers, which it fills and
    writes back with \<open>ll_rw_block\<close> and whose locks it polls while interrupts are served.
  \<^item> The file system (\<open>src/fs/super.c\<close>, \<open>src/fs/zone.c\<close>,
    \<open>src/fs/inode.c\<close>, \<open>src/fs/sys_fs.c\<close>) keeps super blocks and inodes in two fixed tables
    and reads and writes everything else through the cache.
  \<^item> \<open>src/irq.c\<close> and \<open>src/timer.c\<close> dispatch hardware interrupts;
    \<open>src/gdt.c\<close>, \<open>src/idt.c\<close> and \<open>src/isrs.c\<close> fill the descriptor tables and
    handle exceptions; \<open>src/kernel.c\<close> starts it all; \<open>src/scrn.c\<close> is the text console and \<open>src/util.c\<close> holds
    \<open>vsprintf\<close>, \<open>memcpy\<close> and the like.

  \<^bold>\<open>Conventions.\<close> Integers have the width of the i386 (theory \<open>Prelude\<close>). Code that
  may not return has a result \<open>'a kres\<close>: \<open>Inl (Panic message)\<close> is a call of
  \<open>panic\<close>, \<open>Inl Hang\<close> a loop that never ends, \<open>Inl DivideError\<close> a division by
  zero and \<open>Inl Fault\<close> an access whose effect the model does not describe, such as one through a null
  pointer. \<open>wp m E Q\<close> says that \<open>m\<close> stops with \<open>E\<close> or returns with
  \<open>Q\<close>. A pointer into an array is the number of the element from 1 on, 0 is null. What the devices answer
  and which interrupts arrive is part of the state (\<open>hardware\<close>), so that a statement about all states is
  one about all behaviours of the devices.

  \<^bold>\<open>Block layer.\<close>

  \<^item> \<open>Cache\<close> has the buffers, the hash queues and the free list; \<open>DList\<close> the theory of
    the linked lists; \<open>Cache_Inv\<close> the invariant \<open>cache_inv\<close> and that relinking keeps it;
    \<open>Cache_Spec\<close> the contract as the locale \<open>block_index\<close>, in which lookups are those of a
    finite map, interpreted as \<open>bx\<close> on \<open>find_buff\<close> and \<open>reuse_buff\<close>.
  \<^item> \<open>Machine\<close> has the hardware, the driver's tables and the kernel state \<open>kst\<close>.
  \<^item> \<open>Hd\<close> models the driver, \<open>Request\<close> the queue and \<open>Buffer\<close> the
    operations of the cache that wait.
  \<^item> \<open>Hd_Inv\<close> has the driver's invariant \<open>drv_inv\<close>; \<open>Hd_Safe\<close> and
    \<open>Hd_Irq\<close> show that the operations and the handlers keep it, \<open>Request_Inv\<close> that queueing
    does, and how the elevator orders the requests; \<open>Buffer_Inv\<close> combines both invariants in
    \<open>kinv\<close> and specifies the operations of the cache.
  \<^item> \<open>Windows\<close> adds the interrupts that arrive inside \<open>ll_rw_block\<close>: \<open>ll_rw_block_irq\<close> has them as the
    parameter \<open>windows\<close>, and \<open>ll_rw_block\<close> is the case without. A request that is not queued commutes with all handlers.
  \<^item> \<open>Disk_Read\<close> follows one read from the request to the data.
  \<^item> \<open>Boot\<close> models \<open>init_blk\<close> and \<open>init_hd_info\<close> and shows that they
    establish the invariants; \<open>Block_Machine\<close> is the transition system of all of this.

  \<^bold>\<open>File system.\<close>

  \<^item> \<open>Fs_State\<close> has super blocks, inodes and the state \<open>fsys\<close> around
    \<open>kst\<close>; \<open>Super\<close>, \<open>Zone\<close>, \<open>Inode\<close>, \<open>Dir\<close> and
    \<open>Setup\<close> model the files of \<open>src/fs\<close> function by function.
  \<^item> \<open>Bitmap\<close> has the locale \<open>bitmap\<close>, interpreted as \<open>bm\<close> on the bit
    instructions, and the allocation of inode and zone numbers.
  \<^item> \<open>Inode_Inv\<close> shows the encoding of inodes and that the table has each inode once; its locale
    \<open>kept\<close> for relations that code keeps if its parts do, and its extension \<open>frame\<close> for relations
    that ignore the block layer, are interpreted as \<open>tables\<close>, \<open>keys\<close> and \<open>last\<close>.
  \<^item> \<open>File_Map\<close> shows that \<open>locate_by_inode\<close> is a walk in a tree of tables.
  \<^item> \<open>Dir_Inv\<close> and \<open>Dir_Lookup\<close> show that looking up a name is a search in the list of
    entries and that a path is a walk through such directories.
  \<^item> \<open>Mount\<close> shows what \<open>read_super\<close> makes of a disk in memory.
  \<^item> \<open>Inode_Sync\<close> shows that inodes are read as they were written, and \<open>Zone_Inv\<close> what \<open>create_block\<close> does.
  \<^item> \<open>Inode_Create\<close> and \<open>Dir_Create\<close> show that a name that has been created is found.
  \<^item> \<open>Buffer_Safe\<close> shows that the operations of the cache keep \<open>kinv\<close> for any buffer and any device number;
    \<open>Fs_Safe\<close> that all operations of the file system keep \<open>sys_inv\<close>: \<open>kinv\<close>, no device
    mounted twice, no inode in the table twice, and no super block or inode locked (\<open>kept\<close> interpreted as \<open>eased\<close>,
    \<open>kernel\<close> and \<open>sound\<close>). \<open>Fs_Machine\<close> is the transition system of the whole kernel after
    \<open>init_blk\<close>, with one rule per operation, and \<open>Kmain\<close> models \<open>kmain\<close> on the record
    \<open>machine\<close> of the tables, the console and the file system.

  The theorems on files and directories are for blocks that are in memory and not locked, where
    \<open>read_buff\<close> does no input or output; what it does otherwise is the subject of the block layer.

  \<^bold>\<open>The rest.\<close> \<open>Desc\<close> models the descriptor tables, the stubs and the exception
  handler; \<open>Util\<close> the memory routines; \<open>Printf\<close> \<open>skip_atoi\<close>,
  \<open>number\<close> and \<open>vsprintf\<close>; \<open>Screen\<close> the console, which refines a grid of
  characters. \<open>Demo\<close>, \<open>Demo_Fs\<close>, \<open>Demo_Dir\<close> and \<open>Demo_Kernel\<close> have the concrete
  states in which the theorems of this file are instantiated.

  \<^bold>\<open>Code that is not built.\<close> No makefile compiles \<open>src/page.c\<close> and
  \<open>src/fs/name2inode.c\<close>, which use functions, variables and constants that are declared nowhere; these are
  parameters. \<open>Page\<close> has the translation of addresses by the processor, with a directory that maps itself, and the
  functions of \<open>src/page.c\<close> on physical memory. \<open>Namei\<close> has \<open>dir_namei\<close>, \<open>namei\<close> and
  \<open>open_namei\<close> over the record \<open>namei_env\<close> of what they call, with what its uninitialised variable holds as a
  parameter, and accounts for the references they take where no file is created.

  \<^bold>\<open>Bounds.\<close> Loops over C data structures have fuel, and running out of it is \<open>Hang\<close>,
  so each theorem that a function returns also says that the fuel is enough.

  \<^item> \<open>find_chain\<close>: a hash queue has at most \<open>NR_BUFFERS\<close> buffers.
  \<^item> \<open>elevator\<close>: a queue has at most 32 requests.
  \<^item> \<open>do_hd_loop\<close>: each round ends a request or counts one of its at most 7 errors, 32 times 8
    rounds and one more.
  \<^item> \<open>controller_poll\<close>: the counter of the C code.
  \<^item> \<open>retain_loop\<close>, \<open>get_loop\<close>, \<open>clean_loop\<close>, \<open>clean_inode\<close>
    and the loops of \<open>get_inode\<close> and \<open>put_inode\<close>: there is one task and
    \<open>sleep_on\<close> is commented out, so interrupts change neither keys nor counts, and if the second round
    does not return no later one does.
  \<^item> \<open>super_scan\<close> and \<open>inode_scan\<close>: the tables have 8 and 32 slots, and the scan for
    inodes starts again once for each of at most 8 mounted devices.
  \<^item> \<open>create_scan\<close>: a file has at most 7 + 512 + 512 * 512 blocks of 32 entries.

  \<^item> \<open>free_range\<close> and \<open>free_map\<close> may not end and have no fuel: \<open>None\<close> is a run that
    does not.

  \<^bold>\<open>Interrupts.\<close> An interrupt is taken as a whole between two steps. Interrupts arrive between operations
  (\<open>Block_Machine\<close>, \<open>Fs_Machine\<close>), in the loops that wait for one (\<open>spin\<close>, in the order of the field \<open>irqs\<close>), and in
  \<open>ll_rw_block_irq\<close> in the three windows of \<open>ll_rw_block\<close> between \<open>lock_buff\<close> and the call of the driver. The
  operations of the cache and the file system call \<open>ll_rw_block\<close>, without interrupts in these windows. Interrupts during
  \<open>do_hd_request\<close> when \<open>add_request\<close> calls it, which it does with interrupts on, have no counterpart; that an interrupt of the
  disk right before the call goes wrong is shown by an example.

  \<^bold>\<open>Not modelled.\<close> \<open>src/start.s\<close>, the assembly entry point, and \<open>src/inc/multiboot.h\<close>, the
  declarations of the loader's data. \<open>printk\<close> outside of \<open>Screen\<close> is an entry of a log of
  format strings and arguments, and \<open>vsprintf\<close> has no \<open>%n\<close>, which nothing uses. Pauses
  between port instructions and the contents of caches of the processor have no counterpart.
\<close>

section \<open>The whole kernel\<close>

text \<open>
  C1. In every state the kernel can reach after it has booted, with interrupts, operations of the buffer cache and
  operations of the file system in any order and whatever the disk answers: the queues of the cache and the request
  queue with the driver are consistent, no device is mounted twice, no inode is in the table twice, and no super block
  or inode is locked, so that no operation spins on such a lock.
\<close>

theorem kernel_invariant:
  assumes "fs_reachable s"
  shows "cache_inv (cache (krn s)) \<and> (\<exists>q. drv_inv {} (krn s) q) \<and> unique_supers s \<and> unique_inodes s \<and> unlocked s \<and>
    (\<forall>p. \<exists>t. lock_inode p s = Inr ((), t)) \<and> (\<forall>p. \<exists>t. lock_super p s = Inr ((), t))"
  using fs_reachable_sys_inv [OF assms] unlocked_locks [of s] by (simp add: sys_inv_def kinv_def)

theorem kernel_invariant_witness:
  "cache_inv (cache (krn demo_booted)) \<and> (\<exists>q. drv_inv {} (krn demo_booted) q) \<and> unique_supers demo_booted \<and>
    unique_inodes demo_booted \<and> unlocked demo_booted \<and>
    (\<forall>p. \<exists>t. lock_inode p demo_booted = Inr ((), t)) \<and> (\<forall>p. \<exists>t. lock_super p demo_booted = Inr ((), t))"
  by (rule kernel_invariant [OF demo_booted_reachable])

text \<open>
  C2. \<open>kmain\<close>: if the boot loader gives no memory map (bit 6 of its flags) the kernel panics because the root device cannot be
  mounted, whatever else the loader announces, the drive table (bit 7) included: \<open>init_blk\<close> tests bit 6 before it reads
  the drive table, and without it the disk driver is never installed.
\<close>

theorem kmain_needs_memory_map:
  assumes "fresh (files m)" "start + SIZEOF_BUFFER_HEAD + BLOCK_SIZE \<le> 2 * 1024 * 1024" "BLOCK_SIZE \<le> start"
    and "flags AND MULTIBOOT_INFO_MEM_MAP = 0"
  shows "kmain isr irq MULTIBOOT_BOOTLOADER_MAGIC start mem flags addr len m = Inl (Panic ''Unable to mount root'')"
  by (rule kmain_panics [OF assms])

theorem kmain_needs_memory_map_witness:
  "kmain of_nat of_nat MULTIBOOT_BOOTLOADER_MAGIC 0x100000 demo_mem MULTIBOOT_INFO_DRIVE_INFO 0 12 demo_machine =
     Inl (Panic ''Unable to mount root'')"
  by (rule kmain_needs_memory_map [OF demo_fresh]) simp_all

section \<open>The disk and its interrupts\<close>

text \<open>
  C3. Whatever the disk answers, an interrupt taken while the driver's invariant holds leaves a state
  in which it holds again: the requests that were finished are the first ones of the queue, the others are
  still queued in the same order, and everything but the locked buffers is unchanged. The handler can only
  stop because the controller never gets ready, or because of an interrupt of the disk when no
  request is pending.
\<close>

theorem interrupt_safe:
  assumes "drv_inv {} s q"
  shows "wp (interrupt i s) (\<lambda>e. i = 14 \<and> (e = not_ready \<or> e = Fault \<and> q = []))
    (\<lambda>t. disk_frame s t \<and> (\<exists>k. drv_inv {} t (drop k q)))"
  by (rule wp_mono [OF interrupt_settled [OF assms]]) (auto simp: settled_def)

theorem interrupt_safe_witness:
  "wp (interrupt 14 demo_reading) (\<lambda>e. (14 :: nat) = 14 \<and> (e = not_ready \<or> e = Fault \<and> [1 :: ptr] = []))
    (\<lambda>t. disk_frame demo_reading t \<and> (\<exists>k. drv_inv {} t (drop k [1])))"
  by (rule interrupt_safe [OF demo_reading_inv])

text \<open>
  C4. \<open>ll_rw_block\<close> on a buffer that is not locked keeps the driver's invariant and changes no other unlocked buffer,
  whatever the disk answers and whichever interrupts arrive after it has locked the buffer, while it waits for a
  request slot and while it fills the slot in, and whichever interrupts of other devices arrive before it calls the
  driver. It stops only when the controller is never ready, spins when no slot is free and no interrupt frees one, and
  faults only on a spurious interrupt of the disk, one that finds no request pending. Interrupts during the call of the driver are
  not considered, nor those of the disk right before it, which find a request for which no command has been given.
\<close>

theorem ll_rw_block_safe:
  assumes "drv_inv {} s q" "bh \<in> buffers (cache s)" "b_lock (bh_of s bh) = 0" "is_rw rw" "14 \<notin> set (at_start w)"
  shows "wp (ll_rw_block_irq w rw bh s)
    (\<lambda>e. e = not_ready \<or> e = Hang \<and> \<not> has_slot rw s \<or>
       e = Fault \<and> (spurious (at_lock w) (lock_buff bh s) \<or>
         (\<exists>t. settled {bh} (lock_buff bh s) q t \<and> spurious (at_fill w) t)))
    (\<lambda>t. rw_frame bh s t \<and> (\<exists>q'. drv_inv {} t q'))"
  by (rule wp_mono [OF ll_rw_block_irq_ok [OF assms(1-3) _ assms(4,5)]]) (auto simp: queued_def)

theorem ll_rw_block_safe_witness:
  "wp (ll_rw_block_irq \<lparr>at_lock = [0, 14], at_fill = [14], at_start = [0]\<rparr> READ 1 demo_claimed)
    (\<lambda>e. e = not_ready \<or> e = Hang \<and> \<not> has_slot READ demo_claimed \<or>
       e = Fault \<and> (spurious (at_lock \<lparr>at_lock = [0, 14], at_fill = [14], at_start = [0]\<rparr>) (lock_buff 1 demo_claimed) \<or>
         (\<exists>t. settled {1} (lock_buff 1 demo_claimed) [] t \<and> spurious (at_fill \<lparr>at_lock = [0, 14], at_fill = [14], at_start = [0]\<rparr>) t)))
    (\<lambda>t. rw_frame 1 demo_claimed t \<and> (\<exists>q'. drv_inv {} t q'))"
  by (rule ll_rw_block_safe [OF demo_claimed_inv])
    (simp_all add: demo_claimed_proj buffers_def blank_head_def is_rw_def del: One_nat_def)

text \<open>
  C5. A read on an idle disk that works is completed by its two interrupts: the controller is given the
  cylinder, head and sector of the block, the buffer then holds the two sectors the disk transferred, is up to
  date and unlocked, and the queue is empty.
\<close>

theorem read_delivers_block:
  assumes "drv_inv {} s []" "bh \<in> buffers (cache s)" "b_lock (bh_of s bh) = 0" "b_uptodate (bh_of s bh) = 0"
    and "MAJOR (uint (b_dev (bh_of s bh))) = MAJOR_NR" "request_fn (drv s) MAJOR_NR"
    and "startable s (block_request READ bh s)" "ready s" "irqs (hw s) = 14 # 14 # is"
  shows "\<exists>t u. ll_rw_block READ bh s = Inr t \<and> wait_on_buff bh t = Inr u \<and>
     io_out (hw t) = read_command s (block_request READ bh s) @ io_out (hw s) \<and>
     b_lock (bh_of u bh) = 0 \<and> b_uptodate (bh_of u bh) = 1 \<and> CURRENT u = NULL \<and>
     bdata (cache u) bh = (\<lambda>j. if j < 512 then sector_of s (io_clock (hw s) + 2) j
        else if j < 1024 then sector_of s (io_clock (hw s) + 4) (j - 512) else bdata (cache s) bh j)"
  by (rule read_completes [OF assms])

theorem read_delivers_block_witness:
  "\<exists>t u. ll_rw_block READ 1 demo_claimed = Inr t \<and> wait_on_buff 1 t = Inr u \<and>
     io_out (hw t) = read_command demo_claimed (block_request READ 1 demo_claimed) @ io_out (hw demo_claimed) \<and>
     b_lock (bh_of u 1) = 0 \<and> b_uptodate (bh_of u 1) = 1 \<and> CURRENT u = NULL \<and>
     bdata (cache u) 1 = (\<lambda>j. if j < 512 then sector_of demo_claimed (io_clock (hw demo_claimed) + 2) j
        else if j < 1024 then sector_of demo_claimed (io_clock (hw demo_claimed) + 4) (j - 512) else bdata (cache demo_claimed) 1 j)"
  by (rule read_delivers_block [OF demo_claimed_inv])
    (simp_all add: demo_claimed_proj startable_def block_request_def MINOR_def MAJOR_def ready_def demo_hw_def
      demo_drv_proj buffers_def blank_head_def push_bit_eq_mult del: One_nat_def)



section \<open>The request queue\<close>

text \<open>
  C7. The elevator: if all requests are different and the queue consists of at most two sweeps that ascend in the
  order of requests, then so does the queue with the request inserted where the elevator says.
\<close>

theorem elevator_keeps_order:
  assumes "two_sweeps rl q" "distinct (map (\<lambda>i. key_of (rl i)) (x # q))"
    and "slist (\<lambda>i. rq_next (rl i)) tmp q" "q \<noteq> []" "length q \<le> n"
  shows "\<exists>as a bs. elevator rl n tmp x = Inr a \<and> q = as @ a # bs \<and> two_sweeps rl (as @ a # x # bs)"
  by (rule elevator_sweeps [OF assms])

theorem elevator_keeps_order_witness:
  "let rl = (\<lambda>i. blank_request\<lparr>rq_sector := (if i = 1 then 10 else if i = 2 then 4 else 6), rq_next := (if i = 1 then 2 else NULL)\<rparr>)
   in \<exists>as a bs. elevator rl 32 1 3 = Inr a \<and> [1, 2] = as @ a # bs \<and> two_sweeps rl (as @ a # 3 # bs)"
  unfolding Let_def
proof (rule elevator_keeps_order)
  let ?rl = "\<lambda>i. blank_request\<lparr>rq_sector := (if i = 1 then 10 else if i = 2 then 4 else 6), rq_next := (if i = 1 then 2 else NULL)\<rparr>"
  show "two_sweeps ?rl [1, 2]" unfolding two_sweeps_def by (intro exI [of _ "[1]"] exI [of _ "[2]"]) simp
qed (simp_all add: key_of_def blank_request_def)

text \<open>
  C8. \<open>add_request\<close> on a busy device links the request in where the elevator says; the queue is
  otherwise the same and the request in progress stays at its head.
\<close>

theorem add_request_inserts:
  assumes "entering L rw bh x s q" "q \<noteq> []"
  shows "\<exists>t. add_request MAJOR_NR x (fill_request rw bh x s) = Inr t \<and> linked rw bh x s t \<and>
     CURRENT t = CURRENT s \<and> queue_inv L t (place (request_list (drv (fill_request rw bh x s))) x q)"
  using add_request_busy [OF assms] by (auto simp: CURRENT_def)

theorem add_request_inserts_witness:
  "\<exists>t. add_request MAJOR_NR 32 (fill_request WRITE 2 32 demo_entering) = Inr t \<and> linked WRITE 2 32 demo_entering t \<and>
     CURRENT t = CURRENT demo_entering \<and>
     queue_inv {} t (place (request_list (drv (fill_request WRITE 2 32 demo_entering))) 32 [1])"
  by (rule add_request_inserts [OF demo_entering_ok]) simp

section \<open>The buffer cache\<close>

text \<open>
  C9. \<open>find_buff\<close> implements lookup in the map from device and block number to buffer that the table of
  buffers stands for: it ends, and returns the buffer of the block, or null if the block is not cached.
\<close>

theorem find_buff_refines:
  assumes "cache_inv c"
  shows "find_buff dev block c = Inr (or_null (cmap c (dev, block)))"
  using bx.lookup [OF assms, of "(dev, block)"] by simp

theorem find_buff_refines_witness:
  "find_buff 0x300 5 demo_cache = Inr (or_null (cmap demo_cache (0x300, 5)))"
  by (rule find_buff_refines) (use demo_cache_inv in \<open>auto simp: cache_inv_def\<close>)

text \<open>
  C10. Giving a buffer to a block that is not cached keeps the queues well formed; afterwards
  \<open>find_buff\<close> finds the buffer under its new block, no longer under its old one, and every other block as before.
\<close>

theorem reuse_buff_rekeys:
  assumes "cache_inv c" "p \<in> buffers c" "dev \<noteq> 0" "unat dev < 65536" "find_buff dev block c = Inr NULL"
  shows "\<exists>c'. reuse_buff p dev block c = Inr c' \<and> cache_inv c' \<and> find_buff dev block c' = Inr p \<and>
    (\<forall>dev' block'. (dev', block') \<noteq> (dev, block) \<longrightarrow> find_buff dev' block' c' =
       (if find_buff dev' block' c = Inr p then Inr NULL else find_buff dev' block' c))"
proof -
  have g: "(\<lambda>(dev, block). dev \<noteq> 0 \<and> unat dev < 65536) (dev, block)" "(\<lambda>(dev, block). find_buff dev block) (dev, block) c = Inr NULL"
    using assms by simp_all
  obtain c' where c: "reuse_buff p dev block c = Inr c'" "cache_inv c'" "find_buff dev block c' = Inr p"
    using bx.lookup_rekeyed [OF assms(1,2) g] by auto
  have "find_buff dev' block' c' = (if find_buff dev' block' c = Inr p then Inr NULL else find_buff dev' block' c)"
    if "(dev', block') \<noteq> (dev, block)" for dev' block'
    using bx.lookup_other [OF assms(1,2) g, of c' "(dev', block')"] c(1) that by simp
  then show ?thesis using c by blast
qed

theorem reuse_buff_rekeys_witness:
  "\<exists>c'. reuse_buff 1 0x300 5 demo_cache = Inr c' \<and> cache_inv c' \<and> find_buff 0x300 5 c' = Inr 1 \<and>
    (\<forall>dev' block'. (dev', block') \<noteq> (0x300, 5) \<longrightarrow> find_buff dev' block' c' =
       (if find_buff dev' block' demo_cache = Inr 1 then Inr NULL else find_buff dev' block' demo_cache))"
proof (rule reuse_buff_rekeys)
  show "cache_inv demo_cache" using demo_cache_inv by (auto simp: cache_inv_def)
  show "find_buff 0x300 5 demo_cache = Inr NULL" by (simp add: find_buff_def demo_cache_eq numeral_3_eq_3)
qed (simp_all add: demo_cache_eq buffers_def)

text \<open>
  C11. \<open>get_buff\<close> returns a buffer that is cached under the block asked for, is not locked and has one more
  reference than before; a block that was cached keeps its buffer, and otherwise the
  buffer had no reference, is clean and not up to date. It stops only if the disk does, or spins.
\<close>

theorem get_buff_spec:
  assumes "kinv s" "dev \<noteq> 0" "unat dev < 65536"
  shows "wp (get_buff dev block s) (\<lambda>e. e = Hang \<or> e = not_ready) (\<lambda>(bh, t). kinv t \<and>
     cmap (cache t) (dev, block) = Some bh \<and> b_lock (bh_of t bh) = 0 \<and>
     b_count (bh_of t bh) = b_count (bh_of s bh) + 1 \<and> (\<forall>p. p \<noteq> bh \<longrightarrow> b_count (bh_of t p) = b_count (bh_of s p)) \<and>
     (case cmap (cache s) (dev, block) of Some p \<Rightarrow> bh = p
      | None \<Rightarrow> b_count (bh_of s bh) = 0 \<and> b_dirt (bh_of t bh) = 0 \<and> b_uptodate (bh_of t bh) = 0))"
proof (rule wp_mono [OF get_buff_got [OF assms]])
  fix r assume r: "got dev block s r"
  obtain bh t where rt: "r = (bh, t)" by (cases r)
  note G = got_fields [OF r [unfolded rt]]
  have "case cmap (cache s) (dev, block) of Some p \<Rightarrow> bh = p
      | None \<Rightarrow> b_count (bh_of s bh) = 0 \<and> b_dirt (bh_of t bh) = 0 \<and> b_uptodate (bh_of t bh) = 0"
    using r rt by (cases "cmap (cache s) (dev, block)") (simp_all add: got_def renewed_def)
  then show "case r of (bh, t) \<Rightarrow> kinv t \<and>
     cmap (cache t) (dev, block) = Some bh \<and> b_lock (bh_of t bh) = 0 \<and>
     b_count (bh_of t bh) = b_count (bh_of s bh) + 1 \<and> (\<forall>p. p \<noteq> bh \<longrightarrow> b_count (bh_of t p) = b_count (bh_of s p)) \<and>
     (case cmap (cache s) (dev, block) of Some p \<Rightarrow> bh = p
      | None \<Rightarrow> b_count (bh_of s bh) = 0 \<and> b_dirt (bh_of t bh) = 0 \<and> b_uptodate (bh_of t bh) = 0)"
    using G by (simp add: rt)
qed simp

theorem get_buff_spec_witness:
  "wp (get_buff 0x300 5 demo) (\<lambda>e. e = Hang \<or> e = not_ready) (\<lambda>(bh, t). kinv t \<and>
     cmap (cache t) (0x300, 5) = Some bh \<and> b_lock (bh_of t bh) = 0 \<and>
     b_count (bh_of t bh) = b_count (bh_of demo bh) + 1 \<and> (\<forall>p. p \<noteq> bh \<longrightarrow> b_count (bh_of t p) = b_count (bh_of demo p)) \<and>
     (case cmap (cache demo) (0x300, 5) of Some p \<Rightarrow> bh = p
      | None \<Rightarrow> b_count (bh_of demo bh) = 0 \<and> b_dirt (bh_of t bh) = 0 \<and> b_uptodate (bh_of t bh) = 0))"
  by (rule get_buff_spec [OF demo_kinv]) simp_all

text \<open>
  C12. \<open>new_buff\<close> takes, among the buffers nobody uses, the first of the free list with the least badness
  (dirty counts twice, locked once), returns null exactly if there is none, and evicts
  nothing but the block of the buffer it takes.
\<close>

theorem new_buff_choice:
  assumes "kinv s" "queues_ok (cache s) l ch" "dev \<noteq> 0" "unat dev < 65536" "cmap (cache s) (dev, block) = None"
  shows "wp (new_buff dev block s) (\<lambda>e. e = Hang \<or> e = not_ready) (\<lambda>(bh, t). is_best (cache s) l bh \<and>
     (if bh = NULL then t = s else renewed dev block bh s t))"
  by (rule new_buff_ok [OF assms])

theorem new_buff_choice_witness:
  "wp (new_buff 0x300 5 demo) (\<lambda>e. e = Hang \<or> e = not_ready) (\<lambda>(bh, t).
     is_best (cache demo) [1..<Suc (NR_BUFFERS demo_cache)] bh \<and> (if bh = NULL then t = demo else renewed 0x300 5 bh demo t))"
proof (rule new_buff_choice [OF demo_kinv])
  show "queues_ok (cache demo) [1..<Suc (NR_BUFFERS demo_cache)] (\<lambda>_. [])" using demo_cache_inv by (simp add: demo_proj)
  show "cmap (cache demo) (0x300, 5) = None"
    by (auto simp: cmap_None hashed_def demo_proj demo_cache_eq blank_head_def split: if_splits)
qed simp_all

text \<open>
  C13. \<open>read_buff\<close> returns a buffer with the block's contents and one more reference, or null with no
  reference count changed.
\<close>

theorem read_buff_spec:
  assumes "kinv s" "dev \<noteq> 0" "unat dev < 65536" "\<And>p. b_count (bh_of s p) \<noteq> 255"
  shows "wp (read_buff dev block s) (\<lambda>e. e = Hang \<or> e = not_ready) (\<lambda>(bh, t). kinv t \<and>
     (\<forall>p. p \<noteq> bh \<longrightarrow> b_count (bh_of t p) = b_count (bh_of s p)) \<and>
     (bh \<noteq> NULL \<longrightarrow> bh \<in> buffers (cache t) \<and> cmap (cache t) (dev, block) = Some bh \<and> b_uptodate (bh_of t bh) \<noteq> 0 \<and>
        b_lock (bh_of t bh) = 0 \<and> b_count (bh_of t bh) = b_count (bh_of s bh) + 1))"
  by (rule read_buff_got [OF assms])

theorem read_buff_spec_witness:
  "wp (read_buff 0x300 5 demo) (\<lambda>e. e = Hang \<or> e = not_ready) (\<lambda>(bh, t). kinv t \<and>
     (\<forall>p. p \<noteq> bh \<longrightarrow> b_count (bh_of t p) = b_count (bh_of demo p)) \<and>
     (bh \<noteq> NULL \<longrightarrow> bh \<in> buffers (cache t) \<and> cmap (cache t) (0x300, 5) = Some bh \<and> b_uptodate (bh_of t bh) \<noteq> 0 \<and>
        b_lock (bh_of t bh) = 0 \<and> b_count (bh_of t bh) = b_count (bh_of demo bh) + 1))"
  by (rule read_buff_spec [OF demo_kinv]) (simp_all add: demo_proj demo_cache_eq blank_head_def)

text \<open>
  C14. \<open>put_buff\<close> drops one reference of a buffer in use and changes no other count and no cached block; on a
  buffer without references that is not locked it panics.
\<close>

theorem put_buff_spec:
  assumes "kinv s" "buf \<in> buffers (cache s)"
  shows "if b_count (bh_of s buf) \<noteq> 0
    then wp (put_buff buf s) (\<lambda>e. e = Hang \<or> e = not_ready) (\<lambda>t. kinv t \<and>
       (\<forall>p. b_count (bh_of t p) = b_count (bh_of s p) + (if p = buf then -1 else 0)) \<and>
       (\<forall>k. cmap (cache t) k = cmap (cache s) k))
    else b_lock (bh_of s buf) = 0 \<longrightarrow> put_buff buf s = Inl (Panic ''Trying to free free buffer'')"
proof (cases "b_count (bh_of s buf) = 0")
  case True
  then show ?thesis using assms(2) wait_unlocked [of s buf] by (auto simp: put_buff_def)
next
  case False
  have "wp (put_buff buf s) (\<lambda>e. e = Hang \<or> e = not_ready) (\<lambda>t. kinv t \<and>
       (\<forall>p. b_count (bh_of t p) = b_count (bh_of s p) + (if p = buf then -1 else 0)) \<and>
       (\<forall>k. cmap (cache t) k = cmap (cache s) k))"
    by (rule wp_mono [OF put_buff_ok [OF assms False]]) (simp_all add: counted_def)
  then show ?thesis using False by simp
qed

theorem put_buff_spec_witness:
  "if b_count (bh_of demo_full 1) \<noteq> 0
    then wp (put_buff 1 demo_full) (\<lambda>e. e = Hang \<or> e = not_ready) (\<lambda>t. kinv t \<and>
       (\<forall>p. b_count (bh_of t p) = b_count (bh_of demo_full p) + (if p = 1 then -1 else 0)) \<and>
       (\<forall>k. cmap (cache t) k = cmap (cache demo_full) k))
    else b_lock (bh_of demo_full 1) = 0 \<longrightarrow> put_buff 1 demo_full = Inl (Panic ''Trying to free free buffer'')"
  by (rule put_buff_spec [OF demo_full_kinv]) (simp add: demo_full_def upd_bh_def demo_proj demo_cache_eq buffers_def)

text \<open>
  C15. With every buffer in use, asking for a block that is not cached never returns: nothing in
  \<open>get_buff\<close> waits for a buffer to be released.
\<close>

theorem get_buff_exhausted:
  assumes "kinv s" "cmap (cache s) (dev, block) = None" "\<forall>p \<in> buffers (cache s). b_count (bh_of s p) \<noteq> 0"
  shows "get_loop n dev block s = Inl Hang \<and> get_buff dev block s = Inl Hang"
  using get_loop_full [OF assms] by (simp add: get_buff_def)

theorem get_buff_exhausted_witness:
  "get_loop 100 0x300 5 demo_full = Inl Hang \<and> get_buff 0x300 5 demo_full = Inl Hang"
proof (rule get_buff_exhausted [OF demo_full_kinv])
  show "cmap (cache demo_full) (0x300, 5) = None"
    by (auto simp: cmap_None hashed_def demo_full_def upd_bh_def demo_proj demo_cache_eq blank_head_def split: if_splits)
  show "\<forall>p \<in> buffers (cache demo_full). b_count (bh_of demo_full p) \<noteq> 0"
    by (auto simp: demo_full_def upd_bh_def demo_proj demo_cache_eq buffers_def)
qed

section \<open>Start-up and the whole block layer\<close>

text \<open>
  C16. \<open>init_buff\<close>, if the kernel's image does not end in the lowest 1024 bytes, returns and lays the buffers out: at least
  one buffer, the blocks of 1024 bytes disjoint, between the end of the array of buffer heads and the end of the
  buffer memory, all buffers free, clean and on the free list. No address wraps around.
\<close>

theorem init_buff_layout:
  assumes "start + SIZEOF_BUFFER_HEAD + BLOCK_SIZE \<le> buffer_top buffer_end" "buffer_end < 2 ^ 31" "BLOCK_SIZE \<le> start"
    and "NR_BUFFERS c = 0"
  shows "\<exists>d. init_buff start buffer_end c = Inr d \<and>
    queues_ok d [1..<Suc (NR_BUFFERS d)] (\<lambda>_. []) \<and> 1 \<le> NR_BUFFERS d \<and>
    (\<forall>p \<in> buffers d. b_dev (bufs d p) = 0 \<and> b_count (bufs d p) = 0 \<and> b_lock (bufs d p) = 0 \<and> b_dirt (bufs d p) = 0 \<and>
       start + SIZEOF_BUFFER_HEAD * NR_BUFFERS d \<le> b_data (bufs d p) \<and>
       b_data (bufs d p) + BLOCK_SIZE \<le> buffer_top buffer_end) \<and>
    (\<forall>p \<in> buffers d. \<forall>r \<in> buffers d. p < r \<longrightarrow> b_data (bufs d r) + BLOCK_SIZE \<le> b_data (bufs d p))"
proof -
  obtain d where "init_buff start buffer_end c = Inr d" using init_buff_returns [OF assms(1-3)] by blast
  then show ?thesis using init_buff_ok [OF assms(1,2,4)] by blast
qed

theorem init_buff_layout_witness:
  "\<exists>d. init_buff 2094152 2097152 empty_cache = Inr d \<and>
    queues_ok d [1..<Suc (NR_BUFFERS d)] (\<lambda>_. []) \<and> 1 \<le> NR_BUFFERS d \<and>
    (\<forall>p \<in> buffers d. b_dev (bufs d p) = 0 \<and> b_count (bufs d p) = 0 \<and> b_lock (bufs d p) = 0 \<and> b_dirt (bufs d p) = 0 \<and>
       2094152 + SIZEOF_BUFFER_HEAD * NR_BUFFERS d \<le> b_data (bufs d p) \<and>
       b_data (bufs d p) + BLOCK_SIZE \<le> buffer_top 2097152) \<and>
    (\<forall>p \<in> buffers d. \<forall>r \<in> buffers d. p < r \<longrightarrow> b_data (bufs d r) + BLOCK_SIZE \<le> b_data (bufs d p))"
  by (rule init_buff_layout [OF demo_fits]) (simp_all add: empty_cache_def)

text \<open>
  C17. The head and the sector the driver computes are in range, the cylinder is exactly if the block is on the disk,
  which the code does not check, and the three denote the block: its number can be computed back from them.
\<close>

theorem chs_roundtrip:
  assumes "hd_sect g \<noteq> 0" "hd_head g \<noteq> 0" "chs block g = (cyl, head, sec)"
  shows "unat block = (unat cyl * unat (hd_head g) + unat head) * unat (hd_sect g) + (unat sec - 1) \<and>
    head < hd_head g \<and> 1 \<le> sec \<and> sec \<le> hd_sect g \<and>
    (cyl < hd_cyl g \<longleftrightarrow> unat block < unat (hd_cyl g) * unat (hd_head g) * unat (hd_sect g))"
  using chs_unique [OF assms] by (simp add: word_less_nat_alt word_le_nat_alt)

theorem chs_roundtrip_witness:
  "unat (1000000 :: u32) = (unat (992 :: u32) * unat (hd_head \<lparr>hd_head = 16, hd_sect = 63, hd_cyl = 1024\<rparr>) + unat (1 :: u32)) *
      unat (hd_sect \<lparr>hd_head = 16, hd_sect = 63, hd_cyl = 1024\<rparr>) + (unat (2 :: u32) - 1) \<and>
    (1 :: u32) < hd_head \<lparr>hd_head = 16, hd_sect = 63, hd_cyl = 1024\<rparr> \<and> (1 :: u32) \<le> 2 \<and>
    (2 :: u32) \<le> hd_sect \<lparr>hd_head = 16, hd_sect = 63, hd_cyl = 1024\<rparr> \<and>
    (992 < hd_cyl \<lparr>hd_head = 16, hd_sect = 63, hd_cyl = 1024\<rparr> \<longleftrightarrow>
      unat (1000000 :: u32) < unat (hd_cyl \<lparr>hd_head = 16, hd_sect = 63, hd_cyl = 1024\<rparr>) *
        unat (hd_head \<lparr>hd_head = 16, hd_sect = 63, hd_cyl = 1024\<rparr>) * unat (hd_sect \<lparr>hd_head = 16, hd_sect = 63, hd_cyl = 1024\<rparr>))"
  by (rule chs_roundtrip) (simp_all add: chs_def)

section \<open>Bitmaps and inodes\<close>

text \<open>
  C18. The assembly search of \<open>find_first_zero\<close>, which skips full 32-bit words, computes the number of the
  lowest clear bit of the block, or 8192 if there is none.
\<close>

theorem find_first_zero_least:
  "find_first_zero m = (if bm.used m = {..<8192} then 8192 else (LEAST k. k \<notin> bm.used m))"
proof (cases "find_first_zero m < 8192")
  case True
  then show ?thesis using bm.first_Least [OF True] bm.full_iff [of m] by simp
next
  case False
  then have "find_first_zero m = 8192" using bm.first_le [of m] by simp
  then show ?thesis using bm.full_iff [of m] by simp
qed

text \<open>
  C19. \<open>add_inode_bitmap\<close> on a mounted device always returns: it takes the lowest free number up to
  \<open>s_ninodes\<close>, marks it and no other, and returns it; without one it returns 0 and leaves the maps alone.
\<close>

theorem add_inode_bitmap_spec:
  assumes "super_at dev p s" "b = super_block_list s p" "map_ok (s_imap b) (unat (s_imap_blocks b))"
  shows "\<exists>r t. add_inode_bitmap dev s = Inr (case r of Some n \<Rightarrow> n | None \<Rightarrow> 0, t) \<and>
    allocated (s_imap b) (unat (s_imap_blocks b)) (unat (s_ninodes b) + 1) s r t"
  by (rule add_inode_bitmap_ok [OF assms])

theorem add_inode_bitmap_spec_witness:
  "\<exists>r t. add_inode_bitmap 0x301 demo_fs = Inr (case r of Some n \<Rightarrow> n | None \<Rightarrow> 0, t) \<and>
    allocated (s_imap demo_super) (unat (s_imap_blocks demo_super)) (unat (s_ninodes demo_super) + 1) demo_fs r t"
  by (rule add_inode_bitmap_spec [OF demo_fs_at demo_fs_super [symmetric] demo_fs_maps(1)])

text \<open>
  C20. Freeing the inode number that \<open>add_inode_bitmap\<close> has just returned gives back the map of used numbers.
\<close>

theorem inode_number_roundtrip:
  assumes "super_at dev p s" "b = super_block_list s p" "map_ok (s_imap b) (unat (s_imap_blocks b))"
    and "marked (s_imap b) s 0" "add_inode_bitmap dev s = Inr (n, t)" "n \<noteq> 0"
  shows "\<exists>u. free_inode_bitmap dev (of_nat n) t = Inr ((), u) \<and>
    (\<forall>k < unat (s_imap_blocks b) * 8192. marked (s_imap b) u k = marked (s_imap b) s k)"
proof -
  let ?sl = "s_imap b" and ?N = "unat (s_imap_blocks b)"
  obtain r t' where r: "add_inode_bitmap dev s = Inr (case r of Some n \<Rightarrow> n | None \<Rightarrow> 0, t')"
    "allocated ?sl ?N (unat (s_ninodes b) + 1) s r t'"
    using add_inode_bitmap_ok [OF assms(1-3)] by blast
  then have rn: "r = Some n" "t' = t" using assms(5,6) by (auto split: option.splits)
  then have A: "n < unat (s_ninodes b) + 1" "n < ?N * 8192" "\<not> marked ?sl s n" "map_changed ?sl ?N n True s t"
    using r(2) by (auto simp: allocated_def)
  have st: "same_tables s t" by (rule map_changed_tables [OF A(4)])
  have un: "unat (of_nat n :: u32) = n" using A(1) unat_u16_bound [of "s_ninodes b"] by (simp add: unat_of_nat)
  have "super_at dev p t" "b = super_block_list t p" using super_at_tables [OF st] assms(1,2) st by (simp_all add: same_tables_def)
  from free_inode_bitmap_ok [OF this assms(3), of "of_nat n"]
  obtain u where "free_inode_bitmap dev (of_nat n) t = Inr ((), u)" "map_changed ?sl ?N n False t u"
    using A(1,2) assms(6) un by auto
  then show ?thesis using map_changed_back [OF A(4) _ A(3,2)] by blast
qed

theorem inode_number_roundtrip_witness:
  "\<exists>t u. add_inode_bitmap 0x301 demo_fs = Inr (3, t) \<and> free_inode_bitmap 0x301 3 t = Inr ((), u) \<and>
    (\<forall>k < unat (s_imap_blocks demo_super) * 8192. marked (s_imap demo_super) u k = marked (s_imap demo_super) demo_fs k)"
proof -
  obtain r t where r: "add_inode_bitmap 0x301 demo_fs = Inr (case r of Some n \<Rightarrow> n | None \<Rightarrow> 0, t)"
    "allocated (s_imap demo_super) (unat (s_imap_blocks demo_super)) (unat (s_ninodes demo_super) + 1) demo_fs r t"
    using add_inode_bitmap_ok [OF demo_fs_at demo_fs_super [symmetric] demo_fs_maps(1)] by blast
  have "r = Some 3"
    by (rule allocated_first [OF r(2)]) (auto simp: demo_fs_marked demo_fields)
  then have run: "add_inode_bitmap 0x301 demo_fs = Inr (3, t)" using r(1) by simp
  show ?thesis
    using inode_number_roundtrip [OF demo_fs_at demo_fs_super [symmetric] demo_fs_maps(1) _ run] run
    by (auto simp: demo_fs_marked)
qed

text \<open>
  C21. The bound of \<open>add_zone_bitmap\<close> is one too large: when all other zones are used it hands out block
  \<open>s_nzones\<close>, which is past the end of the device and which \<open>free_zone_bitmap\<close> refuses with a panic.
\<close>

theorem zone_past_end_allocated:
  assumes "super_at dev p s" "b = super_block_list s p" "map_ok (s_zmap b) (unat (s_zmap_blocks b))"
    and "zone_block b k = int (unat (s_nzones b))" "k < unat (s_zmap_blocks b) * 8192"
    and "\<not> marked (s_zmap b) s k" "\<forall>j<k. marked (s_zmap b) s j"
  shows "\<exists>t. add_zone_bitmap dev s = Inr (int (unat (s_nzones b)), t) \<and>
    free_zone_bitmap dev (ucast (s_nzones b)) t = Inl (Panic ''trying to free block not in datazone'')"
  by (rule zone_past_end [OF assms])

theorem zone_past_end_allocated_witness:
  "\<exists>t. add_zone_bitmap 0x301 demo_fs = Inr (int (unat (s_nzones demo_super)), t) \<and>
    free_zone_bitmap 0x301 (ucast (s_nzones demo_super)) t = Inl (Panic ''trying to free block not in datazone'')"
  by (rule zone_past_end_allocated [OF demo_fs_at demo_fs_super [symmetric] demo_fs_maps(2), of 3])
     (auto simp: demo_fs_marked, auto simp: demo_super_def zone_block_def)

text \<open>
  C22. Mounting a device whose super block and maps are in memory: \<open>read_super\<close> takes the first free slot, fills it
  from block 1, and the maps in its slots are those of the disk with number 0 in use. Afterwards
  \<open>find_super\<close> finds the device, so that inodes and zones can be allocated.
\<close>

theorem read_super_mounts_device:
  assumes "cache_inv (cache (krn s))" "mountable dev p s" "in_memory (krn s) dev 1"
    and "b = mounted_super (krn s) dev (super_block_list s p)" "valid_super b"
    and "ni = unat (s_imap_blocks b)" "nz = unat (s_zmap_blocks b)" "maps_there (krn s) dev (ni + nz)"
  shows "\<exists>t. read_super dev s = Inr (p, t) \<and> find_super dev t = Inr (p, t\<lparr>krn := cli (krn t)\<rparr>) \<and> super_at dev p t \<and>
    super_block_list t = (super_block_list s)(p := b) \<and> inode_list t = inode_list s \<and>
    map_from_disk (krn s) dev 0 ni (s_imap b) t \<and> map_from_disk (krn s) dev ni nz (s_zmap b) t"
  using read_super_mounts [OF assms(1-3) assms(5) [unfolded assms(4)]] assms(8) find_super_at
  unfolding assms(4,6,7) by blast

theorem read_super_mounts_device_witness:
  "\<exists>t. read_super 0x301 demo_disk = Inr (1, t) \<and> find_super 0x301 t = Inr (1, t\<lparr>krn := cli (krn t)\<rparr>) \<and> super_at 0x301 1 t \<and>
    super_block_list t = (super_block_list demo_disk)(1 := mounted_super (krn demo_disk) 0x301 (super_block_list demo_disk 1)) \<and>
    inode_list t = inode_list demo_disk \<and>
    map_from_disk (krn demo_disk) 0x301 0 1 (s_imap (mounted_super (krn demo_disk) 0x301 (super_block_list demo_disk 1))) t \<and>
    map_from_disk (krn demo_disk) 0x301 1 1 (s_zmap (mounted_super (krn demo_disk) 0x301 (super_block_list demo_disk 1))) t"
  by (rule read_super_mounts_device [OF _ demo_disk_mountable _ refl demo_disk_super(1) demo_disk_super(2,3) [symmetric] demo_disk_maps])
    (use demo_disk_inv demo_disk_memory(1) [of 1] in \<open>simp_all add: demo_disk_krn\<close>)

text \<open>
  C23. A block 1 without the magic number is not mounted: \<open>read_super\<close> returns null, the slot is free again and the
  buffers and the other slots are as before.
\<close>

theorem read_super_rejects_block:
  assumes "cache_inv (cache (krn s))" "mountable dev p s" "in_memory (krn s) dev 1"
    and "load16 (block_image (krn s) dev 1) 16 \<noteq> SUPER_MAGIC"
  shows "\<exists>t. read_super dev s = Inr (NULL, t) \<and> mountable dev p t \<and> inode_list t = inode_list s \<and>
    cache (krn t) = cache (krn s) \<and> (\<forall>q. q \<noteq> p \<longrightarrow> super_block_list t q = super_block_list s q)"
proof (rule read_super_rejects [OF assms(1-3)])
  show "s_magic (mounted_super (krn s) dev (super_block_list s p)) \<noteq> SUPER_MAGIC"
    using assms(4) by (simp add: mounted_super_def decode_super_def Let_def)
qed

theorem read_super_rejects_block_witness:
  "\<exists>t. read_super 0x301 demo_dirty_disk = Inr (NULL, t) \<and> mountable 0x301 1 t \<and> inode_list t = inode_list demo_dirty_disk \<and>
    cache (krn t) = cache (krn demo_dirty_disk) \<and> (\<forall>q. q \<noteq> 1 \<longrightarrow> super_block_list t q = super_block_list demo_dirty_disk q)"
  by (rule read_super_rejects_block [OF demo_dirty_disk])

text \<open>
  C24. \<open>sync_inode_to_buff\<close> followed by \<open>read_inode_from_buff\<close> into another slot for the same inode copies the disk
  fields and keeps the fields that exist in memory only; the inode written is clean, and what the buffers hold for
  any other inode of the device is as before.
\<close>

theorem inode_writeback_roundtrip:
  assumes "cache_inv (cache (krn s))" "i = inode_list s p" "j = inode_list s q" "q \<noteq> p"
    and "inode_there s sb i" "i_dirt i \<noteq> 0" "i_dev j = i_dev i" "i_num j = i_num i" "i_lock j = 0"
  shows "\<exists>t u. sync_inode_to_buff p s = Inr ((), t) \<and> inode_list t = (inode_list s)(p := i\<lparr>i_dirt := 0\<rparr>) \<and>
    read_inode_from_buff q t = Inr ((), u) \<and>
    inode_list u q = j\<lparr>i_mode := i_mode i, i_uid := i_uid i, i_size := i_size i, i_mtime := i_mtime i, i_gid := i_gid i,
       i_nlinks := i_nlinks i, i_zone := (\<lambda>z. if z < 9 then i_zone i z else i_zone j z)\<rparr> \<and>
    (\<forall>k. inode_there s sb k \<and> i_dev k = i_dev i \<and> i_num k \<noteq> i_num i \<longrightarrow> stored t sb k = stored s sb k)"
  using assms unfolding assms(2,3) by (intro synced_then_read) simp_all

theorem inode_writeback_roundtrip_witness:
  "let i = inode_list demo_sync 1; j = inode_list demo_sync 2
   in \<exists>t u. sync_inode_to_buff 1 demo_sync = Inr ((), t) \<and> inode_list t = (inode_list demo_sync)(1 := i\<lparr>i_dirt := 0\<rparr>) \<and>
    read_inode_from_buff 2 t = Inr ((), u) \<and>
    inode_list u 2 = j\<lparr>i_mode := i_mode i, i_uid := i_uid i, i_size := i_size i, i_mtime := i_mtime i, i_gid := i_gid i,
       i_nlinks := i_nlinks i, i_zone := (\<lambda>z. if z < 9 then i_zone i z else i_zone j z)\<rparr> \<and>
    (\<forall>k. inode_there demo_sync 1 k \<and> i_dev k = i_dev i \<and> i_num k \<noteq> i_num i \<longrightarrow> stored t 1 k = stored demo_sync 1 k)"
  unfolding Let_def by (rule inode_writeback_roundtrip [OF demo_sync(1) refl refl _ demo_sync(2-6)]) simp

text \<open>
  C25. \<open>get_inode\<close>, whatever way it returns, leaves each inode at most once in the table, raises the count of
  the inode it returns by one and changes the key and the count of no other inode.
\<close>

theorem inodes_stay_unique:
  assumes "slot (last_inode s)" "short dev" "short nr" "unique_inodes s"
  shows "wp (get_inode dev nr s) (\<lambda>_. True) (\<lambda>(p, t). unique_inodes t \<and> slot p \<and> slot (last_inode t) \<and>
    (\<forall>q. q \<noteq> p \<longrightarrow> key_at t q = key_at s q \<and> i_count (inode_list t q) = i_count (inode_list s q)) \<and>
    i_count (inode_list t p) = i_count (inode_list s p) + 1)"
  by (rule get_inode_keeps [OF assms])

theorem inodes_stay_unique_witness:
  "wp (get_inode 0x301 1 demo_fs) (\<lambda>_. True) (\<lambda>(p, t). unique_inodes t \<and> slot p \<and> slot (last_inode t) \<and>
    (\<forall>q. q \<noteq> p \<longrightarrow> key_at t q = key_at demo_fs q \<and> i_count (inode_list t q) = i_count (inode_list demo_fs q)) \<and>
    i_count (inode_list t p) = i_count (inode_list demo_fs p) + 1)"
  by (rule inodes_stay_unique [OF demo_fs_inodes(1) _ _ demo_fs_inodes(2)]) (simp_all add: short_def)

text \<open>
  C26. \<open>locate_by_inode\<close> implements the map of a file as a tree of tables: 7 direct zones, a table of 512 and a table
  of 512 tables. It returns the entry at the block's place, with or without leave to create, if the tables on the way
  are in memory; nothing but the interrupt flag changes.
\<close>

theorem locate_by_inode_refines:
  assumes "cache_inv (cache (krn s))" "b < 7 + 512 + 512 * 512"
    and "i = inode_list s p" "img = block_image (krn s) (ucast (i_dev i))"
    and "\<And>z. z \<in> tables_of img (i_zone i) b \<Longrightarrow> in_memory (krn s) (ucast (i_dev i)) z"
    and "create \<longrightarrow> file_block img (i_zone i) b \<noteq> 0"
  shows "\<exists>k \<in> {krn s, cli (krn s)}. locate_by_inode p (int b) create s = Inr (file_block img (i_zone i) b, s\<lparr>krn := k\<rparr>)"
  using locate_there [of s b p create] assms(1,2,5,6) unfolding assms(3,4) by blast

theorem locate_by_inode_refines_witness:
  "\<exists>k \<in> {krn demo_dir, cli (krn demo_dir)}. locate_by_inode 1 (int 0) True demo_dir =
     Inr (file_block (block_image (krn demo_dir) 0x301) ((\<lambda>_. 0)(0 := 9)) 0, demo_dir\<lparr>krn := k\<rparr>)"
  using locate_by_inode_refines [of demo_dir 0 _ 1 _ True, OF _ _ refl refl] demo_dir_cache(1)
  by (simp add: demo_dir_fields(1) demo_root_zones tables_of_def file_block_def del: One_nat_def)

text \<open>
  C27. \<open>create_block\<close> returns the block of the first free zone, cached, filled with zeros, up to date and to be written,
  whatever the disk does meanwhile; it panics only if somebody uses that block. When no zone is free it does the same
  to block 0, the boot block, since the result of \<open>add_zone_bitmap\<close> is not tested.
\<close>

theorem create_block_zeroed:
  assumes "kinv (krn s)" "super_at dev p s" "b = super_block_list s p" "map_ok (s_zmap b) (unat (s_zmap_blocks b))" "unat dev < 65536"
  shows "wp (create_block dev s)
    (\<lambda>e. e = Hang \<or> e = not_ready \<or> e = Panic ''new block: count is != 1'' \<and> in_use_block dev (next_zone b s) (krn s))
    (\<lambda>(z, t). z = next_zone b s \<and> kinv (krn t) \<and> zeroed dev z (krn t))"
  by (rule wp_mono [OF create_block_ok [OF assms]]) auto

theorem create_block_zeroed_witness:
  "wp (create_block 0x301 demo_fs)
    (\<lambda>e. e = Hang \<or> e = not_ready \<or> e = Panic ''new block: count is != 1'' \<and> in_use_block 0x301 (next_zone demo_super demo_fs) (krn demo_fs))
    (\<lambda>(z, t). z = next_zone demo_super demo_fs \<and> kinv (krn t) \<and> zeroed 0x301 z (krn t))"
  by (rule create_block_zeroed [OF demo_fs_kinv demo_fs_at demo_fs_super [symmetric] demo_fs_maps(2)]) simp

text \<open>
  C28. Looking up a name in a directory whose blocks are in memory finds the first entry, in the order of the
  file, whose name starts with the first 30 bytes looked up, across all its blocks, and reads the inode of that
  entry; without one it returns null. All references to buffers are returned.
\<close>

theorem directory_lookup:
  assumes "cache_inv (cache (krn s))" "i = inode_list s p" "len = name_length namelen" "0 < namelen"
    and "img = block_image (krn s) (ucast (i_dev i))" "entries = unat (i_size i) div 32" "0 < entries"
    and "dir_there s p entries" "\<not> leaves_device i name len"
  shows "\<exists>t. same_store s t \<and> retain_inode_by_name p name namelen s =
    (case dir_find img (i_zone i) name len entries of
       None \<Rightarrow> Inr ((NULL, p), t)
     | Some j \<Rightarrow> bnd (read_inode (ucast (i_dev i)) (ucast (entry_inode img (i_zone i) j)) t) (\<lambda>r. Inr ((fst r, p), snd r)))"
  using retain_inode_by_name_there [of s p namelen name] assms(1,4,7,8,9) unfolding assms(2,3,5,6) by blast

theorem directory_lookup_witness:
  "\<exists>t. same_store demo_dir t \<and> retain_inode_by_name 1 [0x62] 1 demo_dir =
    (case dir_find (block_image (krn demo_dir) 0x301) ((\<lambda>_. 0)(0 := 9)) [0x62] 1 1 of
       None \<Rightarrow> Inr ((NULL, 1), t)
     | Some j \<Rightarrow> bnd (read_inode 0x301 (ucast (entry_inode (block_image (krn demo_dir) 0x301) ((\<lambda>_. 0)(0 := 9)) j)) t)
         (\<lambda>r. Inr ((fst r, 1), snd r)))"
  using directory_lookup [of demo_dir _ 1 _ 1 _ _ "[0x62]", OF _ refl refl _ refl refl] demo_dir_cache(1) demo_dir_there
  by (simp add: demo_dir_fields(1) demo_root_zones name_length_def leaves_device_def cong: option.case_cong del: One_nat_def fun_upd_apply)

text \<open>
  C29. A path that goes down through directories in memory is resolved to the inode at its end, with one more
  reference, and no other count changes: the references to the directories on the way are dropped. What follows the
  last slash is not looked up.
\<close>

theorem path_resolution:
  assumes "walk s p names q" "cache_inv (cache (krn s))" "S_ISDIR (i_mode (inode_list s p))" "names \<noteq> []"
    and "\<forall>name \<in> set names. name \<noteq> [] \<and> 0 \<notin> set name \<and> 0x2F \<notin> set name" "0x2F \<notin> set rest"
  shows "\<exists>t. retain_inode_by_path p (path_of names @ rest) s = Inr (q, t) \<and>
     inode_list t = (inode_list s)(q := (inode_list s q)\<lparr>i_count := i_count (inode_list s q) + 1\<rparr>) \<and>
     super_block_list t = super_block_list s \<and> cache (krn t) = cache (krn s)"
  using retain_inode_by_path_walk [OF assms(1-3,5,6,4)] by (simp only: more_used_def)

theorem path_resolution_witness:
  "\<exists>t. retain_inode_by_path 1 (path_of [[0x61]] @ [0x78]) demo_dir = Inr (2, t) \<and>
     inode_list t = (inode_list demo_dir)(2 := (inode_list demo_dir 2)\<lparr>i_count := i_count (inode_list demo_dir 2) + 1\<rparr>) \<and>
     super_block_list t = super_block_list demo_dir \<and> cache (krn t) = cache (krn demo_dir)"
  by (rule path_resolution [OF demo_dir_walk])
    (simp_all add: demo_dir_fields(1) demo_dir_cache(1) demo_root_zones S_ISDIR_def del: One_nat_def)

text \<open>
  C30. A name created in a directory in memory is found afterwards: \<open>create_inode_by_name\<close> takes the first free inode
  number and an unused slot, writes the first unused entry, which may extend the directory, and a lookup of the
  name then returns that inode, unless an earlier entry matched the name before.
\<close>

theorem create_then_lookup:
  assumes "cache_inv (cache (krn s))" "i = inode_list s p" "i_count i \<noteq> 0" "len = name_length namelen"
    and "e = max (unat (i_size i) div 32) (j + 1)" "unat (i_size i) mod 32 = 0" "dir_there s p e"
    and "0 < namelen" "\<not> leaves_device i name len"
    and "unused s p j" "\<forall>k<j. \<not> unused s p k \<and> \<not> found_at s p name len k"
    and "can_create s (ucast (i_dev i)) sb n" "dir_apart s p e j sb"
  shows "\<exists>q t u. create_inode_by_name p name namelen s = Inr (q, t) \<and> i_count (inode_list s q) = 0 \<and>
    retain_inode_by_name p name namelen t = Inr ((q, p), u) \<and>
    inode_list u q = (fresh_inode (ucast (i_dev i)) (of_nat n))\<lparr>i_nlinks := 1, i_dirt := 1, i_count := 2\<rparr>"
  using assms unfolding assms(2,4,5) by (intro created_then_found) simp_all

theorem create_then_lookup_witness:
  "\<exists>q t u. create_inode_by_name 1 [0x62] 1 demo_new = Inr (q, t) \<and> i_count (inode_list demo_new q) = 0 \<and>
    retain_inode_by_name 1 [0x62] 1 t = Inr ((q, 1), u) \<and>
    inode_list u q = (fresh_inode 0x301 (of_nat 3))\<lparr>i_nlinks := 1, i_dirt := 1, i_count := 2\<rparr>"
proof -
  have f: "i_count (inode_list demo_new 1) \<noteq> 0" "i_size (inode_list demo_new 1) = 32" "i_dev (inode_list demo_new 1) = 0x301"
    "\<not> leaves_device (inode_list demo_new 1) [0x62] (name_length 1)"
    by (simp_all add: demo_new_inode demo_dir_fields demo_root_def leaves_device_def name_length_def del: One_nat_def)
  show ?thesis
    using create_then_lookup [OF demo_new_cache(1) refl f(1) refl refl _ _ _ f(4) demo_new_unused(1), of 1 3]
      demo_new_unused(2) demo_new_there demo_new_can_create demo_new_apart
    by (simp add: f name_length_def del: One_nat_def)
qed

section \<open>Formatted output and the console\<close>

text \<open>
  C31. \<open>number\<close> in every base from 2 to 36: sign, prefix, zeros for the precision and the digits of the
  magnitude, with the padding to the field width where the flags put it. The digits denote the magnitude.
\<close>

theorem number_text:
  assumes "2 \<le> base" "base \<le> 36"
  shows "(let sg = sign_text w fl @ prefix_text base fl;
         ds = digit_text (magnitude w fl) base fl;
         z = nat (precision - int (length ds));
         k = nat (width - int (length sg) - max (int (length ds)) precision)
     in number w base width precision fl = Some (layout fl k sg z ds) \<and> digits_val base ds = unat (magnitude w fl))"
  using number_layout [OF assms, of w width precision fl] digit_text_val [OF assms] by (simp add: Let_def)

theorem number_text_witness:
  "(let sg = sign_text (- 7) SIGN @ prefix_text 10 SIGN;
         ds = digit_text (magnitude (- 7) SIGN) 10 SIGN;
         z = nat (3 - int (length ds));
         k = nat (6 - int (length sg) - max (int (length ds)) 3)
     in number (- 7) 10 6 3 SIGN = Some (layout SIGN k sg z ds) \<and> digits_val 10 ds = unat (magnitude (- 7) SIGN))"
  by (rule number_text) simp_all

text \<open>
  C32. \<open>skip_atoi\<close> reads back what \<open>number\<close> prints in decimal, with leading zeros for any width and precision,
  and stops at the first character that is no digit.
\<close>

theorem decimal_roundtrip:
  assumes "rest = [] \<or> \<not> is_digit (hd rest)"
  shows "\<exists>t. number w 10 width precision ZEROPAD = Some t \<and> skip_atoi 0 (t @ rest) = (w, rest)"
proof -
  let ?ds = "digit_text w 10 ZEROPAD"
  let ?z = "nat (precision - int (length ?ds))"
  let ?k = "nat (width - max (int (length ?ds)) precision)"
  have "number w 10 width precision ZEROPAD = Some (replicate (?k + ?z) (CHR ''0'') @ ?ds)"
    by (simp add: number_layout Let_def layout_def sign_text_def prefix_text_def magnitude_def negative_def)
  then show ?thesis using skip_atoi_text [OF assms, of "?k + ?z" w ZEROPAD] by simp
qed

theorem decimal_roundtrip_witness:
  "\<exists>t. number 1024 10 8 (- 1) ZEROPAD = Some t \<and> skip_atoi 0 (t @ '' blocks'') = (1024, '' blocks'')"
  by (rule decimal_roundtrip) (simp add: is_digit_def)

text \<open>
  C33. The console implements a grid of 25 rows of 80 cells: \<open>puts\<close> has the effect of feeding its characters,
  up to a null character, to the grid, line breaks at the margin and scrolling included.
\<close>

theorem console_refines:
  assumes "on_screen s"
  shows "abs_screen (puts str s) = show_text (attr16 s) str (abs_screen s)"
  using puts_step [OF assms] by blast

theorem console_refines_witness:
  "abs_screen (puts ''EgGS'' demo_screen) = show_text (attr16 demo_screen) ''EgGS'' (abs_screen demo_screen)"
  by (rule console_refines [OF demo_on_screen])

text \<open>
  C34. Whatever is printed, the cursor stays on the screen, the hardware cursor is told its position, and no
  byte outside the 4000 bytes of the text screen changes.
\<close>

theorem console_in_bounds:
  assumes "on_screen s"
  shows "on_screen (putch c s) \<and> screen_frame s (putch c s) \<and>
    cursor_told (putch c s) = Some (80 * row (abs_screen (putch c s)) + col (abs_screen (putch c s)))"
  using putch_step [OF assms] cursor_putch [OF assms] by blast

theorem console_in_bounds_witness:
  "on_screen (putch 0x41 demo_screen) \<and> screen_frame demo_screen (putch 0x41 demo_screen) \<and>
    cursor_told (putch 0x41 demo_screen) =
      Some (80 * row (abs_screen (putch 0x41 demo_screen)) + col (abs_screen (putch 0x41 demo_screen)))"
  by (rule console_in_bounds [OF demo_on_screen])

section \<open>Tables and time\<close>

text \<open>
  C35. After the tables are installed, each of the 48 vectors of exceptions and interrupts is a present 32-bit
  interrupt gate of ring 0 to its own stub in the code segment, and the present bit of every other of the 256 gates is clear.
\<close>

theorem gates_installed:
  "gate_target (idt (fst (install_tables isr irq ts)) v) =
    (if v < 32 then Some (0x0E, 0x10, isr v) else if v < 48 then Some (0x0E, 0x10, irq (v - 32))
     else if v < 256 then None else gate_target (idt (fst ts) v))"
  by (rule install_tables_gates)

text \<open>
  C36. \<open>timer_wait\<close> with interrupts on returns after exactly as many timer interrupts as it was asked to wait for,
  unless the tick count would wrap around.
\<close>

theorem timer_wait_ticks:
  assumes "irq_routines (drv s) 0 = Some Timer_handler" "if_flag (hw s)"
    "irqs (hw s) = replicate (unat ticks) 0 @ rest" "unat (timer_ticks (drv s)) + unat ticks < 2 ^ 32"
  shows "\<exists>t. timer_wait ticks s = Inr t \<and> timer_ticks (drv t) = timer_ticks (drv s) + ticks \<and> irqs (hw t) = rest"
  by (rule timer_wait_returns [OF assms])

theorem timer_wait_ticks_witness:
  "\<exists>t. timer_wait 2 demo_timer = Inr t \<and> timer_ticks (drv t) = timer_ticks (drv demo_timer) + 2 \<and> irqs (hw t) = [0]"
  by (rule timer_wait_ticks [OF demo_timer])

section \<open>Code that is not built\<close>



text \<open>
  C38. The stack of free pages: a page that is freed while the stack is neither full nor about to give back a page of
  its own is the next one handed out, and the stack is then as it was.
\<close>

theorem page_stack_roundtrip:
  assumes "pmm_pos s \<le> page AND PAGE_MASK" "pmm_page_stack_ptr s < pmm_page_stack_max s"
    "pmm_page_stack_max s - PAGE_SIZE < pmm_page_stack_ptr s" "pmm_page_stack_ptr s + 4 \<noteq> PMM_PAGE_STACK v"
    "translate (pmm_page_stack_ptr s) s = Some pa"
    "translate (pmm_page_stack_ptr s) (s\<lparr>phys := (phys s)(pa := page AND PAGE_MASK)\<rparr>) = Some pa"
  shows "\<exists>t u. pmm_free_page v page s = Inr t \<and> pop_free_physical_page v t = Inr (page AND PAGE_MASK, u) \<and>
    pmm_page_stack_ptr u = pmm_page_stack_ptr s \<and> pmm_page_stack_max u = pmm_page_stack_max s"
  by (rule free_then_pop [OF assms])

theorem page_stack_roundtrip_witness:
  "\<exists>t u. pmm_free_page demo_vmm 0x9000 demo_pager = Inr t \<and> pop_free_physical_page demo_vmm t = Inr (0x9000 AND PAGE_MASK, u) \<and>
    pmm_page_stack_ptr u = pmm_page_stack_ptr demo_pager \<and> pmm_page_stack_max u = pmm_page_stack_max demo_pager"
  by (rule page_stack_roundtrip [where pa = "0x6010"])
    (simp_all add: demo_pager_def demo_vmm_def translate_def dir_entry_at_def)

text \<open>
  C39. \<open>dir_namei\<close> splits a path at its last slash: the name has no slash, the length is the one of the name, and what
  is before it is empty or ends with a slash.
\<close>

theorem dir_namei_last_component:
  assumes "0 \<notin> set p" "get_dir env p s = Inr (dir, t)" "dir \<noteq> NULL"
  shows "\<exists>d name. dir_namei env p s = Inr ((dir, name, length name), t) \<and> p = d @ name \<and>
    (d = [] \<or> last d = 0x2F) \<and> 0x2F \<notin> set name"
  using dir_namei_splits [OF assms] base_part_splits by metis

theorem dir_namei_last_component_witness:
  "\<exists>d name. dir_namei demo_env [0x61, 0x2F, 0x62] demo_fs =
      Inr ((1, name, length name), demo_fs\<lparr>inode_list := (inode_list demo_fs)(1 := (inode_list demo_fs 1)\<lparr>i_count := i_count (inode_list demo_fs 1) + 1\<rparr>)\<rparr>) \<and>
    [0x61, 0x2F, 0x62] = d @ name \<and> (d = [] \<or> last d = 0x2F) \<and> 0x2F \<notin> set name"
  by (rule dir_namei_last_component) (simp_all add: demo_env_def)

section \<open>Interrupts on too early\<close>



end
